(* ===== verification/Kernel_Prelude.thy ===== *)
theory Kernel_Prelude
  imports Main "HOL-Library.Word" "HOL-Library.Monad_Syntax" "HOL-Library.Code_Target_Nat"
begin

text \<open>
  Shared vocabulary of the development: machine integers, the fixed capacities of
  \<^verbatim>\<open>kernel/src/config.rs\<close>, and the two partial operations that Rust code uses
  everywhere, a panic and an array access.

  A kernel panic halts the machine, so a computation that may panic has a result of type
  \<open>'a option\<close> in which \<open>None\<close> is the panic; such computations are
  sequenced with \<open>do\<close> notation. Rust's own \<open>Option\<close> and \<open>Result\<close>
  values appear inside that result, as \<open>'a option\<close> and as sums \<open>error + 'a\<close>.
\<close>

section \<open>Machine integers\<close>

text \<open>
  \<open>usize\<close> values are indices, counts and addresses. They are natural numbers here, and
  each operation whose arithmetic may leave 64 bits writes the check out. \<open>u32\<close> and
  \<open>u64\<close> values keep their width.
\<close>

type_synonym usize = nat
type_synonym u32 = "32 word"
type_synonym u64 = "64 word"

definition usize_max :: usize where
  "usize_max = 2 ^ 64 - 1"

definition checked_add_usize :: "usize \<Rightarrow> usize \<Rightarrow> usize option" where
  "checked_add_usize a b = (if a + b \<le> usize_max then Some (a + b) else None)"

definition checked_mul_usize :: "usize \<Rightarrow> usize \<Rightarrow> usize option" where
  "checked_mul_usize a b = (if a * b \<le> usize_max then Some (a * b) else None)"

definition checked_add_u64 :: "u64 \<Rightarrow> u64 \<Rightarrow> u64 option" where
  "checked_add_u64 a b = (if unat a + unat b < 2 ^ 64 then Some (a + b) else None)"

definition checked_mul_u64 :: "u64 \<Rightarrow> u64 \<Rightarrow> u64 option" where
  "checked_mul_u64 a b = (if unat a * unat b < 2 ^ 64 then Some (a * b) else None)"

section \<open>Capacities\<close>

definition KERNEL_THREAD_CAPACITY :: usize where
  "KERNEL_THREAD_CAPACITY = 12"

definition KERNEL_CPU_CAPACITY :: usize where
  "KERNEL_CPU_CAPACITY = 4"

definition SCHED_RR_QUANTUM_MS :: u64 where
  "SCHED_RR_QUANTUM_MS = 10"

section \<open>Panics and array accesses\<close>

definition panic_if :: "bool \<Rightarrow> unit option" where
  "panic_if b = (if b then None else Some ())"

definition idx :: "'a list \<Rightarrow> usize \<Rightarrow> 'a option" where
  "idx xs i = (if i < length xs then Some (xs ! i) else None)"

text \<open>The \<open>?\<close> operator on results.\<close>

definition and_then :: "'e + 'a \<Rightarrow> ('a \<Rightarrow> 'e + 'b) \<Rightarrow> 'e + 'b" where
  "and_then r f = (case r of Inl e \<Rightarrow> Inl e | Inr x \<Rightarrow> f x)"

named_theorems panics
  \<open>rewrite rules that evaluate one step of a computation that may panic\<close>

lemma panic_if_simps [simp, panics]:
  "panic_if True = None" "panic_if False = Some ()"
  by (simp_all add: panic_if_def)

lemma panic_if_eq_Some [simp]: "panic_if b = Some u \<longleftrightarrow> \<not> b"
  by (simp add: panic_if_def)

lemma panic_if_eq_None [simp]: "panic_if b = None \<longleftrightarrow> b"
  by (simp add: panic_if_def)

lemma bind_panic_if [simp, panics]:
  "Option.bind (panic_if b) f = (if b then None else f ())"
  by (simp add: panic_if_def)

lemma idx_eq_Some: "idx xs i = Some x \<longleftrightarrow> i < length xs \<and> xs ! i = x"
  by (auto simp: idx_def)

lemma idx_Some [simp]: "i < length xs \<Longrightarrow> idx xs i = Some (xs ! i)"
  by (simp add: idx_def)

lemma idx_list_update:
  "idx (xs[i := x]) j = (if i = j \<and> j < length xs then Some x else idx xs j)"
  by (auto simp: idx_def)

lemma idx_append1 [simp]: "i < length xs \<Longrightarrow> idx (xs @ ys) i = idx xs i"
  by (auto simp: idx_def nth_append)

lemma and_then_simps [simp]: "and_then (Inl e) f = Inl e" "and_then (Inr x) f = f x"
  by (simp_all add: and_then_def)

lemma and_then_eq_Inr: "and_then r f = Inr y \<longleftrightarrow> (\<exists>x. r = Inr x \<and> f x = Inr y)"
  by (cases r) simp_all

section \<open>Lists\<close>

text \<open>
  Rust's \<open>VecDeque\<close> and \<open>Vec\<close> are lists; \<open>push_back\<close> appends,
  \<open>pop_front\<close> removes the head and \<open>pop\<close> removes the last element.
\<close>

lemma set_butlast_distinct:
  "distinct xs \<Longrightarrow> xs \<noteq> [] \<Longrightarrow> set (butlast xs) = set xs - {last xs}"
proof -
  assume d: "distinct xs" and n: "xs \<noteq> []"
  have "distinct (butlast xs @ [last xs])" using d n by simp
  then have "last xs \<notin> set (butlast xs)" by simp
  moreover have "set xs = insert (last xs) (set (butlast xs))"
    using n by (metis append_butlast_last_id list.simps(15) rotate1.simps(2) set_rotate1)
  ultimately show ?thesis by auto
qed

lemma distinct_subset_length:
  "distinct xs \<Longrightarrow> set xs \<subseteq> {..<n} \<Longrightarrow> length xs \<le> n"
  by (metis card_lessThan card_mono distinct_card finite_lessThan)

lemma distinct_avoiding_length:
  assumes "distinct xs" "set xs \<subseteq> {..<n}" "k < n" "k \<notin> set xs"
  shows "length xs < n"
proof -
  have "distinct (k # xs)" "set (k # xs) \<subseteq> {..<n}" using assms by auto
  from distinct_subset_length [OF this] show ?thesis by simp
qed

section \<open>Checked arithmetic\<close>

lemma checked_add_u64_Some:
  "checked_add_u64 a b = Some c \<longleftrightarrow> unat a + unat b < 2 ^ 64 \<and> c = a + b"
  by (auto simp: checked_add_u64_def)

lemma unat_add_u64: "unat a + unat b < 2 ^ 64 \<Longrightarrow> unat (a + b) = unat a + unat b"
  for a b :: u64
  by (simp add: unat_word_ariths)

lemma unat_mul_u64: "unat a * unat b < 2 ^ 64 \<Longrightarrow> unat (a * b) = unat a * unat b"
  for a b :: u64
  by (simp add: unat_word_ariths)

lemma checked_add_u64_unat:
  "checked_add_u64 a b = Some c \<Longrightarrow> unat c = unat a + unat b"
  by (auto simp: checked_add_u64_Some unat_add_u64)

lemma checked_mul_u64_unat:
  "checked_mul_u64 a b = Some c \<Longrightarrow> unat c = unat a * unat b"
  by (auto simp: checked_mul_u64_def unat_mul_u64 split: if_splits)

lemma checked_add_u64_one_less:
  "checked_add_u64 a 1 = Some c \<Longrightarrow> a < c"
  by (drule checked_add_u64_unat) (simp add: word_less_nat_alt)

end
