(* ===== verification/Wait.thy ===== *)
theory Wait
  imports Kernel_Prelude
begin

text \<open>
  The wait metadata of one thread slot (\<^verbatim>\<open>kernel/src/sched/wait.rs\<close>): the identities
  of threads and waits, the state machine of one blocking episode
  (prepare, commit, complete, cancel, finish), and what its users rely on: a token names one
  episode only, the first completion wins, and a blocked episode is woken at most once.
\<close>

section \<open>Identities\<close>

text \<open>A logical CPU is an index below \<open>KERNEL_CPU_CAPACITY\<close>.\<close>

type_synonym cpu_id = usize

datatype thread_id = ThreadId (tid_index: usize) (tid_generation: u32)

text \<open>
  A \<open>WaitToken\<close> names one wait registration: the thread (with its generation), the
  thread's home CPU, and the per-slot sequence number of the registration.
\<close>

datatype wait_token =
  WaitToken (wt_thread: thread_id) (wt_cpu: cpu_id) (wt_sequence: u64)

datatype wait_cause = Notified | Timeout

datatype wait_consumption = Explicit | Automatic

datatype wait_phase = Prepared | PhaseBlocked | Completed wait_cause

datatype prepared_wait =
  PreparedWait (pw_token: wait_token) (pw_consumption: wait_consumption)

record active_wait =
  aw_token :: wait_token
  aw_phase :: wait_phase
  aw_consumption :: wait_consumption

record wait_metadata =
  next_sequence :: u64
  active :: "active_wait option"

datatype completion_result = CompletedPrepared | WokeBlocked | AlreadyCompleted | CompletionStale

datatype commit_state = CommitBlock wait_token | CommitEarly wait_cause | CommitStale

datatype cancel_result = Cancelled | CancelCompleted wait_cause | CancelStale

datatype finish_error = FinishStale | NotCompleted

section \<open>Operations\<close>

definition with_next_sequence :: "u64 \<Rightarrow> wait_metadata" where
  "with_next_sequence n = \<lparr>next_sequence = n, active = None\<rparr>"

text \<open>
  Preparation panics when a previous completion was not consumed or when the sequence would
  overflow.
\<close>

definition prepare_with_consumption ::
  "thread_id \<Rightarrow> cpu_id \<Rightarrow> wait_consumption \<Rightarrow> wait_metadata \<Rightarrow> (prepared_wait \<times> wait_metadata) option"
where
  "prepare_with_consumption thread cpu consumption w = do {
     panic_if (active w \<noteq> None);
     s \<leftarrow> checked_add_u64 (next_sequence w) 1;
     let token = WaitToken thread cpu s;
     Some (PreparedWait token consumption,
       w\<lparr>next_sequence := s,
         active := Some \<lparr>aw_token = token, aw_phase = Prepared, aw_consumption = consumption\<rparr>\<rparr>)
   }"

definition wait_prepare :: "thread_id \<Rightarrow> cpu_id \<Rightarrow> wait_metadata \<Rightarrow> (prepared_wait \<times> wait_metadata) option" where
  "wait_prepare thread cpu = prepare_with_consumption thread cpu Explicit"

definition wait_prepare_automatic ::
  "thread_id \<Rightarrow> cpu_id \<Rightarrow> wait_metadata \<Rightarrow> (prepared_wait \<times> wait_metadata) option" where
  "wait_prepare_automatic thread cpu = prepare_with_consumption thread cpu Automatic"

definition wait_commit :: "prepared_wait \<Rightarrow> wait_metadata \<Rightarrow> commit_state \<times> wait_metadata" where
  "wait_commit prepared w =
     (case active w of
        None \<Rightarrow> (CommitStale, w)
      | Some a \<Rightarrow>
          if aw_token a \<noteq> pw_token prepared then (CommitStale, w)
          else (case aw_phase a of
              Prepared \<Rightarrow>
                if aw_consumption a = pw_consumption prepared
                then (CommitBlock (aw_token a), w\<lparr>active := Some (a\<lparr>aw_phase := PhaseBlocked\<rparr>)\<rparr>)
                else (CommitStale, w)
            | Completed cause \<Rightarrow> (CommitEarly cause, w\<lparr>active := None\<rparr>)
            | PhaseBlocked \<Rightarrow> (CommitStale, w)))"

definition wait_complete ::
  "wait_token \<Rightarrow> wait_cause \<Rightarrow> wait_metadata \<Rightarrow> completion_result \<times> wait_metadata" where
  "wait_complete token cause w =
     (case active w of
        None \<Rightarrow> (CompletionStale, w)
      | Some a \<Rightarrow>
          if aw_token a \<noteq> token then (CompletionStale, w)
          else (case aw_phase a of
              Prepared \<Rightarrow>
                (CompletedPrepared, w\<lparr>active := Some (a\<lparr>aw_phase := Completed cause\<rparr>)\<rparr>)
            | PhaseBlocked \<Rightarrow>
                (WokeBlocked,
                 case aw_consumption a of
                   Explicit \<Rightarrow> w\<lparr>active := Some (a\<lparr>aw_phase := Completed cause\<rparr>)\<rparr>
                 | Automatic \<Rightarrow> w\<lparr>active := None\<rparr>)
            | Completed c \<Rightarrow> (AlreadyCompleted, w)))"

definition wait_cancel :: "prepared_wait \<Rightarrow> wait_metadata \<Rightarrow> cancel_result \<times> wait_metadata" where
  "wait_cancel prepared w =
     (case active w of
        None \<Rightarrow> (CancelStale, w)
      | Some a \<Rightarrow>
          if aw_token a \<noteq> pw_token prepared then (CancelStale, w)
          else (case aw_phase a of
              Prepared \<Rightarrow> (Cancelled, w\<lparr>active := None\<rparr>)
            | Completed cause \<Rightarrow> (CancelCompleted cause, w\<lparr>active := None\<rparr>)
            | PhaseBlocked \<Rightarrow> (CancelStale, w)))"

definition wait_finish :: "wait_token \<Rightarrow> wait_metadata \<Rightarrow> (finish_error + wait_cause) \<times> wait_metadata" where
  "wait_finish token w =
     (case active w of
        None \<Rightarrow> (Inl FinishStale, w)
      | Some a \<Rightarrow>
          if aw_token a \<noteq> token then (Inl FinishStale, w)
          else (case aw_phase a of
              Completed cause \<Rightarrow> (Inr cause, w\<lparr>active := None\<rparr>)
            | Prepared \<Rightarrow> (Inl NotCompleted, w)
            | PhaseBlocked \<Rightarrow> (Inl NotCompleted, w)))"

definition wait_is_none :: "wait_metadata \<Rightarrow> bool" where
  "wait_is_none w \<longleftrightarrow> active w = None"

definition wait_is_prepared :: "wait_metadata \<Rightarrow> bool" where
  "wait_is_prepared w \<longleftrightarrow> (case active w of Some a \<Rightarrow> aw_phase a = Prepared | None \<Rightarrow> False)"

definition wait_is_blocked :: "wait_metadata \<Rightarrow> bool" where
  "wait_is_blocked w \<longleftrightarrow> (case active w of Some a \<Rightarrow> aw_phase a = PhaseBlocked | None \<Rightarrow> False)"

definition wait_is_completed :: "wait_metadata \<Rightarrow> bool" where
  "wait_is_completed w \<longleftrightarrow>
     (case active w of Some a \<Rightarrow> (case aw_phase a of Completed c \<Rightarrow> True | _ \<Rightarrow> False) | None \<Rightarrow> False)"

section \<open>Sequences of operations\<close>

text \<open>
  A wait owner, the timer, and the running thread each call one of the operations; the order
  is theirs to choose. \<open>wait_step\<close> runs one call and records what a completion
  answered, \<open>wait_run\<close> runs a list of calls and stops at a panic.
\<close>

datatype wait_op =
    OpPrepare thread_id cpu_id wait_consumption
  | OpCommit prepared_wait
  | OpComplete wait_token wait_cause
  | OpCancel prepared_wait
  | OpFinish wait_token

datatype wait_event =
    EvPrepared wait_token
  | EvCommit prepared_wait commit_state
  | EvComplete wait_token wait_cause completion_result
  | EvCancel prepared_wait cancel_result
  | EvFinish wait_token "finish_error + wait_cause"

fun wait_step :: "wait_op \<Rightarrow> wait_metadata \<Rightarrow> (wait_event \<times> wait_metadata) option" where
  "wait_step (OpPrepare t c k) w =
     map_option (\<lambda>(p, w'). (EvPrepared (pw_token p), w')) (prepare_with_consumption t c k w)"
| "wait_step (OpCommit p) w = (let (r, w') = wait_commit p w in Some (EvCommit p r, w'))"
| "wait_step (OpComplete tok cause) w =
     (let (r, w') = wait_complete tok cause w in Some (EvComplete tok cause r, w'))"
| "wait_step (OpCancel p) w = (let (r, w') = wait_cancel p w in Some (EvCancel p r, w'))"
| "wait_step (OpFinish tok) w = (let (r, w') = wait_finish tok w in Some (EvFinish tok r, w'))"

fun wait_run :: "wait_op list \<Rightarrow> wait_metadata \<Rightarrow> (wait_event list \<times> wait_metadata) option" where
  "wait_run [] w = Some ([], w)"
| "wait_run (x # xs) w = do {
     (e, w) \<leftarrow> wait_step x w;
     (es, w) \<leftarrow> wait_run xs w;
     Some (e # es, w)
   }"

text \<open>
  The causes a run accepted for \<open>token\<close> (a completion that changed the episode), and the
  causes it handed to a consumer (an early commit, a cancellation that lost, or a finish).
\<close>

fun accepted_cause :: "wait_token \<Rightarrow> wait_event \<Rightarrow> wait_cause option" where
  "accepted_cause token (EvComplete t c r) =
     (if t = token \<and> (r = CompletedPrepared \<or> r = WokeBlocked) then Some c else None)"
| "accepted_cause token _ = None"

fun consumed_cause :: "wait_token \<Rightarrow> wait_event \<Rightarrow> wait_cause option" where
  "consumed_cause token (EvCommit p (CommitEarly c)) = (if pw_token p = token then Some c else None)"
| "consumed_cause token (EvCancel p (CancelCompleted c)) = (if pw_token p = token then Some c else None)"
| "consumed_cause token (EvFinish t (Inr c)) = (if t = token then Some c else None)"
| "consumed_cause token _ = None"

definition accepted :: "wait_token \<Rightarrow> wait_event list \<Rightarrow> wait_cause list" where
  "accepted token es = List.map_filter (accepted_cause token) es"

definition consumed :: "wait_token \<Rightarrow> wait_event list \<Rightarrow> wait_cause list" where
  "consumed token es = List.map_filter (consumed_cause token) es"

section \<open>Basic facts\<close>

lemmas wait_op_defs =
  wait_commit_def wait_complete_def wait_cancel_def wait_finish_def
  prepare_with_consumption_def wait_prepare_def wait_prepare_automatic_def

lemmas wait_query_defs =
  wait_is_none_def wait_is_prepared_def wait_is_blocked_def wait_is_completed_def

lemmas wait_splits =
  option.splits wait_phase.splits wait_consumption.splits if_splits

text \<open>
  The well-formedness of the metadata: an active registration carries the newest sequence
  number.
\<close>

definition wait_wf :: "wait_metadata \<Rightarrow> bool" where
  "wait_wf w \<longleftrightarrow> (\<forall>a. active w = Some a \<longrightarrow> wt_sequence (aw_token a) = next_sequence w)"

lemma wait_wf_initial [simp]: "wait_wf (with_next_sequence n)"
  by (simp add: wait_wf_def with_next_sequence_def)

lemma wait_step_wf: "wait_step x w = Some (e, w') \<Longrightarrow> wait_wf w \<Longrightarrow> wait_wf w'"
  by (cases x) (auto simp: wait_wf_def wait_op_defs bind_eq_Some_conv Let_def split: wait_splits)

text \<open>The sequence number never decreases, and grows exactly at a preparation.\<close>

lemma wait_step_sequence_mono: "wait_step x w = Some (e, w') \<Longrightarrow> next_sequence w \<le> next_sequence w'"
proof (cases x)
  case (OpPrepare t c k)
  assume "wait_step x w = Some (e, w')"
  with OpPrepare have "checked_add_u64 (next_sequence w) 1 = Some (next_sequence w')"
    by (auto simp: prepare_with_consumption_def bind_eq_Some_conv Let_def split: if_splits)
  then show ?thesis using checked_add_u64_one_less by force
qed (auto simp: wait_op_defs Let_def split: wait_splits)

lemma prepare_fresh:
  assumes "prepare_with_consumption t c k w = Some (p, w')"
  shows "wt_sequence (pw_token p) = next_sequence w'" "next_sequence w < next_sequence w'"
    "wt_thread (pw_token p) = t" "wt_cpu (pw_token p) = c" "pw_consumption p = k"
    "active w = None"
    "active w' = Some \<lparr>aw_token = pw_token p, aw_phase = Prepared, aw_consumption = k\<rparr>"
proof -
  from assms obtain s where s: "checked_add_u64 (next_sequence w) 1 = Some s"
    and p: "p = PreparedWait (WaitToken t c s) k" "active w = None"
    and w': "w' = w\<lparr>next_sequence := s,
      active := Some \<lparr>aw_token = WaitToken t c s, aw_phase = Prepared, aw_consumption = k\<rparr>\<rparr>"
    by (auto simp: prepare_with_consumption_def bind_eq_Some_conv Let_def split: if_splits)
  from checked_add_u64_one_less [OF s] show "next_sequence w < next_sequence w'"
    by (simp add: w')
qed (insert assms, auto simp: prepare_with_consumption_def bind_eq_Some_conv Let_def split: if_splits)

section \<open>One episode per token\<close>

text \<open>
  A token is gone once its sequence number was issued and it is not the active registration;
  nothing can bring it back, because later preparations issue greater numbers.
\<close>

definition gone :: "wait_token \<Rightarrow> wait_metadata \<Rightarrow> bool" where
  "gone token w \<longleftrightarrow> wt_sequence token \<le> next_sequence w \<and>
     (\<forall>a. active w = Some a \<longrightarrow> aw_token a \<noteq> token)"

lemma accepted_simps [simp]:
  "accepted token [] = []"
  "accepted token (e # es) =
     (case accepted_cause token e of None \<Rightarrow> accepted token es | Some c \<Rightarrow> c # accepted token es)"
  by (simp_all add: accepted_def map_filter_def split: option.splits)

lemma consumed_simps [simp]:
  "consumed token [] = []"
  "consumed token (e # es) =
     (case consumed_cause token e of None \<Rightarrow> consumed token es | Some c \<Rightarrow> c # consumed token es)"
  by (simp_all add: consumed_def map_filter_def split: option.splits)

lemma gone_step:
  assumes "wait_step x w = Some (e, w')" "gone token w"
  shows "gone token w' \<and> accepted_cause token e = None \<and> consumed_cause token e = None"
proof (cases x)
  case (OpPrepare t c k)
  with assms(1) obtain p where p: "prepare_with_consumption t c k w = Some (p, w')"
    "e = EvPrepared (pw_token p)" by auto
  have "aw_token a \<noteq> token" if "active w' = Some a" for a
  proof -
    have "wt_sequence (aw_token a) = next_sequence w'"
      using prepare_fresh [OF p(1)] that by simp
    moreover have "wt_sequence token < next_sequence w'"
      using prepare_fresh(2) [OF p(1)] assms(2) by (auto simp: gone_def)
    ultimately show ?thesis by auto
  qed
  with prepare_fresh(2) [OF p(1)] assms(2) show ?thesis
    by (auto simp: p(2) gone_def)
qed (insert assms, auto simp: wait_op_defs gone_def Let_def split: wait_splits)

lemma gone_run:
  "wait_run xs w = Some (es, w') \<Longrightarrow> gone token w \<Longrightarrow> accepted token es = [] \<and> consumed token es = []"
proof (induction xs arbitrary: w es)
  case (Cons x xs)
  then obtain e w1 es1 where "wait_step x w = Some (e, w1)" "wait_run xs w1 = Some (es1, w')"
    "es = e # es1" by (auto simp: bind_eq_Some_conv)
  with gone_step Cons.IH Cons.prems(2) show ?case by fastforce
qed simp

text \<open>
  The cause an unconsumed completion of \<open>token\<close> left behind. A completed episode keeps its
  cause until it is consumed, and is then gone.
\<close>

definition pending_cause :: "wait_token \<Rightarrow> wait_metadata \<Rightarrow> wait_cause option" where
  "pending_cause token w =
     (case active w of
        Some a \<Rightarrow> if aw_token a = token then (case aw_phase a of Completed c \<Rightarrow> Some c | _ \<Rightarrow> None) else None
      | None \<Rightarrow> None)"

lemma completed_step:
  assumes "wait_step x w = Some (e, w')" "wait_wf w" "pending_cause token w = Some c"
  shows "accepted_cause token e = None \<and>
    ((consumed_cause token e = None \<and> pending_cause token w' = Some c) \<or>
     (consumed_cause token e = Some c \<and> gone token w'))"
  using assms
  by (cases x)
    (auto simp: wait_op_defs gone_def wait_wf_def pending_cause_def bind_eq_Some_conv Let_def
      split: wait_splits)

lemma completed_run:
  assumes "wait_run xs w = Some (es, w')" "wait_wf w" "pending_cause token w = Some c"
  shows "accepted token es = [] \<and> (consumed token es = [] \<or> consumed token es = [c])"
  using assms
proof (induction xs arbitrary: w es)
  case (Cons x xs)
  then obtain e w1 es1 where st: "wait_step x w = Some (e, w1)" and run: "wait_run xs w1 = Some (es1, w')"
    and es: "es = e # es1" by (auto simp: bind_eq_Some_conv)
  from completed_step [OF st Cons.prems(2,3)] show ?case
  proof (elim disjE conjE)
    assume "accepted_cause token e = None" "consumed_cause token e = None" "pending_cause token w1 = Some c"
    with Cons.IH [OF run wait_step_wf [OF st Cons.prems(2)]] show ?thesis by (simp add: es)
  next
    assume "accepted_cause token e = None" "consumed_cause token e = Some c" "gone token w1"
    with gone_run [OF run] show ?thesis by (simp add: es)
  qed
qed simp

lemma complete_open:
  assumes "wait_complete t c w = (r, w')" "wait_wf w" "pending_cause token w = None"
  shows "(r = CompletedPrepared \<or> r = WokeBlocked) \<and> t = token \<and>
       (gone token w' \<or> pending_cause token w' = Some c) \<or>
     accepted_cause token (EvComplete t c r) = None \<and> pending_cause token w' = None"
proof (cases "\<exists>a. active w = Some a \<and> aw_token a = t")
  case False
  then have "wait_complete t c w = (CompletionStale, w)"
    by (auto simp: wait_complete_def split: option.split)
  with assms show ?thesis by simp
next
  case True
  then obtain a where a: "active w = Some a" "aw_token a = t" by blast
  then have "wt_sequence t = next_sequence w" using assms(2) by (auto simp: wait_wf_def)
  with a assms(1,3) show ?thesis
    by (cases "aw_phase a"; cases "aw_consumption a"; cases "t = token")
      (auto simp: wait_complete_def pending_cause_def gone_def)
qed

lemma open_step:
  assumes "wait_step x w = Some (e, w')" "wait_wf w" "pending_cause token w = None"
  shows "consumed_cause token e = None \<and>
    (accepted_cause token e = None \<and> pending_cause token w' = None \<or>
     (\<exists>c. accepted_cause token e = Some c \<and> (gone token w' \<or> pending_cause token w' = Some c)))"
proof (cases x)
  case (OpComplete t c)
  then obtain r where "wait_complete t c w = (r, w')" "e = EvComplete t c r"
    using assms(1) by (auto split: prod.splits)
  with complete_open [OF this(1) assms(2,3)] show ?thesis by auto
qed (insert assms, auto simp: wait_op_defs pending_cause_def bind_eq_Some_conv Let_def split: wait_splits)

text \<open>
  C7. In every sequence of prepare, commit, complete, cancel and finish calls on the metadata
  of a slot, at most one completion of a given token is accepted, and whatever a commit, a
  cancellation or a finish hands out for that token is the cause of that one completion, at
  most once. Late, duplicate and losing completions change nothing.
\<close>

theorem wait_first_completion_wins:
  assumes "wait_run xs (with_next_sequence n) = Some (es, w)"
  shows "length (accepted token es) \<le> 1 \<and> (consumed token es = [] \<or> consumed token es = accepted token es)"
proof -
  have "length (accepted token es) \<le> 1 \<and> (consumed token es = [] \<or> consumed token es = accepted token es)"
    if "wait_run xs v = Some (es, w)" "wait_wf v" "pending_cause token v = None" for v
    using that
  proof (induction xs arbitrary: v es)
    case (Cons x xs)
    then obtain e v1 es1 where st: "wait_step x v = Some (e, v1)" and run: "wait_run xs v1 = Some (es1, w)"
      and es: "es = e # es1" by (auto simp: bind_eq_Some_conv)
    note wf1 = wait_step_wf [OF st Cons.prems(2)]
    from open_step [OF st Cons.prems(2,3)] show ?case
    proof (elim conjE disjE exE)
      assume "consumed_cause token e = None" "accepted_cause token e = None" "pending_cause token v1 = None"
      with Cons.IH [OF run wf1] show ?thesis by (simp add: es)
    next
      fix c assume "consumed_cause token e = None" "accepted_cause token e = Some c" "gone token v1"
      with gone_run [OF run] show ?thesis by (simp add: es)
    next
      fix c assume "consumed_cause token e = None" "accepted_cause token e = Some c"
        "pending_cause token v1 = Some c"
      with completed_run [OF run wf1] show ?thesis by (auto simp: es)
    qed
  qed simp
  from this [OF assms wait_wf_initial] show ?thesis
    by (simp add: pending_cause_def with_next_sequence_def)
qed

text \<open>
  The witness: a prepared wait is notified, the deadline then loses, the commit reports the
  notification early, and a late duplicate finds nothing.
\<close>

theorem wait_first_completion_wins_witness:
  "let t = WaitToken (ThreadId 3 7) 0 1;
       xs = [OpPrepare (ThreadId 3 7) 0 Explicit, OpComplete t Notified, OpComplete t Timeout,
             OpCommit (PreparedWait t Explicit), OpComplete t Timeout]
   in \<exists>es w. wait_run xs (with_next_sequence 0) = Some (es, w) \<and>
        accepted t es = [Notified] \<and> consumed t es = [Notified] \<and> length (accepted t es) \<le> 1"
proof -
  let ?t = "WaitToken (ThreadId 3 7) 0 1"
  let ?xs = "[OpPrepare (ThreadId 3 7) 0 Explicit, OpComplete ?t Notified, OpComplete ?t Timeout,
             OpCommit (PreparedWait ?t Explicit), OpComplete ?t Timeout]"
  have "map_option (\<lambda>(es, w). (accepted ?t es, consumed ?t es)) (wait_run ?xs (with_next_sequence 0))
      = Some ([Notified], [Notified])"
    by code_simp
  then obtain es w where run: "wait_run ?xs (with_next_sequence 0) = Some (es, w)"
    and vals: "accepted ?t es = [Notified]" "consumed ?t es = [Notified]"
    by auto
  from wait_first_completion_wins [OF run, of ?t] run vals show ?thesis
    unfolding Let_def by blast
qed

end
