(* ===== verification/Deadline_Queue.thy ===== *)
theory Deadline_Queue
  imports Wait "HOL-Library.Multiset" "HOL-Library.Product_Lexorder"
begin

text \<open>
  The deadline queue of one logical CPU (\<^verbatim>\<open>kernel/src/time.rs\<close>, \<open>TimedEvent\<close>,
  \<open>DeadlineEntry\<close>, \<open>DeadlineQueue\<close>): a binary min-heap in an array of fixed capacity.
  Each operation keeps the heap order and the uniqueness of events, and implements an update of
  a finite map from events to deadlines; the interface its clients use is the locale
  \<open>deadline_store\<close>.
\<close>

section \<open>Timed events\<close>

datatype timed_event =
    WaitDeadline cpu_id wait_token
  | QuantumExpired cpu_id thread_id

definition wait_deadline :: "wait_token \<Rightarrow> timed_event" where
  "wait_deadline token = WaitDeadline (wt_cpu token) token"

definition quantum_expired :: "cpu_id \<Rightarrow> thread_id \<Rightarrow> timed_event" where
  "quantum_expired cpu thread = QuantumExpired cpu thread"

fun event_cpu :: "timed_event \<Rightarrow> cpu_id" where
  "event_cpu (WaitDeadline cpu token) = cpu"
| "event_cpu (QuantumExpired cpu thread) = cpu"

fun event_sort_key :: "timed_event \<Rightarrow> nat \<times> usize \<times> u32 \<times> u64" where
  "event_sort_key (WaitDeadline cpu token) =
     (0, tid_index (wt_thread token), tid_generation (wt_thread token), wt_sequence token)"
| "event_sort_key (QuantumExpired cpu thread) = (1, tid_index thread, tid_generation thread, 0)"

record deadline_entry =
  deadline :: u64
  event :: timed_event

record deadline_queue =
  entries :: "deadline_entry list"
  queue_capacity :: usize

section \<open>The binary heap\<close>

definition heap_parent :: "usize \<Rightarrow> usize" where
  "heap_parent index = (index - 1) div 2"

definition heap_left :: "usize \<Rightarrow> usize" where
  "heap_left index = index * 2 + 1"

text \<open>
  \<open>Vec::swap\<close>, \<open>Vec\<close> indexing and \<open>less\<close> panic on an index out of range.
\<close>

definition vec_swap :: "'a list \<Rightarrow> usize \<Rightarrow> usize \<Rightarrow> 'a list option" where
  "vec_swap xs i j = do {
     x \<leftarrow> idx xs i;
     y \<leftarrow> idx xs j;
     Some (xs[i := y, j := x])
   }"

definition entry_less :: "deadline_entry list \<Rightarrow> usize \<Rightarrow> usize \<Rightarrow> bool option" where
  "entry_less xs lhs rhs = do {
     left \<leftarrow> idx xs lhs;
     right \<leftarrow> idx xs rhs;
     Some (deadline left < deadline right \<or>
       (deadline left = deadline right \<and> event_sort_key (event left) < event_sort_key (event right)))
   }"

lemma heap_parent_less [simp]: "0 < i \<Longrightarrow> heap_parent i < i"
  by (simp add: heap_parent_def)

lemma heap_parent_neq [simp]: "0 < i \<Longrightarrow> heap_parent i \<noteq> i" "0 < i \<Longrightarrow> i \<noteq> heap_parent i"
  using heap_parent_less [of i] by linarith+

lemma heap_parent_less_trans [simp]: "0 < i \<Longrightarrow> i < n \<Longrightarrow> heap_parent i < n"
  using heap_parent_less less_trans by blast

function sift_up :: "deadline_entry list \<Rightarrow> usize \<Rightarrow> deadline_entry list option" where
  "sift_up xs index =
     (if 0 < index then do {
        let parent = heap_parent index;
        lt \<leftarrow> entry_less xs index parent;
        if \<not> lt then Some xs
        else do {
          xs \<leftarrow> vec_swap xs index parent;
          sift_up xs parent
        }
      } else Some xs)"
  by pat_completeness auto
termination
  by (relation "measure snd") simp_all

function sift_down :: "deadline_entry list \<Rightarrow> usize \<Rightarrow> deadline_entry list option" where
  "sift_down xs index =
     (let left = heap_left index in
      if length xs \<le> left then Some xs
      else do {
        let right = left + 1;
        lt \<leftarrow> (if right < length xs then entry_less xs right left else Some False);
        let best = (if lt then right else left);
        lt \<leftarrow> entry_less xs best index;
        if \<not> lt then Some xs
        else do {
          xs \<leftarrow> vec_swap xs index best;
          sift_down xs best
        }
      })"
  by pat_completeness auto
termination
  by (relation "measure (\<lambda>(xs, i). length xs - i)")
    (auto simp: vec_swap_def heap_left_def bind_eq_Some_conv split: if_splits)

definition find_event_index :: "timed_event \<Rightarrow> deadline_entry list \<Rightarrow> usize option" where
  "find_event_index ev xs =
     (let i = length (takeWhile (\<lambda>e. event e \<noteq> ev) xs) in if i < length xs then Some i else None)"

definition remove_at :: "usize \<Rightarrow> deadline_entry list \<Rightarrow> (deadline_entry \<times> deadline_entry list) option" where
  "remove_at index xs = do {
     panic_if (xs = []);
     xs \<leftarrow> vec_swap xs index (length xs - 1);
     let removed = last xs;
     let xs = butlast xs;
     if index < length xs then do {
       up \<leftarrow> (if 0 < index then entry_less xs index (heap_parent index) else Some False);
       xs \<leftarrow> (if up then sift_up xs index else sift_down xs index);
       Some (removed, xs)
     } else Some (removed, xs)
   }"

definition dq_with_capacity :: "usize \<Rightarrow> deadline_queue" where
  "dq_with_capacity capacity = \<lparr>entries = [], queue_capacity = capacity\<rparr>"

definition dq_schedule :: "u64 \<Rightarrow> timed_event \<Rightarrow> deadline_queue \<Rightarrow> deadline_queue option" where
  "dq_schedule d ev q =
     (case find_event_index ev (entries q) of
        Some index \<Rightarrow> do {
          entry \<leftarrow> idx (entries q) index;
          let xs = (entries q)[index := entry\<lparr>deadline := d\<rparr>];
          xs \<leftarrow> (if d < deadline entry then sift_up xs index
                 else if deadline entry < d then sift_down xs index
                 else Some xs);
          Some (q\<lparr>entries := xs\<rparr>)
        }
      | None \<Rightarrow> do {
          panic_if (length (entries q) = queue_capacity q);
          let xs = entries q @ [\<lparr>deadline = d, event = ev\<rparr>];
          xs \<leftarrow> sift_up xs (length xs - 1);
          Some (q\<lparr>entries := xs\<rparr>)
        })"

definition dq_cancel :: "timed_event \<Rightarrow> deadline_queue \<Rightarrow> (bool \<times> deadline_queue) option" where
  "dq_cancel ev q =
     (case find_event_index ev (entries q) of
        None \<Rightarrow> Some (False, q)
      | Some index \<Rightarrow> do {
          (_, xs) \<leftarrow> remove_at index (entries q);
          Some (True, q\<lparr>entries := xs\<rparr>)
        })"

definition dq_event_pending :: "timed_event \<Rightarrow> deadline_queue \<Rightarrow> bool" where
  "dq_event_pending ev q \<longleftrightarrow> find_event_index ev (entries q) \<noteq> None"

definition dq_pop_expired :: "u64 \<Rightarrow> deadline_queue \<Rightarrow> (timed_event option \<times> deadline_queue) option" where
  "dq_pop_expired now q =
     (case entries q of
        [] \<Rightarrow> Some (None, q)
      | entry # _ \<Rightarrow>
          if now < deadline entry then Some (None, q)
          else do {
            (removed, xs) \<leftarrow> remove_at 0 (entries q);
            Some (Some (event removed), q\<lparr>entries := xs\<rparr>)
          })"

definition dq_next_deadline :: "deadline_queue \<Rightarrow> u64 option" where
  "dq_next_deadline q = (case entries q of [] \<Rightarrow> None | entry # _ \<Rightarrow> Some (deadline entry))"

section \<open>Heap order\<close>

text \<open>
  Entries are compared by deadline, then by the event's sort key. The comparison is a linear
  order on the keys.
\<close>

definition entry_key :: "deadline_entry \<Rightarrow> u64 \<times> nat \<times> usize \<times> u32 \<times> u64" where
  "entry_key e = (deadline e, event_sort_key (event e))"

lemma entry_less_key [simp]:
  "i < length xs \<Longrightarrow> j < length xs \<Longrightarrow> entry_less xs i j = Some (entry_key (xs ! i) < entry_key (xs ! j))"
  by (auto simp: entry_less_def entry_key_def)

lemma vec_swap_Some [simp]:
  "i < length xs \<Longrightarrow> j < length xs \<Longrightarrow> vec_swap xs i j = Some (xs[i := xs ! j, j := xs ! i])"
  by (simp add: vec_swap_def)

definition heap_at :: "deadline_entry list \<Rightarrow> usize \<Rightarrow> bool" where
  "heap_at xs j \<longleftrightarrow> entry_key (xs ! heap_parent j) \<le> entry_key (xs ! j)"

definition is_heap :: "deadline_entry list \<Rightarrow> bool" where
  "is_heap xs \<longleftrightarrow> (\<forall>j. 0 < j \<and> j < length xs \<longrightarrow> heap_at xs j)"

text \<open>
  The heap order holds away from position \<open>i\<close>, and across it from its parent to its
  children; what a sift restores.
\<close>

definition heap_around :: "deadline_entry list \<Rightarrow> usize \<Rightarrow> bool" where
  "heap_around xs i \<longleftrightarrow>
     (\<forall>j. 0 < j \<and> j < length xs \<and> j \<noteq> i \<and> heap_parent j \<noteq> i \<longrightarrow> heap_at xs j) \<and>
     (\<forall>j. 0 < j \<and> j < length xs \<and> heap_parent j = i \<and> 0 < i \<longrightarrow>
        entry_key (xs ! heap_parent i) \<le> entry_key (xs ! j))"

definition above_children :: "deadline_entry list \<Rightarrow> usize \<Rightarrow> bool" where
  "above_children xs i \<longleftrightarrow> (\<forall>j. 0 < j \<and> j < length xs \<and> heap_parent j = i \<longrightarrow> heap_at xs j)"

lemma heap_parent_eq: "0 < j \<Longrightarrow> heap_parent j = i \<longleftrightarrow> j = heap_left i \<or> j = heap_left i + 1"
  by (auto simp: heap_parent_def heap_left_def)

lemma heap_left_parent_le: "0 < j \<Longrightarrow> heap_left (heap_parent j) \<le> j"
  by (simp add: heap_parent_def heap_left_def)

lemma is_heap_iff:
  "is_heap xs \<longleftrightarrow> heap_around xs i \<and> above_children xs i \<and> (0 < i \<and> i < length xs \<longrightarrow> heap_at xs i)"
proof
  assume h: "is_heap xs"
  have "entry_key (xs ! heap_parent i) \<le> entry_key (xs ! j)"
    if "0 < j" "j < length xs" "heap_parent j = i" "0 < i" for j
  proof -
    have "heap_at xs j" "heap_at xs i" using h that heap_parent_less [of j] by (auto simp: is_heap_def)
    with that show ?thesis by (auto simp: heap_at_def)
  qed
  with h show "heap_around xs i \<and> above_children xs i \<and> (0 < i \<and> i < length xs \<longrightarrow> heap_at xs i)"
    by (auto simp: is_heap_def heap_around_def above_children_def)
next
  assume "heap_around xs i \<and> above_children xs i \<and> (0 < i \<and> i < length xs \<longrightarrow> heap_at xs i)"
  then show "is_heap xs"
    unfolding is_heap_def heap_around_def above_children_def by blast
qed

text \<open>The root of a heap is a least entry.\<close>

lemma is_heap_root: "is_heap xs \<Longrightarrow> j < length xs \<Longrightarrow> entry_key (xs ! 0) \<le> entry_key (xs ! j)"
proof (induction j rule: less_induct)
  case (less j)
  show ?case
  proof (cases "j = 0")
    case False
    then have "heap_parent j < j" by simp
    with less have "entry_key (xs ! 0) \<le> entry_key (xs ! heap_parent j)" by simp
    also have "\<dots> \<le> entry_key (xs ! j)" using less.prems False by (auto simp: is_heap_def heap_at_def)
    finally show ?thesis .
  qed simp
qed

lemma mset_swap2:
  "i < length xs \<Longrightarrow> j < length xs \<Longrightarrow> mset (xs[i := xs ! j, j := xs ! i]) = mset xs"
  by (rule mset_swap)

declare sift_up.simps [simp del] sift_down.simps [simp del]

lemma heap_up_step:
  assumes i: "i < length xs" "0 < i" and around: "heap_around xs i"
    and lt: "entry_key (xs ! i) < entry_key (xs ! heap_parent i)"
  defines "p \<equiv> heap_parent i"
  defines "ys \<equiv> xs[i := xs ! p, p := xs ! i]"
  shows "heap_around ys p" "above_children ys p"
proof -
  have p: "p < i" "p < length xs" using i by (simp_all add: p_def)
  have ys: "ys ! j = (if j = i then xs ! p else if j = p then xs ! i else xs ! j)" if "j < length xs" for j
    using that p by (auto simp: ys_def nth_list_update)
  have len [simp]: "length ys = length xs" by (simp add: ys_def)
  have at: "entry_key (xs ! heap_parent j) \<le> entry_key (xs ! j)"
    if "0 < j" "j < length xs" "j \<noteq> i" "heap_parent j \<noteq> i" for j
    using around that by (auto simp: heap_around_def heap_at_def)
  have across: "entry_key (xs ! p) \<le> entry_key (xs ! j)" if "0 < j" "j < length xs" "heap_parent j = i" for j
    using around that i by (auto simp: heap_around_def p_def)
  have child: "entry_key (xs ! p) \<le> entry_key (ys ! j)" if "0 < j" "j < length xs" "heap_parent j = p" for j
    using that at [of j] p ys [of j] heap_parent_less [of j] by (auto simp: p_def)
  have "entry_key (ys ! heap_parent p) \<le> entry_key (ys ! j)"
    if "0 < j" "j < length xs" "heap_parent j = p" "0 < p" for j
  proof -
    have "heap_parent p < p" using that by simp
    then have "entry_key (ys ! heap_parent p) \<le> entry_key (xs ! p)"
      using at [of p] p that ys [of "heap_parent p"] by auto
    also note child [OF that(1-3)]
    finally show ?thesis .
  qed
  moreover have "heap_at ys j" if "0 < j" "j < length xs" "j \<noteq> p" "heap_parent j \<noteq> p" for j
    using that at [of j] across [of j] ys [of j] ys [of "heap_parent j"]
    by (auto simp: heap_at_def p_def)
  ultimately show "heap_around ys p" by (simp add: heap_around_def)
  show "above_children ys p"
    unfolding above_children_def heap_at_def
  proof (intro allI impI)
    fix j assume j: "0 < j \<and> j < length ys \<and> heap_parent j = p"
    have "entry_key (ys ! p) < entry_key (xs ! p)" using lt ys [OF p(2)] p by (simp add: p_def)
    also have "\<dots> \<le> entry_key (ys ! j)" using child j by simp
    finally show "entry_key (ys ! heap_parent j) \<le> entry_key (ys ! j)" using j by simp
  qed
qed

lemma heap_down_step:
  assumes b: "b < length xs" "0 < b" "heap_parent b = i" and around: "heap_around xs i"
    and lt: "entry_key (xs ! b) < entry_key (xs ! i)"
    and best: "\<And>j. 0 < j \<Longrightarrow> j < length xs \<Longrightarrow> heap_parent j = i \<Longrightarrow> entry_key (xs ! b) \<le> entry_key (xs ! j)"
  defines "ys \<equiv> xs[i := xs ! b, b := xs ! i]"
  shows "heap_around ys b" "heap_at ys b"
proof -
  have i: "i < b" "i < length xs" using b heap_parent_less [of b] by auto
  have ys: "ys ! j = (if j = b then xs ! i else if j = i then xs ! b else xs ! j)" if "j < length xs" for j
    using that i b by (auto simp: ys_def nth_list_update)
  have len [simp]: "length ys = length xs" by (simp add: ys_def)
  have at: "entry_key (xs ! heap_parent j) \<le> entry_key (xs ! j)"
    if "0 < j" "j < length xs" "j \<noteq> i" "heap_parent j \<noteq> i" for j
    using around that by (auto simp: heap_around_def heap_at_def)
  have across: "entry_key (xs ! heap_parent i) \<le> entry_key (xs ! b)" if "0 < i"
    using around that b by (auto simp: heap_around_def)
  have "heap_at ys j" if j: "0 < j" "j < length xs" "j \<noteq> b" "heap_parent j \<noteq> b" for j
  proof -
    consider "j = i" | "j \<noteq> i" "heap_parent j = i" | "j \<noteq> i" "heap_parent j \<noteq> i" by blast
    then show ?thesis
      using j at [of j] across best [of j] ys [of j] ys [of "heap_parent j"] heap_parent_less [of j]
      by cases (auto simp: heap_at_def)
  qed
  moreover have "entry_key (ys ! heap_parent b) \<le> entry_key (ys ! j)"
    if j: "0 < j" "j < length xs" "heap_parent j = b" for j
  proof -
    have "j \<noteq> i" "j \<noteq> b" using heap_parent_less [of j] i j by auto
    then show ?thesis using at [of j] ys [of j] ys [of i] b i j by auto
  qed
  ultimately show "heap_around ys b" by (simp add: heap_around_def)
  show "heap_at ys b" using lt b i ys [of i] ys [of b] by (simp add: heap_at_def)
qed

lemma sift_up_heap:
  assumes "i < length xs" "heap_around xs i" "above_children xs i"
  shows "\<exists>ys. sift_up xs i = Some ys \<and> mset ys = mset xs \<and> is_heap ys"
  using assms
proof (induction xs i rule: sift_up.induct)
  case (1 xs i)
  show ?case
  proof (cases "0 < i \<and> entry_key (xs ! i) < entry_key (xs ! heap_parent i)")
    case True
    let ?p = "heap_parent i" let ?ys = "xs[i := xs ! ?p, ?p := xs ! i]"
    have "heap_around ?ys ?p" "above_children ?ys ?p"
      using heap_up_step True "1.prems" by auto
    moreover have "entry_less xs i ?p = Some True" "vec_swap xs i ?p = Some ?ys"
      using True "1.prems"(1) by auto
    ultimately have "\<exists>ys. sift_up ?ys ?p = Some ys \<and> mset ys = mset ?ys \<and> is_heap ys"
      using "1.IH" [of ?p True ?ys] True "1.prems"(1) by simp
    moreover have "sift_up xs i = sift_up ?ys ?p"
      using True "1.prems"(1) by (subst sift_up.simps) (simp add: Let_def)
    ultimately show ?thesis using True "1.prems"(1) mset_swap2 [of i xs ?p] by simp
  next
    case False
    then have "sift_up xs i = Some xs" using "1.prems"(1) by (subst sift_up.simps) (auto simp: Let_def)
    moreover have "is_heap xs" using False "1.prems" is_heap_iff [of xs i] by (auto simp: heap_at_def)
    ultimately show ?thesis by simp
  qed
qed

lemma sift_down_heap:
  assumes "i < length xs" "heap_around xs i" "0 < i \<Longrightarrow> heap_at xs i"
  shows "\<exists>ys. sift_down xs i = Some ys \<and> mset ys = mset xs \<and> is_heap ys"
  using assms
proof (induction xs i rule: sift_down.induct)
  case (1 xs i)
  let ?l = "heap_left i"
  define lt where "lt \<longleftrightarrow> ?l + 1 < length xs \<and> entry_key (xs ! (?l + 1)) < entry_key (xs ! ?l)"
  define b where "b = (if lt then ?l + 1 else ?l)"
  show ?case
  proof (cases "?l < length xs")
    case False
    then have "sift_down xs i = Some xs" by (subst sift_down.simps) simp
    moreover have "above_children xs i" using False heap_left_parent_le le_less_trans
      unfolding above_children_def by blast
    then have "is_heap xs" using "1.prems" is_heap_iff [of xs i] by auto
    ultimately show ?thesis by simp
  next
    case True
    have b: "b < length xs" "0 < b" "heap_parent b = i"
      using True heap_parent_eq [of b i] by (auto simp: b_def lt_def heap_left_def)
    have best: "entry_key (xs ! b) \<le> entry_key (xs ! j)"
      if "0 < j" "j < length xs" "heap_parent j = i" for j
      using that heap_parent_eq [of j i] by (auto simp: b_def lt_def)
    have unf: "sift_down xs i =
      (if entry_key (xs ! b) < entry_key (xs ! i) then sift_down (xs[i := xs ! b, b := xs ! i]) b else Some xs)"
      using True "1.prems"(1) b(1) by (subst sift_down.simps) (auto simp: b_def lt_def Let_def)
    show ?thesis
    proof (cases "entry_key (xs ! b) < entry_key (xs ! i)")
      case lt': True
      let ?ys = "xs[i := xs ! b, b := xs ! i]"
      note step = heap_down_step [OF b "1.prems"(2) lt' best]
      have sel: "(if ?l + 1 < length xs then entry_less xs (?l + 1) ?l else Some False) = Some lt"
        using True by (simp add: lt_def)
      have lt1: "entry_less xs b i = Some True" and sw: "vec_swap xs i b = Some ?ys" and nn: "\<not> \<not> True"
        and len: "b < length ?ys" and long: "\<not> length xs \<le> ?l"
        using b(1) "1.prems"(1) lt' True by simp_all
      have "\<exists>ys. sift_down ?ys b = Some ys \<and> mset ys = mset ?ys \<and> is_heap ys"
        by (rule "1.IH" [OF refl long refl sel b_def lt1 nn sw len step])
      then show ?thesis using lt' unf b(1) "1.prems"(1) mset_swap2 [of i xs b] by simp
    next
      case False
      then have "above_children xs i"
        using best order_trans [of "entry_key (xs ! i)" "entry_key (xs ! b)"]
        unfolding above_children_def heap_at_def by (metis linorder_not_less)
      then have "is_heap xs" using "1.prems"(2,3) is_heap_iff [of xs i] by blast
      with False unf show ?thesis by simp
    qed
  qed
qed

section \<open>Operations on a heap\<close>

lemma heap_around_update:
  assumes "is_heap xs" "i < length xs"
  shows "heap_around (xs[i := x]) i"
  unfolding heap_around_def
proof (intro conjI allI impI)
  fix j assume j: "0 < j \<and> j < length (xs[i := x]) \<and> j \<noteq> i \<and> heap_parent j \<noteq> i"
  then have "heap_at xs j" using assms by (simp add: is_heap_def)
  with j show "heap_at (xs[i := x]) j" by (simp add: heap_at_def)
next
  fix j assume j: "0 < j \<and> j < length (xs[i := x]) \<and> heap_parent j = i \<and> 0 < i"
  then have "heap_at xs j" "heap_at xs i" "j \<noteq> i" using assms by (auto simp: is_heap_def)
  then show "entry_key (xs[i := x] ! heap_parent i) \<le> entry_key (xs[i := x] ! j)"
    using j by (auto simp: heap_at_def)
qed

lemma above_children_update:
  assumes "is_heap xs" "i < length xs" "entry_key x \<le> entry_key (xs ! i)"
  shows "above_children (xs[i := x]) i"
  unfolding above_children_def heap_at_def
proof (intro allI impI)
  fix j assume j: "0 < j \<and> j < length (xs[i := x]) \<and> heap_parent j = i"
  then have "heap_at xs j" "j \<noteq> i" using assms by (auto simp: is_heap_def)
  then show "entry_key (xs[i := x] ! heap_parent j) \<le> entry_key (xs[i := x] ! j)"
    using j assms by (auto simp: heap_at_def)
qed

lemma is_heap_butlast: "is_heap xs \<Longrightarrow> is_heap (butlast xs)"
  unfolding is_heap_def heap_at_def
proof (intro allI impI)
  fix j assume h: "\<forall>j. 0 < j \<and> j < length xs \<longrightarrow> entry_key (xs ! heap_parent j) \<le> entry_key (xs ! j)"
    and j: "0 < j \<and> j < length (butlast xs)"
  then have "heap_parent j < length (butlast xs)" "j < length xs"
    by (simp, unfold length_butlast, linarith)
  then show "entry_key (butlast xs ! heap_parent j) \<le> entry_key (butlast xs ! j)"
    using h j by (simp add: nth_butlast)
qed

lemma sift_replaced:
  assumes "is_heap xs" "i < length xs"
  shows "entry_key x \<le> entry_key (xs ! i) \<Longrightarrow>
      \<exists>ys. sift_up (xs[i := x]) i = Some ys \<and> mset ys = mset (xs[i := x]) \<and> is_heap ys"
    and "(0 < i \<Longrightarrow> entry_key (xs ! heap_parent i) \<le> entry_key x) \<Longrightarrow>
      \<exists>ys. sift_down (xs[i := x]) i = Some ys \<and> mset ys = mset (xs[i := x]) \<and> is_heap ys"
proof -
  show "\<exists>ys. sift_up (xs[i := x]) i = Some ys \<and> mset ys = mset (xs[i := x]) \<and> is_heap ys"
    if "entry_key x \<le> entry_key (xs ! i)"
    by (rule sift_up_heap) (use assms that heap_around_update above_children_update in auto)
  show "\<exists>ys. sift_down (xs[i := x]) i = Some ys \<and> mset ys = mset (xs[i := x]) \<and> is_heap ys"
    if "0 < i \<Longrightarrow> entry_key (xs ! heap_parent i) \<le> entry_key x"
    by (rule sift_down_heap) (use assms that heap_around_update in \<open>auto simp: heap_at_def\<close>)
qed

lemma sift_appended:
  assumes "is_heap xs"
  shows "\<exists>ys. sift_up (xs @ [x]) (length xs) = Some ys \<and> mset ys = mset (xs @ [x]) \<and> is_heap ys"
proof (rule sift_up_heap)
  have no_child: "heap_parent j \<noteq> length xs" if "0 < j" "j < Suc (length xs)" for j
    using heap_parent_less [OF that(1)] that(2) by linarith
  have "heap_at (xs @ [x]) j" if "0 < j" "j < length xs" for j
  proof -
    have "heap_parent j < length xs" using that by simp
    with assms that show ?thesis by (simp add: is_heap_def heap_at_def nth_append)
  qed
  then show "heap_around (xs @ [x]) (length xs)" using no_child by (auto simp: heap_around_def)
  show "above_children (xs @ [x]) (length xs)" using no_child by (auto simp: above_children_def)
qed simp

lemma remove_at_heap:
  assumes h: "is_heap xs" and i: "i < length xs"
  shows "\<exists>ys. remove_at i xs = Some (xs ! i, ys) \<and> is_heap ys \<and> mset xs = add_mset (xs ! i) (mset ys)"
proof -
  define n where "n = length xs - 1"
  define ws where "ws = (butlast xs)[i := last xs]"
  have len: "length xs = Suc n" "xs \<noteq> []" using i by (auto simp: n_def)
  have last: "xs ! n = last xs" using len by (simp add: n_def last_conv_nth)
  have swapped: "xs[i := last xs, n := xs ! i] = ws @ [xs ! i]"
  proof (rule nth_equalityI)
    fix j assume "j < length (xs[i := last xs, n := xs ! i])"
    then show "xs[i := last xs, n := xs ! i] ! j = (ws @ [xs ! i]) ! j"
      using len i last by (cases "j = n") (auto simp: ws_def nth_append nth_list_update nth_butlast)
  qed (use len in \<open>simp add: ws_def\<close>)
  have "mset (xs[i := xs ! n, n := xs ! i]) = mset xs" using mset_swap2 [of i xs n] i len by simp
  then have m: "mset xs = add_mset (xs ! i) (mset ws)" using swapped last by simp
  have sw: "vec_swap xs i n = Some (ws @ [xs ! i])"
    using swapped last i len by simp
  show ?thesis
  proof (cases "i < n")
    case False
    then have "ws = butlast xs" using len by (simp add: ws_def list_update_beyond)
    moreover have "remove_at i xs = Some (xs ! i, ws)"
      using False len sw by (simp add: remove_at_def ws_def)
    ultimately show ?thesis using m is_heap_butlast [OF h] by simp
  next
    case True
    have hb: "is_heap (butlast xs)" "i < length (butlast xs)" using is_heap_butlast h True len by auto
    define up where "up \<longleftrightarrow> 0 < i \<and> entry_key (ws ! i) < entry_key (ws ! heap_parent i)"
    have ws: "ws ! i = last xs" "0 < i \<Longrightarrow> ws ! heap_parent i = butlast xs ! heap_parent i"
      "length ws = n" using True len by (simp_all add: ws_def)
    have red: "remove_at i xs = do {
        ys \<leftarrow> (if up then sift_up ws i else sift_down ws i);
        Some (xs ! i, ys) }"
      using True len ws(3) by (auto simp: remove_at_def sw up_def)
    have "\<exists>ys. (if up then sift_up ws i else sift_down ws i) = Some ys \<and> mset ys = mset ws \<and> is_heap ys"
    proof (cases up)
      case True
      have "entry_key (butlast xs ! heap_parent i) \<le> entry_key (butlast xs ! i)"
        using hb True by (simp add: is_heap_def heap_at_def up_def)
      moreover have "entry_key (last xs) < entry_key (butlast xs ! heap_parent i)"
        using True ws by (simp add: up_def)
      ultimately have "entry_key (last xs) \<le> entry_key (butlast xs ! i)" by order
      then show ?thesis using sift_replaced(1) [OF hb] True by (simp add: ws_def)
    next
      case False
      then have "0 < i \<Longrightarrow> entry_key (butlast xs ! heap_parent i) \<le> entry_key (last xs)"
        using ws by (simp add: up_def not_less)
      from sift_replaced(2) [OF hb this] False show ?thesis by (simp add: ws_def)
    qed
    then show ?thesis using red m by auto
  qed
qed


section \<open>The queue as a finite map\<close>

text \<open>
  The queue invariant: heap order, one entry per event, and the reserved capacity.
  The abstraction forgets the order of the entries: it maps a pending event to its deadline.
\<close>

definition dq_inv :: "deadline_queue \<Rightarrow> bool" where
  "dq_inv q \<longleftrightarrow> is_heap (entries q) \<and> distinct (map event (entries q)) \<and>
     length (entries q) \<le> queue_capacity q"

definition dq_abs :: "deadline_queue \<Rightarrow> timed_event \<Rightarrow> u64 option" where
  "dq_abs q = map_of (map (\<lambda>e. (event e, deadline e)) (entries q))"

lemma dq_abs_iff:
  assumes "distinct (map event (entries q))"
  shows "dq_abs q ev = Some d \<longleftrightarrow> \<lparr>deadline = d, event = ev\<rparr> \<in> set (entries q)"
proof -
  have "distinct (map fst (map (\<lambda>e. (event e, deadline e)) (entries q)))"
    using assms by (simp add: comp_def)
  then have "dq_abs q ev = Some d \<longleftrightarrow> (ev, d) \<in> set (map (\<lambda>e. (event e, deadline e)) (entries q))"
    by (simp only: dq_abs_def map_of_eq_Some_iff)
  also have "\<dots> \<longleftrightarrow> (\<exists>e\<in>set (entries q). event e = ev \<and> deadline e = d)" by auto
  also have "\<dots> \<longleftrightarrow> \<lparr>deadline = d, event = ev\<rparr> \<in> set (entries q)"
  proof
    assume "\<exists>e\<in>set (entries q). event e = ev \<and> deadline e = d"
    then obtain e where "e \<in> set (entries q)" "event e = ev" "deadline e = d" by blast
    moreover from this have "e = \<lparr>deadline = d, event = ev\<rparr>" by simp
    ultimately show "\<lparr>deadline = d, event = ev\<rparr> \<in> set (entries q)" by simp
  qed force
  finally show ?thesis .
qed

lemma dq_abs_eqI:
  assumes "distinct (map event (entries q))"
    and "\<And>ev d. \<lparr>deadline = d, event = ev\<rparr> \<in> set (entries q) \<longleftrightarrow> m ev = Some d"
  shows "dq_abs q = m"
proof (rule ext)
  fix ev show "dq_abs q ev = m ev"
    using dq_abs_iff [OF assms(1), of ev] assms(2) by (metis option.exhaust)
qed

lemma dom_dq_abs: "dom (dq_abs q) = event ` set (entries q)"
  by (simp add: dq_abs_def dom_map_of_conv_image_fst image_image)

lemma card_dq_abs: "distinct (map event (entries q)) \<Longrightarrow> card (dom (dq_abs q)) = length (entries q)"
  using distinct_card [of "map event (entries q)"] by (simp add: dom_dq_abs)

lemma find_event_index_Some:
  "find_event_index ev xs = Some i \<Longrightarrow> i < length xs \<and> event (xs ! i) = ev"
  using nth_length_takeWhile [of "\<lambda>e. event e \<noteq> ev" xs]
  by (auto simp: find_event_index_def Let_def split: if_splits)

lemma find_event_index_None: "find_event_index ev xs = None \<longleftrightarrow> ev \<notin> event ` set xs"
proof -
  have "length (takeWhile (\<lambda>e. event e \<noteq> ev) xs) < length xs \<longleftrightarrow> (\<exists>e\<in>set xs. event e = ev)"
    by (induction xs) auto
  then show ?thesis by (auto simp: find_event_index_def Let_def)
qed

lemma find_event_index_abs:
  "find_event_index ev (entries q) = None \<longleftrightarrow> dq_abs q ev = None"
  by (metis domIff dom_dq_abs find_event_index_None)

text \<open>What a permutation of the entries preserves, and what removing one entry leaves.\<close>

lemma dq_abs_mset:
  assumes "mset (entries q') = mset (entries q)" "distinct (map event (entries q))"
  shows "distinct (map event (entries q'))" "dq_abs q' = dq_abs q"
proof -
  have "mset (map event (entries q')) = mset (map event (entries q))" using assms(1) by simp
  then show d: "distinct (map event (entries q'))" using assms(2) mset_eq_imp_distinct_iff by blast
  show "dq_abs q' = dq_abs q"
    by (rule dq_abs_eqI [OF d]) (use assms mset_eq_setD [OF assms(1)] in \<open>simp add: dq_abs_iff\<close>)
qed

lemma dq_abs_remove:
  assumes "mset (entries q) = add_mset x (mset (entries q'))" "distinct (map event (entries q))"
  shows "distinct (map event (entries q'))" "dq_abs q' = (dq_abs q)(event x := None)"
    "length (entries q) = Suc (length (entries q'))"
proof -
  have m: "mset (x # entries q') = mset (entries q)" using assms(1) by simp
  then have "mset (map event (x # entries q')) = mset (map event (entries q))" by (metis mset_map)
  then have d: "distinct (map event (x # entries q'))" using assms(2) mset_eq_imp_distinct_iff by blast
  then show d': "distinct (map event (entries q'))" by simp
  have s: "set (entries q) = insert x (set (entries q'))" using mset_eq_setD [OF m] by simp
  show "dq_abs q' = (dq_abs q)(event x := None)"
  proof (rule dq_abs_eqI [OF d'])
    fix ev t
    show "\<lparr>deadline = t, event = ev\<rparr> \<in> set (entries q') \<longleftrightarrow> ((dq_abs q)(event x := None)) ev = Some t"
      using d s dq_abs_iff [OF assms(2), of ev t] by (auto simp: image_iff)
  qed
  show "length (entries q) = Suc (length (entries q'))" using mset_eq_length [OF m] by simp
qed

section \<open>What the operations do to the map\<close>

lemma dq_abs_reschedule:
  fixes d :: u64
  assumes "distinct (map event (entries q))" "i < length (entries q)" "event (entries q ! i) = ev"
  defines "q' \<equiv> q\<lparr>entries := (entries q)[i := (entries q ! i)\<lparr>deadline := d\<rparr>]\<rparr>"
  shows "distinct (map event (entries q'))" "dq_abs q' = (dq_abs q)(ev \<mapsto> d)"
proof -
  let ?x = "(entries q ! i)\<lparr>deadline := d\<rparr>"
  have ev: "map event (entries q') = map event (entries q)"
    using assms(2) list_update_id [of "map event (entries q)" i] by (simp add: q'_def map_update)
  then show d': "distinct (map event (entries q'))" using assms(1) by simp
  show "dq_abs q' = (dq_abs q)(ev \<mapsto> d)"
  proof (rule dq_abs_eqI [OF d'])
    fix ev' t
    let ?e = "\<lparr>deadline = t, event = ev'\<rparr>"
    have "?e \<in> set (entries q') \<longleftrightarrow> (if ev' = ev then t = d else ?e \<in> set (entries q))"
    proof -
      have inj: "j = i" if "j < length (entries q)" "event (entries q ! j) = ev" for j
        using that assms by (metis distinct_map length_map nth_eq_iff_index_eq nth_map)
      have nth: "entries q' ! j = (if j = i then ?x else entries q ! j)" if "j < length (entries q)" for j
        using that by (simp add: q'_def nth_list_update)
      have len: "length (entries q') = length (entries q)" by (simp add: q'_def)
      have "?x = \<lparr>deadline = d, event = ev\<rparr>" using assms(3) by (cases "entries q ! i") simp
      then have x: "?x = ?e \<longleftrightarrow> ev' = ev \<and> t = d" by auto
      show ?thesis
        unfolding in_set_conv_nth len
        using inj nth x assms(2,3) by (metis deadline_entry.select_convs(2))
    qed
    then show "?e \<in> set (entries q') \<longleftrightarrow> ((dq_abs q)(ev \<mapsto> d)) ev' = Some t"
      using dq_abs_iff [OF assms(1), of ev' t] by auto
  qed
qed

lemma dq_schedule_present:
  assumes inv: "dq_inv q" and "dq_abs q ev \<noteq> None"
  shows "\<exists>q'. dq_schedule d ev q = Some q' \<and> dq_inv q' \<and> dq_abs q' = (dq_abs q)(ev \<mapsto> d) \<and>
    queue_capacity q' = queue_capacity q"
proof -
  obtain i where i: "find_event_index ev (entries q) = Some i"
    using assms(2) find_event_index_abs by fastforce
  let ?x = "(entries q ! i)\<lparr>deadline := d\<rparr>"
  let ?xs = "(entries q)[i := ?x]"
  note fi = find_event_index_Some [OF i]
  have h: "is_heap (entries q)" and dist: "distinct (map event (entries q))"
    and len: "length (entries q) \<le> queue_capacity q"
    using inv by (auto simp: dq_inv_def)
  define f where "f = (if d < deadline (entries q ! i) then sift_up ?xs i
                 else if deadline (entries q ! i) < d then sift_down ?xs i else Some ?xs)"
  have "\<exists>ys. f = Some ys \<and> mset ys = mset ?xs \<and> is_heap ys"
  proof (cases d "deadline (entries q ! i)" rule: linorder_cases)
    case less
    then have "entry_key ?x \<le> entry_key (entries q ! i)" by (simp add: entry_key_def)
    with sift_replaced(1) [OF h] fi less show ?thesis by (simp add: f_def)
  next
    case equal
    then have "?x = entries q ! i" by simp
    then show ?thesis using equal h by (simp add: f_def)
  next
    case greater
    have "entry_key (entries q ! heap_parent i) \<le> entry_key ?x" if "0 < i"
    proof -
      have "entry_key (entries q ! heap_parent i) \<le> entry_key (entries q ! i)"
        using h fi that by (simp add: is_heap_def heap_at_def)
      also have "\<dots> \<le> entry_key ?x" using greater by (simp add: entry_key_def)
      finally show ?thesis .
    qed
    with sift_replaced(2) [OF h, of i ?x] fi greater show ?thesis by (auto simp: f_def)
  qed
  then obtain ys where ys: "f = Some ys" "mset ys = mset ?xs" "is_heap ys" by blast
  have "dq_schedule d ev q = Some (q\<lparr>entries := ys\<rparr>)"
    using i fi ys(1) by (simp add: dq_schedule_def f_def)
  moreover have "length ys = length (entries q)" using mset_eq_length [OF ys(2)] by simp
  moreover have "distinct (map event ys)" "dq_abs (q\<lparr>entries := ys\<rparr>) = (dq_abs q)(ev \<mapsto> d)"
    using dq_abs_mset [of "q\<lparr>entries := ys\<rparr>" "q\<lparr>entries := ?xs\<rparr>"] ys(2)
      dq_abs_reschedule [OF dist, of i ev d] fi by simp_all
  ultimately show ?thesis using ys(3) len by (simp add: dq_inv_def)
qed

lemma dq_schedule_absent:
  assumes inv: "dq_inv q" and absent: "dq_abs q ev = None" and room: "length (entries q) < queue_capacity q"
  shows "\<exists>q'. dq_schedule d ev q = Some q' \<and> dq_inv q' \<and> dq_abs q' = (dq_abs q)(ev \<mapsto> d) \<and>
    queue_capacity q' = queue_capacity q"
proof -
  let ?x = "\<lparr>deadline = d, event = ev\<rparr>"
  have h: "is_heap (entries q)" and dist: "distinct (map event (entries q))" using inv by (auto simp: dq_inv_def)
  obtain ys where ys: "sift_up (entries q @ [?x]) (length (entries q)) = Some ys"
    "mset ys = mset (entries q @ [?x])" "is_heap ys" using sift_appended [OF h] by blast
  let ?q' = "q\<lparr>entries := ys\<rparr>"
  have i: "find_event_index ev (entries q) = None" using absent find_event_index_abs by blast
  have ev: "ev \<notin> event ` set (entries q)" using absent dom_dq_abs by blast
  have d0: "distinct (map event (entries (q\<lparr>entries := entries q @ [?x]\<rparr>)))" using dist ev by simp
  have "dq_abs (q\<lparr>entries := entries q @ [?x]\<rparr>) = (dq_abs q)(ev \<mapsto> d)"
    by (rule dq_abs_eqI [OF d0]) (use ev dist in \<open>auto simp: dq_abs_iff image_iff\<close>)
  then have "distinct (map event ys)" "dq_abs ?q' = (dq_abs q)(ev \<mapsto> d)"
    using dq_abs_mset [of ?q' "q\<lparr>entries := entries q @ [?x]\<rparr>"] ys(2) d0 by simp_all
  moreover have "dq_schedule d ev q = Some ?q'" using i room ys(1) by (simp add: dq_schedule_def)
  moreover have "length ys \<le> queue_capacity q" using mset_eq_length [OF ys(2)] room by simp
  ultimately show ?thesis using ys(3) by (simp add: dq_inv_def)
qed

lemma dq_schedule_full:
  assumes "dq_abs q ev = None" "length (entries q) = queue_capacity q"
  shows "dq_schedule d ev q = None"
  using assms find_event_index_abs [of ev q] by (simp add: dq_schedule_def)

lemma dq_remove:
  assumes inv: "dq_inv q" and i: "i < length (entries q)"
  shows "\<exists>xs. remove_at i (entries q) = Some (entries q ! i, xs) \<and> dq_inv (q\<lparr>entries := xs\<rparr>) \<and>
    dq_abs (q\<lparr>entries := xs\<rparr>) = (dq_abs q)(event (entries q ! i) := None)"
proof -
  have h: "is_heap (entries q)" and dist: "distinct (map event (entries q))"
    and len: "length (entries q) \<le> queue_capacity q" using inv by (auto simp: dq_inv_def)
  obtain xs where "remove_at i (entries q) = Some (entries q ! i, xs)" "is_heap xs"
    and m: "mset (entries q) = add_mset (entries q ! i) (mset xs)"
    using remove_at_heap [OF h i] by blast
  moreover have "mset (entries q) = add_mset (entries q ! i) (mset (entries (q\<lparr>entries := xs\<rparr>)))"
    using m by simp
  note dq_abs_remove [OF this dist]
  ultimately show ?thesis using len by (auto simp: dq_inv_def)
qed

lemma dq_cancel_ok:
  assumes inv: "dq_inv q"
  shows "\<exists>q'. dq_cancel ev q = Some (dq_abs q ev \<noteq> None, q') \<and> dq_inv q' \<and>
    dq_abs q' = (dq_abs q)(ev := None) \<and> queue_capacity q' = queue_capacity q"
proof (cases "find_event_index ev (entries q)")
  case None
  then show ?thesis using inv find_event_index_abs [of ev q] by (auto simp: dq_cancel_def)
next
  case (Some i)
  note fi = find_event_index_Some [OF Some]
  then obtain xs where "remove_at i (entries q) = Some (entries q ! i, xs)" "dq_inv (q\<lparr>entries := xs\<rparr>)"
    "dq_abs (q\<lparr>entries := xs\<rparr>) = (dq_abs q)(ev := None)" using dq_remove [OF inv] by metis
  then show ?thesis using Some find_event_index_abs [of ev q] by (auto simp: dq_cancel_def)
qed

lemma dq_root_least:
  assumes "dq_inv q" "entries q = e # es" "dq_abs q ev = Some d"
  shows "entry_key e \<le> (d, event_sort_key ev)"
proof -
  have "\<lparr>deadline = d, event = ev\<rparr> \<in> set (entries q)" using assms dq_abs_iff by (auto simp: dq_inv_def)
  then obtain j where "j < length (entries q)" "entries q ! j = \<lparr>deadline = d, event = ev\<rparr>"
    by (auto simp: in_set_conv_nth)
  with is_heap_root [of "entries q" j] assms(1,2) show ?thesis by (simp add: dq_inv_def entry_key_def)
qed

lemma dq_root_abs: "dq_inv q \<Longrightarrow> entries q = e # es \<Longrightarrow> dq_abs q (event e) = Some (deadline e)"
  by (simp add: dq_inv_def dq_abs_iff)

lemma dq_pop_none:
  assumes "dq_inv q" "\<And>ev d. dq_abs q ev = Some d \<Longrightarrow> now < d"
  shows "dq_pop_expired now q = Some (None, q)"
proof (cases "entries q")
  case (Cons e es)
  then have "now < deadline e" using assms dq_root_abs by blast
  with Cons show ?thesis by (simp add: dq_pop_expired_def)
qed (simp add: dq_pop_expired_def)

lemma dq_pop_some:
  assumes inv: "dq_inv q" and "dq_abs q ev0 = Some d0" "d0 \<le> now"
  shows "\<exists>ev d q'. dq_pop_expired now q = Some (Some ev, q') \<and> dq_abs q ev = Some d \<and> d \<le> now \<and>
    (\<forall>ev' d'. dq_abs q ev' = Some d' \<longrightarrow> (d, event_sort_key ev) \<le> (d', event_sort_key ev')) \<and>
    dq_inv q' \<and> dq_abs q' = (dq_abs q)(ev := None) \<and> queue_capacity q' = queue_capacity q"
proof -
  from assms(2) obtain e es where e: "entries q = e # es"
    by (cases "entries q") (auto simp: dq_abs_def)
  from dq_root_least [OF inv e assms(2)] assms(3) have due: "deadline e \<le> now"
    by (auto simp: entry_key_def)
  obtain xs where xs: "remove_at 0 (entries q) = Some (e, xs)" "dq_inv (q\<lparr>entries := xs\<rparr>)"
    "dq_abs (q\<lparr>entries := xs\<rparr>) = (dq_abs q)(event e := None)"
    using dq_remove [OF inv, of 0] e by auto
  have "dq_pop_expired now q = Some (Some (event e), q\<lparr>entries := xs\<rparr>)"
    using xs(1) e due by (simp add: dq_pop_expired_def)
  then show ?thesis
    using xs(2,3) due dq_root_abs [OF inv e] dq_root_least [OF inv e]
    by (intro exI [of _ "event e"] exI [of _ "deadline e"] exI [of _ "q\<lparr>entries := xs\<rparr>"])
      (auto simp: entry_key_def)
qed

lemma dq_next_deadline_ok:
  assumes "dq_inv q"
  shows "dq_next_deadline q = None \<longleftrightarrow> dq_abs q = Map.empty"
    and "dq_next_deadline q = Some d \<Longrightarrow> (\<exists>ev. dq_abs q ev = Some d) \<and> (\<forall>ev d'. dq_abs q ev = Some d' \<longrightarrow> d \<le> d')"
proof -
  show "dq_next_deadline q = None \<longleftrightarrow> dq_abs q = Map.empty"
    using dq_root_abs [OF assms] by (cases "entries q") (fastforce simp: dq_next_deadline_def dq_abs_def)+
  assume "dq_next_deadline q = Some d"
  then obtain e es where e: "entries q = e # es" "deadline e = d"
    by (auto simp: dq_next_deadline_def split: list.splits)
  have "d \<le> d'" if "dq_abs q ev = Some d'" for ev d'
    using dq_root_least [OF assms e(1) that] e(2) by (auto simp: entry_key_def)
  then show "(\<exists>ev. dq_abs q ev = Some d) \<and> (\<forall>ev d'. dq_abs q ev = Some d' \<longrightarrow> d \<le> d')"
    using dq_root_abs [OF assms e(1)] e(2) by blast
qed

section \<open>The interface of a deadline store\<close>

text \<open>
  What the time subsystem relies on. A store implements a bounded finite map from events to
  deadlines: \<open>schedule\<close> is an update that panics only on a full store,
  \<open>cancel\<close> a deletion, and \<open>pop now\<close> removes a least due event.
\<close>

locale deadline_store =
  fixes inv :: "'q \<Rightarrow> bool"
    and abs :: "'q \<Rightarrow> timed_event \<Rightarrow> u64 option"
    and cap :: "'q \<Rightarrow> nat"
    and schedule :: "u64 \<Rightarrow> timed_event \<Rightarrow> 'q \<Rightarrow> 'q option"
    and cancel :: "timed_event \<Rightarrow> 'q \<Rightarrow> (bool \<times> 'q) option"
    and pending :: "timed_event \<Rightarrow> 'q \<Rightarrow> bool"
    and pop :: "u64 \<Rightarrow> 'q \<Rightarrow> (timed_event option \<times> 'q) option"
    and next_deadline :: "'q \<Rightarrow> u64 option"
  assumes finite_abs: "inv q \<Longrightarrow> finite (dom (abs q)) \<and> card (dom (abs q)) \<le> cap q"
    and schedule_ok: "inv q \<Longrightarrow> abs q ev \<noteq> None \<or> card (dom (abs q)) < cap q \<Longrightarrow>
      \<exists>q'. schedule d ev q = Some q' \<and> inv q' \<and> abs q' = (abs q)(ev \<mapsto> d) \<and> cap q' = cap q"
    and schedule_full: "inv q \<Longrightarrow> abs q ev = None \<Longrightarrow> card (dom (abs q)) = cap q \<Longrightarrow> schedule d ev q = None"
    and cancel_ok: "inv q \<Longrightarrow>
      \<exists>q'. cancel ev q = Some (abs q ev \<noteq> None, q') \<and> inv q' \<and> abs q' = (abs q)(ev := None) \<and> cap q' = cap q"
    and pending_iff: "inv q \<Longrightarrow> pending ev q \<longleftrightarrow> abs q ev \<noteq> None"
    and pop_none: "inv q \<Longrightarrow> (\<And>ev d. abs q ev = Some d \<Longrightarrow> now < d) \<Longrightarrow> pop now q = Some (None, q)"
    and pop_some: "inv q \<Longrightarrow> abs q ev0 = Some d0 \<Longrightarrow> d0 \<le> now \<Longrightarrow>
      \<exists>ev d q'. pop now q = Some (Some ev, q') \<and> abs q ev = Some d \<and> d \<le> now \<and>
        (\<forall>ev' d'. abs q ev' = Some d' \<longrightarrow> (d, event_sort_key ev) \<le> (d', event_sort_key ev')) \<and>
        inv q' \<and> abs q' = (abs q)(ev := None) \<and> cap q' = cap q"
    and next_none: "inv q \<Longrightarrow> next_deadline q = None \<longleftrightarrow> abs q = Map.empty"
    and next_least: "inv q \<Longrightarrow> next_deadline q = Some d \<Longrightarrow>
      (\<exists>ev. abs q ev = Some d) \<and> (\<forall>ev d'. abs q ev = Some d' \<longrightarrow> d \<le> d')"

text \<open>
  Draining a store: pop until nothing is due. The relation is the loop
  \<^verbatim>\<open>while let Some(event) = pop(now)\<close> with the events it produced.
\<close>

inductive drains :: "('q \<Rightarrow> ('e option \<times> 'q) option) \<Rightarrow> 'q \<Rightarrow> 'e list \<Rightarrow> 'q \<Rightarrow> bool" for pop where
  drained: "pop q = Some (None, q') \<Longrightarrow> drains pop q [] q'"
| pop_one: "pop q = Some (Some ev, q1) \<Longrightarrow> drains pop q1 evs q' \<Longrightarrow> drains pop q (ev # evs) q'"

inductive_cases drainsE: "drains pop q evs q'"

text \<open>The loop is deterministic, so whatever a run produced is that result.\<close>

lemma drains_det: "drains p q evs q' \<Longrightarrow> drains p q evs2 q2 \<Longrightarrow> evs2 = evs \<and> q2 = q'"
  by (induction arbitrary: evs2 rule: drains.induct) (auto elim: drainsE)

definition due :: "(timed_event \<Rightarrow> u64 option) \<Rightarrow> u64 \<Rightarrow> timed_event set" where
  "due m now = {ev. \<exists>d. m ev = Some d \<and> d \<le> now}"

context deadline_store
begin

text \<open>
  A drain ends, delivers every due event once, in the order of deadlines (then sort keys), and
  leaves the later events in place.
\<close>

lemma drain_due:
  assumes "inv q"
  shows "\<exists>evs q'. drains (pop now) q evs q' \<and> set evs = due (abs q) now \<and> distinct evs \<and>
    sorted (map (\<lambda>ev. (the (abs q ev), event_sort_key ev)) evs) \<and>
    inv q' \<and> abs q' = abs q |` (- due (abs q) now) \<and> cap q' = cap q"
  using assms
proof (induction "card (dom (abs q))" arbitrary: q rule: less_induct)
  case less
  show ?case
  proof (cases "due (abs q) now = {}")
    case True
    then have "now < d" if "abs q ev = Some d" for ev d
      using that by (auto simp: due_def not_le [symmetric])
    then have "pop now q = Some (None, q)" by (rule pop_none [OF less.prems])
    then have "drains (pop now) q [] q" by (rule drained)
    with True less.prems show ?thesis by (intro exI [of _ "[]"] exI [of _ q]) (simp add: restrict_map_def)
  next
    case False
    then obtain ev0 d0 where "abs q ev0 = Some d0" "d0 \<le> now" by (auto simp: due_def)
    from pop_some [OF less.prems this] obtain ev d q1 where
      pop: "pop now q = Some (Some ev, q1)" and ev: "abs q ev = Some d" "d \<le> now" and
      least: "\<And>ev' d'. abs q ev' = Some d' \<Longrightarrow> (d, event_sort_key ev) \<le> (d', event_sort_key ev')" and
      q1: "inv q1" "abs q1 = (abs q)(ev := None)" "cap q1 = cap q" by blast
    have "card (dom (abs q1)) < card (dom (abs q))"
      using q1(2) ev(1) finite_abs [OF less.prems]
      by (auto simp: dom_def intro: psubset_card_mono)
    from less.hyps [OF this q1(1)] obtain evs q' where
      rest: "drains (pop now) q1 evs q'" and
      evs: "set evs = due (abs q1) now" "distinct evs"
        "sorted (map (\<lambda>ev. (the (abs q1 ev), event_sort_key ev)) evs)" and
      q': "inv q'" "abs q' = abs q1 |` (- due (abs q1) now)" "cap q' = cap q1" by blast
    have due1: "due (abs q1) now = due (abs q) now - {ev}" by (auto simp: q1(2) due_def)
    have same: "abs q1 x = abs q x" if "x \<in> set evs" for x
      using that evs(1) due1 q1(2) by auto
    have srt: "sorted (map (\<lambda>ev. (the (abs q ev), event_sort_key ev)) (ev # evs))"
    proof -
      have "(d, event_sort_key ev) \<le> (the (abs q x), event_sort_key x)" if "x \<in> set evs" for x
      proof (rule least)
        have "x \<in> due (abs q) now" using that evs(1) due1 by blast
        then show "abs q x = Some (the (abs q x))" by (auto simp: due_def)
      qed
      moreover have "map (\<lambda>ev. (the (abs q ev), event_sort_key ev)) evs =
          map (\<lambda>ev. (the (abs q1 ev), event_sort_key ev)) evs"
        using same by simp
      then have "sorted (map (\<lambda>ev. (the (abs q ev), event_sort_key ev)) evs)" using evs(3) by metis
      ultimately show ?thesis using ev(1) by (simp del: less_eq_prod_simp)
    qed
    have "abs q' = abs q |` (- due (abs q) now)"
      using q'(2) q1(2) ev by (auto simp: due1 restrict_map_def due_def fun_eq_iff)
    moreover have "set (ev # evs) = due (abs q) now" using evs(1) due1 ev by (auto simp: due_def)
    moreover have "distinct (ev # evs)" using evs(1,2) due1 by simp
    ultimately show ?thesis
      using pop_one [of "pop now", OF pop rest] srt q'(1,3) q1(3)
      by (intro exI [of _ "ev # evs"] exI [of _ q'] conjI) simp_all
  qed
qed

lemma next_after_drain:
  assumes "inv q" "abs q = m |` (- due m now)" "next_deadline q = Some d"
  shows "now < d"
  using next_least [OF assms(1,3)] assms(2) by (auto simp: restrict_map_def due_def split: if_splits)

end

lemma dq_finite: "dq_inv q \<Longrightarrow> finite (dom (dq_abs q)) \<and> card (dom (dq_abs q)) \<le> queue_capacity q"
  by (simp add: dq_inv_def card_dq_abs) (simp add: dom_dq_abs)

lemma dq_schedule_ok:
  assumes inv: "dq_inv q" and "dq_abs q ev \<noteq> None \<or> card (dom (dq_abs q)) < queue_capacity q"
  shows "\<exists>q'. dq_schedule d ev q = Some q' \<and> dq_inv q' \<and> dq_abs q' = (dq_abs q)(ev \<mapsto> d) \<and>
      queue_capacity q' = queue_capacity q"
proof (cases "dq_abs q ev = None")
  case True
  then have "length (entries q) < queue_capacity q" using assms card_dq_abs [of q] by (auto simp: dq_inv_def)
  with dq_schedule_absent [OF inv True] show ?thesis .
qed (rule dq_schedule_present [OF inv])

lemma dq_schedule_no_room:
  "dq_inv q \<Longrightarrow> dq_abs q ev = None \<Longrightarrow> card (dom (dq_abs q)) = queue_capacity q \<Longrightarrow> dq_schedule d ev q = None"
  using dq_schedule_full card_dq_abs by (auto simp: dq_inv_def)

lemma dq_pending_iff: "dq_inv q \<Longrightarrow> dq_event_pending ev q \<longleftrightarrow> dq_abs q ev \<noteq> None"
  using find_event_index_abs [of ev q] by (auto simp: dq_event_pending_def)

interpretation dq: deadline_store dq_inv dq_abs queue_capacity dq_schedule dq_cancel dq_event_pending
  dq_pop_expired dq_next_deadline
  by unfold_locales
    (fact dq_finite dq_schedule_ok dq_schedule_no_room dq_cancel_ok dq_pending_iff dq_pop_none
      dq_pop_some dq_next_deadline_ok)+

section \<open>The queue implements the map\<close>

lemma dq_inv_initial [simp]: "dq_inv (dq_with_capacity n)" "dq_abs (dq_with_capacity n) = Map.empty"
  "queue_capacity (dq_with_capacity n) = n"
  by (simp_all add: dq_with_capacity_def dq_inv_def is_heap_def dq_abs_def)



end
