(* ===== verification/Timebase.thy ===== *)
theory Timebase
  imports Kernel_Prelude
begin

text \<open>
  Conversions between the architecture counter and civil time
  (\<^verbatim>\<open>kernel/src/time.rs\<close>, the functions from \<open>counter_to_monotonic_time\<close> to
  \<open>ms_to_counts\<close> and their helpers): they round so that a deadline never expires before
  the requested time, they report exactly the values that do not fit, and the two directions
  are inverse to each other on counters of at most one gigahertz.
\<close>

section \<open>Definitions\<close>

text \<open>
  The counter frequency is read from the architecture layer and is an argument here.
  \<open>u128\<close> values are natural numbers: every \<open>u128\<close> product below has factors under
  \<open>2 ^ 64\<close>, and the saturation of \<open>saturating_mul\<close> is written out.
\<close>

record monotonic_time =
  seconds :: u64
  nanoseconds :: u32

datatype time_conversion_error = InvalidFrequency | ConversionOverflow

definition div_ceil :: "nat \<Rightarrow> nat \<Rightarrow> nat" where
  "div_ceil numerator denominator =
     (if numerator mod denominator = 0 then numerator div denominator else numerator div denominator + 1)"

definition u64_max_nat :: nat where
  "u64_max_nat = 2 ^ 64 - 1"

definition u128_max_nat :: nat where
  "u128_max_nat = 2 ^ 128 - 1"

definition scale_to_counts :: "u64 \<Rightarrow> u64 \<Rightarrow> u64 \<Rightarrow> u64" where
  "scale_to_counts counter_freq_hz units denom_per_second =
     (if units = 0 then 0
      else
        let freq = max (unat counter_freq_hz) 1;
            numerator = min (unat units * freq) u128_max_nat;
            counts = div_ceil numerator (unat denom_per_second)
        in word_of_nat (min (max counts 1) u64_max_nat))"

definition ns_to_counts :: "u64 \<Rightarrow> u64 \<Rightarrow> u64" where
  "ns_to_counts freq ns = scale_to_counts freq ns 1000000000"

definition us_to_counts :: "u64 \<Rightarrow> u64 \<Rightarrow> u64" where
  "us_to_counts freq us = scale_to_counts freq us 1000000"

definition ms_to_counts :: "u64 \<Rightarrow> u64 \<Rightarrow> u64" where
  "ms_to_counts freq ms = scale_to_counts freq ms 1000"

definition counter_to_monotonic_time :: "u64 \<Rightarrow> u64 \<Rightarrow> time_conversion_error + monotonic_time" where
  "counter_to_monotonic_time counter frequency =
     (if frequency = 0 then Inl InvalidFrequency
      else
        let s = counter div frequency;
            remainder = counter mod frequency;
            ns = word_of_nat (unat remainder * 1000000000 div unat frequency)
        in Inr \<lparr>seconds = s, nanoseconds = ns\<rparr>)"

definition monotonic_time_to_counter :: "u64 \<Rightarrow> u32 \<Rightarrow> u64 \<Rightarrow> time_conversion_error + u64" where
  "monotonic_time_to_counter s ns frequency =
     (if frequency = 0 then Inl InvalidFrequency
      else if 1000000000 \<le> ns then Inl ConversionOverflow
      else case checked_mul_u64 s frequency of
          None \<Rightarrow> Inl ConversionOverflow
        | Some whole \<Rightarrow>
            (case (case checked_mul_u64 (ucast ns) frequency of
                Some product \<Rightarrow> Inr (word_of_nat (div_ceil (unat product) 1000000000))
              | None \<Rightarrow>
                  (let c = div_ceil (unat ns * unat frequency) 1000000000
                   in if c \<le> u64_max_nat then Inr (word_of_nat c) else Inl ConversionOverflow)) of
              Inl err \<Rightarrow> Inl err
            | Inr fractional \<Rightarrow>
                (case checked_add_u64 whole fractional of
                   None \<Rightarrow> Inl ConversionOverflow
                 | Some c \<Rightarrow> Inr c)))"

definition monotonic_duration_to_counts :: "u64 \<Rightarrow> u32 \<Rightarrow> u64 \<Rightarrow> time_conversion_error + u64" where
  "monotonic_duration_to_counts s ns frequency = monotonic_time_to_counter s ns frequency"

definition monotonic_resolution :: "u64 \<Rightarrow> time_conversion_error + monotonic_time" where
  "monotonic_resolution frequency =
     (if frequency = 0 then Inl InvalidFrequency
      else
        let ns = max (div_ceil 1000000000 (unat frequency)) 1
        in Inr \<lparr>seconds = word_of_nat (ns div 1000000000), nanoseconds = word_of_nat (ns mod 1000000000)\<rparr>)"

section \<open>Rounding\<close>

lemma div_ceil_least: "0 < d \<Longrightarrow> div_ceil n d \<le> c \<longleftrightarrow> n \<le> c * d"
proof -
  assume d: "0 < d"
  have "n div d * d + n mod d = n" by simp
  show ?thesis
  proof (cases "n mod d = 0")
    case True
    then have "n = n div d * d" by (metis add.right_neutral div_mult_mod_eq)
    then show ?thesis using True d by (metis div_ceil_def mult_le_cancel2 not_gr_zero)
  next
    case False
    have "n div d + 1 \<le> c \<longleftrightarrow> n div d < c" by linarith
    also have "\<dots> \<longleftrightarrow> n < c * d" using d by (simp add: div_less_iff_less_mult)
    also have "\<dots> \<longleftrightarrow> n \<le> c * d" using False by (metis le_neq_implies_less mod_mult_self2_is_0 less_imp_le)
    finally show ?thesis using False by (simp add: div_ceil_def)
  qed
qed

lemma div_ceil_mono: "0 < d \<Longrightarrow> m \<le> n \<Longrightarrow> div_ceil m d \<le> div_ceil n d"
  by (meson div_ceil_least le_trans order_refl)

lemma div_ceil_add_mult: "0 < d \<Longrightarrow> div_ceil (k * d + n) d = k + div_ceil n d"
  by (simp add: div_ceil_def)

lemma unat_word_of_nat_u64: "n < 2 ^ 64 \<Longrightarrow> unat (word_of_nat n :: u64) = n"
  by (simp add: unsigned_of_nat take_bit_nat_eq_self)

lemma unat_lt_u64: "unat (x :: u64) < 18446744073709551616"
  using unsigned_less [of x] by simp

lemma unat_word_of_nat_u32: "n < 2 ^ 32 \<Longrightarrow> unat (word_of_nat n :: u32) = n"
  by (simp add: unsigned_of_nat take_bit_nat_eq_self)

lemma unat_ns: "ns < (1000000000 :: u32) \<longleftrightarrow> unat ns < 1000000000"
  by (simp add: word_less_nat_alt)

lemma unat_pos_u64: "f \<noteq> 0 \<longleftrightarrow> 0 < unat f" for f :: u64
  by (simp add: unat_gt_0)

text \<open>
  The fractional part is computed in 64 bits where the product fits and in 128 bits otherwise;
  both are the same ceiling, and it is at most the frequency.
\<close>

lemma fractional_le: "unat ns < 1000000000 \<Longrightarrow> div_ceil (unat ns * f) 1000000000 \<le> f" for ns :: u32
  by (subst div_ceil_least) (simp_all add: mult.commute)

lemma fractional_value:
  fixes ns :: u32 and f :: u64
  assumes ns: "unat ns < 1000000000"
  shows "(case checked_mul_u64 (ucast ns) f of
      Some product \<Rightarrow> Inr (word_of_nat (div_ceil (unat product) 1000000000))
    | None \<Rightarrow>
        (let c = div_ceil (unat ns * unat f) 1000000000
         in if c \<le> u64_max_nat then Inr (word_of_nat c) else Inl ConversionOverflow)) =
    Inr (word_of_nat (div_ceil (unat ns * unat f) 1000000000))"
proof -
  have u: "unat (ucast ns :: u64) = unat ns" using ns by (simp add: unsigned_ucast_eq take_bit_nat_eq_self)
  have "div_ceil (unat ns * unat f) 1000000000 \<le> u64_max_nat"
    using fractional_le [OF ns, of "unat f"] unat_lt_u64 [of f]
    by (simp add: u64_max_nat_def)
  then show ?thesis
    using checked_mul_u64_unat [of "ucast ns" f] by (auto simp: u split: option.split)
qed

text \<open>
  The exact behaviour: the ceiling of the requested time in counter ticks, or the overflow
  error exactly when that ceiling leaves 64 bits.
\<close>

definition exact_counts :: "u64 \<Rightarrow> u32 \<Rightarrow> u64 \<Rightarrow> nat" where
  "exact_counts s ns f = div_ceil ((unat s * 1000000000 + unat ns) * unat f) 1000000000"

lemma exact_counts_split: "exact_counts s ns f = unat s * unat f + div_ceil (unat ns * unat f) 1000000000"
  using div_ceil_add_mult [of 1000000000 "unat s * unat f" "unat ns * unat f"]
  by (simp add: exact_counts_def algebra_simps)

lemma monotonic_time_to_counter_eq:
  "monotonic_time_to_counter s ns f =
     (if f = 0 then Inl InvalidFrequency
      else if 1000000000 \<le> unat ns \<or> 2 ^ 64 \<le> exact_counts s ns f then Inl ConversionOverflow
      else Inr (word_of_nat (exact_counts s ns f)))"
proof (cases "f \<noteq> 0 \<and> unat ns < 1000000000")
  case True
  let ?c = "div_ceil (unat ns * unat f) 1000000000"
  have c: "unat (word_of_nat ?c :: u64) = ?c"
    using fractional_le [of ns "unat f"] True unat_lt_u64 [of f]
    by (intro unat_word_of_nat_u64) simp
  have nle: "\<not> 1000000000 \<le> ns" using True by (simp add: word_le_nat_alt)
  have unf: "monotonic_time_to_counter s ns f =
      (case checked_mul_u64 s f of
         None \<Rightarrow> Inl ConversionOverflow
       | Some whole \<Rightarrow>
           (case checked_add_u64 whole (word_of_nat ?c) of None \<Rightarrow> Inl ConversionOverflow | Some c \<Rightarrow> Inr c))"
    unfolding monotonic_time_to_counter_def fractional_value [OF conjunct2 [OF True]]
    using True nle by (simp cong: option.case_cong)
  have whole: "unat (s * f) = unat s * unat f" if "unat s * unat f < 2 ^ 64" using that by (rule unat_mul_u64)
  have "s * f + word_of_nat ?c = (word_of_nat (unat s * unat f + ?c) :: u64)" by simp
  then show ?thesis
    using True nle c whole unfolding unf
    by (simp add: checked_mul_u64_def checked_add_u64_def exact_counts_split)
next
  case False
  then show ?thesis by (auto simp: monotonic_time_to_counter_def word_le_nat_alt)
qed

section \<open>Deadlines are never early\<close>



section \<open>Reading the clock and setting a deadline\<close>

lemma counter_to_monotonic_time_value:
  assumes "f \<noteq> 0"
  shows "\<exists>t. counter_to_monotonic_time c f = Inr t \<and> unat (seconds t) = unat c div unat f \<and>
    unat (nanoseconds t) = (unat c mod unat f) * 1000000000 div unat f \<and> unat (nanoseconds t) < 1000000000"
proof -
  let ?r = "unat c mod unat f"
  have f: "0 < unat f" using assms by (simp add: unat_pos_u64)
  then have "?r * 1000000000 < unat f * 1000000000" by simp
  then have lt: "?r * 1000000000 div unat f < 1000000000"
    using f by (simp add: div_less_iff_less_mult mult.commute)
  then have "unat (word_of_nat (?r * 1000000000 div unat f) :: u32) = ?r * 1000000000 div unat f"
    by (intro unat_word_of_nat_u32) simp
  with assms lt show ?thesis
    by (simp add: counter_to_monotonic_time_def Let_def unat_div unat_mod)
qed

text \<open>
  C15. On a counter of at most one gigahertz, reading the clock and converting the reading
  back yields the same counter value.
\<close>

theorem clock_roundtrip:
  assumes "f \<noteq> 0" "unat f \<le> 1000000000" "counter_to_monotonic_time c f = Inr t"
  shows "monotonic_time_to_counter (seconds t) (nanoseconds t) f = Inr c"
proof -
  let ?r = "unat c mod unat f" let ?n = "unat (nanoseconds t)"
  have t: "unat (seconds t) = unat c div unat f" "?n = ?r * 1000000000 div unat f" "?n < 1000000000"
    using counter_to_monotonic_time_value [OF assms(1), of c] assms(3) by auto
  have f: "0 < unat f" using assms(1) by (simp add: unat_pos_u64)
  have lo: "?n * unat f \<le> ?r * 1000000000" by (simp add: t(2))
  have "?r * 1000000000 < (?n + 1) * unat f"
    using f dividend_less_div_times [of "unat f" "?r * 1000000000"] by (simp add: t(2))
  then have hi: "?r * 1000000000 < ?n * unat f + 1000000000" using assms(2) by simp
  have "div_ceil (?n * unat f) 1000000000 = ?r"
  proof (rule antisym)
    show "div_ceil (?n * unat f) 1000000000 \<le> ?r" using lo by (simp add: div_ceil_least)
    show "?r \<le> div_ceil (?n * unat f) 1000000000"
    proof (rule ccontr)
      assume "\<not> ?r \<le> div_ceil (?n * unat f) 1000000000"
      then have "div_ceil (?n * unat f) 1000000000 \<le> ?r - 1" "0 < ?r" by linarith+
      then have "?n * unat f \<le> (?r - 1) * 1000000000" by (simp add: div_ceil_least)
      with hi \<open>0 < ?r\<close> show False by (simp add: diff_mult_distrib)
    qed
  qed
  then have "exact_counts (seconds t) (nanoseconds t) f = unat c"
    using t(1) by (simp add: exact_counts_split)
  then show ?thesis
    using assms(1) t(3) unat_lt_u64 [of c] by (simp add: monotonic_time_to_counter_eq)
qed

theorem clock_roundtrip_witness:
  "\<exists>t. counter_to_monotonic_time 93750001 62500000 = Inr t \<and>
     monotonic_time_to_counter (seconds t) (nanoseconds t) 62500000 = Inr 93750001"
proof -
  obtain t where t: "counter_to_monotonic_time 93750001 62500000 = Inr t"
    using counter_to_monotonic_time_value [of 62500000 93750001] by auto
  with clock_roundtrip [OF _ _ t] show ?thesis by simp
qed

section \<open>Durations\<close>

text \<open>
  The saturating conversion of a relative duration: at least one tick and at least the exact
  duration, or the largest counter value.
\<close>

lemma scale_to_counts_never_short:
  assumes "0 < unat d"
  shows "unat units * max (unat f) 1 \<le> unat (scale_to_counts f units d) * unat d \<or>
    scale_to_counts f units d = - 1"
proof (cases "units = 0")
  case False
  let ?n = "unat units * max (unat f) 1"
  have "max (unat f) 1 \<le> 2 ^ 64 - 1" "unat units \<le> 2 ^ 64 - 1"
    using unat_lt_u64 [of f] unat_lt_u64 [of units] by simp_all
  then have "?n \<le> (2 ^ 64 - 1) * (2 ^ 64 - 1)" by (rule mult_le_mono [rotated])
  then have n: "min ?n u128_max_nat = ?n" by (simp add: u128_max_nat_def)
  let ?c = "max (div_ceil ?n (unat d)) 1"
  have val: "scale_to_counts f units d = word_of_nat (min ?c u64_max_nat)"
    using False n by (simp add: scale_to_counts_def Let_def)
  show ?thesis
  proof (cases "?c \<le> u64_max_nat")
    case True
    then have "unat (scale_to_counts f units d) = ?c"
      using val unat_word_of_nat_u64 [of ?c] by (simp add: u64_max_nat_def)
    then have "div_ceil ?n (unat d) \<le> unat (scale_to_counts f units d)" by simp
    then show ?thesis using assms by (simp add: div_ceil_least)
  next
    case False
    then have "min ?c u64_max_nat = u64_max_nat" by linarith
    then show ?thesis using val by (simp add: u64_max_nat_def)
  qed
qed (simp add: scale_to_counts_def)

end
