(* ===== verification/Preempt.thy ===== *)
theory Preempt
  imports Kernel_Prelude
begin

text \<open>
  The CPU-local preemption bookkeeping (\<^verbatim>\<open>kernel/src/sync/preempt.rs\<close>,
  \<open>PreemptionState\<close>): a nesting depth and one coalesced reschedule request. A request made
  while preemption is disabled survives until a checkpoint at depth zero consumes it.
\<close>

record preemption_state =
  disable_depth :: usize
  reschedule_pending :: bool

definition preempt_new :: preemption_state where
  "preempt_new = \<lparr>disable_depth = 0, reschedule_pending = False\<rparr>"

definition preempt_enter :: "preemption_state \<Rightarrow> preemption_state option" where
  "preempt_enter p = do {
     d \<leftarrow> checked_add_usize (disable_depth p) 1;
     Some (p\<lparr>disable_depth := d\<rparr>)
   }"

definition preempt_leave :: "preemption_state \<Rightarrow> (bool \<times> preemption_state) option" where
  "preempt_leave p = do {
     panic_if (disable_depth p = 0);
     let p = p\<lparr>disable_depth := disable_depth p - 1\<rparr>;
     Some (disable_depth p = 0 \<and> reschedule_pending p, p)
   }"

definition preempt_request :: "preemption_state \<Rightarrow> preemption_state" where
  "preempt_request p = p\<lparr>reschedule_pending := True\<rparr>"

definition consume_checkpoint :: "bool \<Rightarrow> preemption_state \<Rightarrow> bool \<times> preemption_state" where
  "consume_checkpoint online p =
     (if \<not> online \<or> disable_depth p \<noteq> 0 \<or> \<not> reschedule_pending p then (False, p)
      else (True, p\<lparr>reschedule_pending := False\<rparr>))"

definition assert_enabled :: "preemption_state \<Rightarrow> unit option" where
  "assert_enabled p = panic_if (disable_depth p \<noteq> 0)"

definition preempt_is_disabled :: "preemption_state \<Rightarrow> bool" where
  "preempt_is_disabled p \<longleftrightarrow> disable_depth p \<noteq> 0"

section \<open>Sequences of operations on one CPU\<close>

datatype preempt_op = Enter | Leave | Request | Checkpoint bool

datatype preempt_event = Entered | Left bool | Requested | Checked bool

fun preempt_step :: "preempt_op \<Rightarrow> preemption_state \<Rightarrow> (preempt_event \<times> preemption_state) option" where
  "preempt_step Enter p = map_option (\<lambda>p'. (Entered, p')) (preempt_enter p)"
| "preempt_step Leave p = map_option (\<lambda>(b, p'). (Left b, p')) (preempt_leave p)"
| "preempt_step Request p = Some (Requested, preempt_request p)"
| "preempt_step (Checkpoint online) p = (let (b, p') = consume_checkpoint online p in Some (Checked b, p'))"

fun preempt_run :: "preempt_op list \<Rightarrow> preemption_state \<Rightarrow> (preempt_event list \<times> preemption_state) option" where
  "preempt_run [] p = Some ([], p)"
| "preempt_run (x # xs) p = do {
     (e, p) \<leftarrow> preempt_step x p;
     (es, p) \<leftarrow> preempt_run xs p;
     Some (e # es, p)
   }"

lemmas preempt_defs = preempt_enter_def preempt_leave_def preempt_request_def consume_checkpoint_def

lemma preempt_run_append:
  assumes "preempt_run (xs @ ys) p = Some (es, q)"
  shows "\<exists>e1 r e2. preempt_run xs p = Some (e1, r) \<and> preempt_run ys r = Some (e2, q) \<and> es = e1 @ e2"
  using assms
proof (induction xs arbitrary: p es)
  case (Cons x xs)
  then obtain e p1 es1 where st: "preempt_step x p = Some (e, p1)"
    and run: "preempt_run (xs @ ys) p1 = Some (es1, q)" and es: "es = e # es1"
    by (auto simp: bind_eq_Some_conv)
  from Cons.IH [OF run] st es show ?case by fastforce
qed simp

text \<open>Until a checkpoint succeeds, a pending request stays pending.\<close>

lemma pending_run:
  assumes "preempt_run xs p = Some (es, q)" "Checked True \<notin> set es" "reschedule_pending p"
  shows "reschedule_pending q"
  using assms
proof (induction xs arbitrary: p es)
  case (Cons x xs)
  then obtain e p1 es1 where st: "preempt_step x p = Some (e, p1)" and run: "preempt_run xs p1 = Some (es1, q)"
    and es: "es = e # es1" by (auto simp: bind_eq_Some_conv)
  have "reschedule_pending p1"
    using st Cons.prems(2,3) es
    by (cases x) (auto simp: preempt_defs bind_eq_Some_conv Let_def split: if_splits)
  with Cons.IH [OF run] Cons.prems(2) es show ?case by simp
qed simp

text \<open>The depth counts the guards that are still held.\<close>

lemma depth_run:
  assumes "preempt_run xs p = Some (es, q)"
  shows "int (disable_depth q) =
    int (disable_depth p) + int (count_list xs Enter) - int (count_list xs Leave)"
  using assms
proof (induction xs arbitrary: p es)
  case (Cons x xs)
  then obtain e p1 es1 where st: "preempt_step x p = Some (e, p1)" and run: "preempt_run xs p1 = Some (es1, q)"
    by (auto simp: bind_eq_Some_conv)
  have "int (disable_depth p1) = int (disable_depth p) + (if x = Enter then 1 else 0) - (if x = Leave then 1 else 0)"
    using st by (cases x)
      (auto simp: preempt_defs checked_add_usize_def bind_eq_Some_conv Let_def split: if_splits)
  with Cons.IH [OF run] show ?case by auto
qed simp

text \<open>
  C16. A reschedule request is never lost: after any sequence of guard entries, guard exits,
  requests and checkpoints in which no checkpoint succeeded since the request, the next
  checkpoint of the online CPU succeeds exactly when every guard has been released.
\<close>

theorem reschedule_request_not_lost:
  assumes "preempt_run (xs @ Request # ys) preempt_new = Some (es, p)"
    and "Checked True \<notin> set (drop (length xs) es)"
  shows "fst (consume_checkpoint True p) \<longleftrightarrow>
    count_list (xs @ Request # ys) Enter = count_list (xs @ Request # ys) Leave"
proof -
  from assms(1) obtain e1 p1 e2 where r1: "preempt_run xs preempt_new = Some (e1, p1)"
    and r2: "preempt_run (Request # ys) p1 = Some (e2, p)" and es: "es = e1 @ e2"
    using preempt_run_append by blast
  have len: "length fs = length zs" if "preempt_run zs a = Some (fs, b)" for zs a fs b
    using that by (induction zs arbitrary: a fs) (auto simp: bind_eq_Some_conv)
  from r2 obtain e3 where r3: "preempt_run ys (preempt_request p1) = Some (e3, p)" and e2: "e2 = Requested # e3"
    by (auto simp: bind_eq_Some_conv)
  have "Checked True \<notin> set e3" using assms(2) es len [OF r1] e2 by simp
  with pending_run [OF r3] have "reschedule_pending p" by (simp add: preempt_request_def)
  moreover have "disable_depth p = 0 \<longleftrightarrow>
      count_list (xs @ Request # ys) Enter = count_list (xs @ Request # ys) Leave"
    using depth_run [OF assms(1)] by (auto simp: preempt_new_def)
  ultimately show ?thesis by (auto simp: consume_checkpoint_def)
qed

text \<open>
  The witness requests a reschedule under two nested guards: the inner exit and a checkpoint
  in between do not consume it, the checkpoint after the outer exit does.
\<close>

theorem reschedule_request_not_lost_witness:
  "\<exists>es p. preempt_run ([Enter, Enter] @ Request # [Leave, Checkpoint True, Leave]) preempt_new = Some (es, p) \<and>
     Checked True \<notin> set (drop (length [Enter, Enter]) es) \<and> fst (consume_checkpoint True p)"
proof -
  have "map_option (\<lambda>(es, p). Checked True \<notin> set (drop 2 es))
      (preempt_run ([Enter, Enter] @ Request # [Leave, Checkpoint True, Leave]) preempt_new) = Some True"
    by code_simp
  then obtain es p where run: "preempt_run ([Enter, Enter] @ Request # [Leave, Checkpoint True, Leave]) preempt_new = Some (es, p)"
    and nc: "Checked True \<notin> set (drop (length [Enter, Enter]) es)"
    by (auto simp: numeral_2_eq_2)
  from reschedule_request_not_lost [OF run nc] run nc show ?thesis by auto
qed

end
