(* ===== verification/Vm_Active.thy ===== *)
theory Vm_Active
  imports Wait
begin

text \<open>
  The CPU-local record of installed user address spaces (\<^verbatim>\<open>kernel/src/memory/vm.rs\<close>):
  activation, detachment, retention for the idle thread, the usercopy snapshot, and the check
  that guards destruction. A root is installed on one CPU at most, and a root that is installed
  anywhere cannot be destroyed.
\<close>

type_synonym phys_addr = usize

definition NO_ACTIVE_USER_ROOT :: phys_addr where
  "NO_ACTIVE_USER_ROOT = usize_max"

record cpu_user_space =
  installed :: phys_addr
  user_access :: bool

datatype address_space_id = AddressSpaceId (root_pa: phys_addr) (owner_cpu: cpu_id)

datatype vm_error =
    NotInitialized | InvalidRange | NotAligned | NotKernelVa | AlreadyMapped | MissingMapping
  | OutOfFrames | ActiveAddressSpace | WrongCpu | Unsupported

type_synonym user_spaces = "cpu_id \<Rightarrow> cpu_user_space"

definition user_space_new :: cpu_user_space where
  "user_space_new = \<lparr>installed = NO_ACTIVE_USER_ROOT, user_access = False\<rparr>"

definition for_usercopy :: "cpu_id \<Rightarrow> cpu_user_space \<Rightarrow> address_space_id option" where
  "for_usercopy cpu st =
     (if \<not> user_access st then None
      else if installed st \<noteq> NO_ACTIVE_USER_ROOT then Some (AddressSpaceId (installed st) cpu) else None)"

fun vm_error_from_code :: "u64 \<Rightarrow> vm_error" where
  "vm_error_from_code code =
     (if code = 1 then NotInitialized
      else if code = 2 then InvalidRange
      else if code = 3 then NotAligned
      else if code = 4 then NotKernelVa
      else if code = 5 then AlreadyMapped
      else if code = 6 then MissingMapping
      else if code = 7 then OutOfFrames
      else Unsupported)"

definition vm_result :: "u64 \<Rightarrow> vm_error + unit" where
  "vm_result code = (if code = 0 then Inr () else Inl (vm_error_from_code code))"

text \<open>
  The operations run on the CPU that \<open>cpu::current_id\<close> resolved, \<open>None\<close> when the
  executing CPU has no logical binding. The architecture hooks are arguments: each returns a
  status code, zero for success.
\<close>

definition current_user_address_space :: "cpu_id option \<Rightarrow> user_spaces \<Rightarrow> address_space_id option" where
  "current_user_address_space current spaces = do { cpu \<leftarrow> current; for_usercopy cpu (spaces cpu) }"

definition retain_user_address_space_for_idle ::
  "cpu_id option \<Rightarrow> user_spaces \<Rightarrow> (vm_error + unit) \<times> user_spaces" where
  "retain_user_address_space_for_idle current spaces =
     (case current of
        None \<Rightarrow> (Inl WrongCpu, spaces)
      | Some cpu \<Rightarrow> (Inr (), spaces(cpu := (spaces cpu)\<lparr>user_access := False\<rparr>)))"

definition installed_elsewhere :: "cpu_id \<Rightarrow> phys_addr \<Rightarrow> user_spaces \<Rightarrow> bool" where
  "installed_elsewhere cpu root spaces \<longleftrightarrow>
     list_ex (\<lambda>i. i \<noteq> cpu \<and> installed (spaces i) = root) [0..<KERNEL_CPU_CAPACITY]"

definition activate_user_address_space ::
  "(phys_addr \<Rightarrow> u64) \<Rightarrow> cpu_id option \<Rightarrow> address_space_id \<Rightarrow> user_spaces \<Rightarrow> (vm_error + unit) \<times> user_spaces"
where
  "activate_user_address_space arch_activate current aspace spaces =
     (case current of
        None \<Rightarrow> (Inl WrongCpu, spaces)
      | Some cpu \<Rightarrow>
          if cpu \<noteq> owner_cpu aspace then (Inl WrongCpu, spaces)
          else if installed (spaces cpu) = root_pa aspace
          then (Inr (), spaces(cpu := (spaces cpu)\<lparr>user_access := True\<rparr>))
          else if installed_elsewhere cpu (root_pa aspace) spaces
          then (Inl ActiveAddressSpace, spaces)
          else
            let spaces = spaces(cpu := (spaces cpu)\<lparr>user_access := False\<rparr>)
            in case vm_result (arch_activate (root_pa aspace)) of
                 Inl err \<Rightarrow> (Inl err, spaces)
               | Inr _ \<Rightarrow> (Inr (), spaces(cpu := \<lparr>installed = root_pa aspace, user_access = True\<rparr>)))"

definition clear_user_address_space ::
  "u64 \<Rightarrow> cpu_id option \<Rightarrow> user_spaces \<Rightarrow> (vm_error + unit) \<times> user_spaces" where
  "clear_user_address_space arch_clear current spaces =
     (case current of
        None \<Rightarrow> (Inl WrongCpu, spaces)
      | Some cpu \<Rightarrow>
          let spaces = spaces(cpu := (spaces cpu)\<lparr>user_access := False\<rparr>)
          in if installed (spaces cpu) = NO_ACTIVE_USER_ROOT then (Inr (), spaces)
             else case vm_result arch_clear of
                 Inl err \<Rightarrow> (Inl err, spaces)
               | Inr _ \<Rightarrow> (Inr (), spaces(cpu := (spaces cpu)\<lparr>installed := NO_ACTIVE_USER_ROOT\<rparr>)))"

definition destroy_user_address_space ::
  "(phys_addr \<Rightarrow> u64) \<Rightarrow> address_space_id \<Rightarrow> user_spaces \<Rightarrow> vm_error + unit" where
  "destroy_user_address_space arch_destroy aspace spaces =
     (if list_ex (\<lambda>i. installed (spaces i) = root_pa aspace) [0..<KERNEL_CPU_CAPACITY] then Inl ActiveAddressSpace
      else vm_result (arch_destroy (root_pa aspace)))"

section \<open>One root, one CPU\<close>

text \<open>
  The invariant: a root is installed on one CPU at most, and a CPU grants user access only
  through an installed root.
\<close>

definition spaces_inv :: "user_spaces \<Rightarrow> bool" where
  "spaces_inv spaces \<longleftrightarrow>
     (\<forall>i<KERNEL_CPU_CAPACITY. \<forall>j<KERNEL_CPU_CAPACITY.
        installed (spaces i) = installed (spaces j) \<longrightarrow> installed (spaces i) \<noteq> NO_ACTIVE_USER_ROOT \<longrightarrow> i = j) \<and>
     (\<forall>i<KERNEL_CPU_CAPACITY. user_access (spaces i) \<longrightarrow> installed (spaces i) \<noteq> NO_ACTIVE_USER_ROOT)"

lemmas vm_op_defs = activate_user_address_space_def clear_user_address_space_def
  retain_user_address_space_for_idle_def

lemma spaces_inv_initial: "spaces_inv (\<lambda>_. user_space_new)"
  by (simp add: spaces_inv_def user_space_new_def)

lemma activate_other: "activate_user_address_space a (Some cpu) s spaces = (r, spaces') \<Longrightarrow> c \<noteq> cpu \<Longrightarrow> spaces' c = spaces c"
  by (auto simp: vm_op_defs Let_def split: if_splits sum.splits)

lemma clear_other: "clear_user_address_space a (Some cpu) spaces = (r, spaces') \<Longrightarrow> c \<noteq> cpu \<Longrightarrow> spaces' c = spaces c"
  by (auto simp: vm_op_defs Let_def split: if_splits sum.splits)

lemma spaces_inv_upd:
  assumes inv: "spaces_inv spaces"
    and acc: "user_access st \<Longrightarrow> installed st \<noteq> NO_ACTIVE_USER_ROOT"
    and fresh: "\<And>i. i < KERNEL_CPU_CAPACITY \<Longrightarrow> i \<noteq> cpu \<Longrightarrow> installed st \<noteq> NO_ACTIVE_USER_ROOT \<Longrightarrow>
      installed (spaces i) \<noteq> installed st"
  shows "spaces_inv (spaces(cpu := st))"
  unfolding spaces_inv_def
proof (intro conjI allI impI)
  fix i j
  assume ij: "i < KERNEL_CPU_CAPACITY" "j < KERNEL_CPU_CAPACITY"
    "installed ((spaces(cpu := st)) i) = installed ((spaces(cpu := st)) j)"
    "installed ((spaces(cpu := st)) i) \<noteq> NO_ACTIVE_USER_ROOT"
  then show "i = j"
    using inv fresh [of i] fresh [of j]
    by (cases "i = cpu"; cases "j = cpu") (simp_all add: spaces_inv_def)
next
  fix i assume "i < KERNEL_CPU_CAPACITY" "user_access ((spaces(cpu := st)) i)"
  then show "installed ((spaces(cpu := st)) i) \<noteq> NO_ACTIVE_USER_ROOT"
    using inv acc by (cases "i = cpu") (simp_all add: spaces_inv_def)
qed

text \<open>Keeping the installed root, or clearing it, keeps the invariant.\<close>

lemma spaces_inv_same_root:
  assumes "spaces_inv spaces" "cpu < KERNEL_CPU_CAPACITY"
    "installed st = installed (spaces cpu) \<or> installed st = NO_ACTIVE_USER_ROOT"
    "user_access st \<Longrightarrow> installed st \<noteq> NO_ACTIVE_USER_ROOT"
  shows "spaces_inv (spaces(cpu := st))"
  using assms by (intro spaces_inv_upd) (auto simp: spaces_inv_def)

lemma retain_spaces_inv:
  "spaces_inv spaces \<Longrightarrow> cpu < KERNEL_CPU_CAPACITY \<Longrightarrow>
    spaces_inv (snd (retain_user_address_space_for_idle (Some cpu) spaces))"
  by (auto simp: vm_op_defs intro!: spaces_inv_same_root)

lemma clear_spaces_inv:
  assumes "spaces_inv spaces" "cpu < KERNEL_CPU_CAPACITY"
    "clear_user_address_space a (Some cpu) spaces = (r, spaces')"
  shows "spaces_inv spaces'"
proof -
  obtain st where "spaces' = spaces(cpu := st)" "\<not> user_access st"
    "installed st = installed (spaces cpu) \<or> installed st = NO_ACTIVE_USER_ROOT"
    using assms(3) by (auto simp: vm_op_defs Let_def split: if_splits sum.splits)
  then show ?thesis using assms(1,2) by (auto intro!: spaces_inv_same_root)
qed

lemma activate_spaces_inv:
  assumes inv: "spaces_inv spaces" and cpu: "cpu < KERNEL_CPU_CAPACITY"
    and root: "root_pa aspace \<noteq> NO_ACTIVE_USER_ROOT"
    and act: "activate_user_address_space a (Some cpu) aspace spaces = (r, spaces')"
  shows "spaces_inv spaces'"
proof -
  let ?other = "installed_elsewhere cpu (root_pa aspace) spaces"
  show ?thesis
  proof (cases "cpu \<noteq> owner_cpu aspace \<or> installed (spaces cpu) \<noteq> root_pa aspace \<and> ?other")
    case True
    then have "spaces' = spaces" using act
      by (cases "cpu = owner_cpu aspace") (simp_all add: activate_user_address_space_def)
    with inv show ?thesis by simp
  next
    case False
    show ?thesis
    proof (cases "installed (spaces cpu) = root_pa aspace")
      case same: True
      then have "spaces' = spaces(cpu := (spaces cpu)\<lparr>user_access := True\<rparr>)"
        using act False by (simp add: activate_user_address_space_def)
      with inv cpu root same show ?thesis by (auto intro!: spaces_inv_same_root)
    next
      case new: False
      have fresh: "installed (spaces i) \<noteq> root_pa aspace" if "i < KERNEL_CPU_CAPACITY" "i \<noteq> cpu" for i
        using False new that by (auto simp: installed_elsewhere_def list_ex_iff)
      have "spaces' = spaces(cpu := (spaces cpu)\<lparr>user_access := False\<rparr>) \<or>
          spaces' = spaces(cpu := \<lparr>installed = root_pa aspace, user_access = True\<rparr>)"
        using act False new by (simp add: activate_user_address_space_def Let_def split: sum.splits)
      then show ?thesis
      proof
        assume "spaces' = spaces(cpu := (spaces cpu)\<lparr>user_access := False\<rparr>)"
        with inv cpu show ?thesis by (auto intro!: spaces_inv_same_root)
      qed (use inv root fresh in \<open>auto intro!: spaces_inv_upd\<close>)
    qed
  qed
qed

text \<open>
  C17. Activating an address space succeeds only on its owner CPU; after a success the usercopy
  snapshot of that CPU is that address space, after a failure it is not granted anew, and in
  either case no other CPU's record changes and the one-root-one-CPU invariant holds.
\<close>

theorem activation_exclusive:
  assumes "spaces_inv spaces" "cpu < KERNEL_CPU_CAPACITY" "root_pa aspace \<noteq> NO_ACTIVE_USER_ROOT"
    and "activate_user_address_space a (Some cpu) aspace spaces = (r, spaces')"
  shows "spaces_inv spaces' \<and> (\<forall>c. c \<noteq> cpu \<longrightarrow> spaces' c = spaces c) \<and>
    (case r of
       Inr _ \<Rightarrow> owner_cpu aspace = cpu \<and> current_user_address_space (Some cpu) spaces' = Some aspace \<and>
         destroy_user_address_space d aspace spaces' = Inl ActiveAddressSpace
     | Inl _ \<Rightarrow> installed (spaces' cpu) = installed (spaces cpu) \<and>
         (user_access (spaces' cpu) \<longrightarrow> user_access (spaces cpu)))"
proof (intro conjI)
  show "spaces_inv spaces'" by (rule activate_spaces_inv [OF assms])
  show "\<forall>c. c \<noteq> cpu \<longrightarrow> spaces' c = spaces c" using activate_other [OF assms(4)] by simp
  show "case r of
       Inr _ \<Rightarrow> owner_cpu aspace = cpu \<and> current_user_address_space (Some cpu) spaces' = Some aspace \<and>
         destroy_user_address_space d aspace spaces' = Inl ActiveAddressSpace
     | Inl _ \<Rightarrow> installed (spaces' cpu) = installed (spaces cpu) \<and>
         (user_access (spaces' cpu) \<longrightarrow> user_access (spaces cpu))"
    using assms(2-4)
    by (cases aspace) (auto simp: vm_op_defs Let_def current_user_address_space_def for_usercopy_def
        destroy_user_address_space_def list_ex_iff split: if_splits sum.splits)
qed

text \<open>The witness activates a root on CPU 1 over an empty record.\<close>

theorem activation_exclusive_witness:
  "let spaces' = snd (activate_user_address_space (\<lambda>_. 0) (Some 1) (AddressSpaceId 4096 1) (\<lambda>_. user_space_new))
   in spaces_inv spaces' \<and> current_user_address_space (Some 1) spaces' = Some (AddressSpaceId 4096 1)"
proof -
  let ?res = "activate_user_address_space (\<lambda>_. 0) (Some 1) (AddressSpaceId 4096 1) (\<lambda>_. user_space_new)"
  have ok: "fst ?res = Inr ()" by code_simp
  have "?res = (fst ?res, snd ?res)" by simp
  from activation_exclusive [OF spaces_inv_initial _ _ this, of undefined] ok show ?thesis
    by (simp add: Let_def KERNEL_CPU_CAPACITY_def NO_ACTIVE_USER_ROOT_def usize_max_def)
qed

end
