(* ===== verification/Cpu.thy ===== *)
theory Cpu
  imports Wait
begin

text \<open>
  The logical CPU registry (\<^verbatim>\<open>kernel/src/cpu.rs\<close>): registration of the boot and
  secondary CPUs, topology publication, the runtime binding of an executing CPU to its logical
  identity, and startup of the secondaries.
\<close>

section \<open>State\<close>

type_synonym hardware_id = u64

datatype cpu_registration_error =
    AlreadyRegistered | CapacityExceeded | InvalidExpectedCount | ExpectedCountNotConfigured
  | UnexpectedCpu | InvalidBootstrapSlot | BootstrapSlotInUse | TopologyMismatch
  | ArchitectureStartFailed | SecondaryStartupFailed | SecondaryStartupTimeout | UnknownCurrentCpu

definition cpu_id_from_index :: "usize \<Rightarrow> cpu_id option" where
  "cpu_id_from_index i = (if i < KERNEL_CPU_CAPACITY then Some i else None)"

record cpu_record =
  hardware :: hardware_id
  bootstrap_slot :: usize
  current_id_verified :: bool

record cpu_registry =
  records :: "cpu_record option list"
  registry_count :: usize
  registry_expected :: usize

definition registry_new :: cpu_registry where
  "registry_new = \<lparr>records = replicate KERNEL_CPU_CAPACITY None, registry_count = 0, registry_expected = 0\<rparr>"

definition registered_records :: "cpu_registry \<Rightarrow> cpu_record list" where
  "registered_records r = List.map_filter id (take (registry_count r) (records r))"

definition registry_register ::
  "hardware_id \<Rightarrow> usize \<Rightarrow> cpu_registry \<Rightarrow> (cpu_registration_error + cpu_id) \<times> cpu_registry" where
  "registry_register hw slot r =
     (if registry_count r = KERNEL_CPU_CAPACITY then (Inl CapacityExceeded, r)
      else if KERNEL_CPU_CAPACITY \<le> slot then (Inl InvalidBootstrapSlot, r)
      else if list_ex (\<lambda>rec. hardware rec = hw) (registered_records r) then (Inl AlreadyRegistered, r)
      else if list_ex (\<lambda>rec. bootstrap_slot rec = slot) (registered_records r)
      then (Inl BootstrapSlotInUse, r)
      else
        (Inr (registry_count r),
         r\<lparr>records := (records r)[registry_count r :=
              Some \<lparr>hardware = hw, bootstrap_slot = slot, current_id_verified = False\<rparr>],
           registry_count := registry_count r + 1\<rparr>))"

definition rollback_last_registration :: "cpu_id \<Rightarrow> cpu_registry \<Rightarrow> cpu_registry option" where
  "rollback_last_registration i r = do {
     panic_if (registry_count r \<noteq> i + 1 \<or> records r ! i = None);
     Some (r\<lparr>registry_count := registry_count r - 1, records := (records r)[i := None]\<rparr>)
   }"

definition mark_verified :: "cpu_id \<Rightarrow> cpu_registry \<Rightarrow> cpu_registry option" where
  "mark_verified i r =
     (if i < length (records r)
      then map_option (\<lambda>rec. r\<lparr>records := (records r)[i := Some (rec\<lparr>current_id_verified := True\<rparr>)]\<rparr>) (records r ! i)
      else None)"

text \<open>
  The globals of the module, with the logical binding of each hardware CPU that
  \<open>arch_bind_current_cpu_logical_id\<close> installs (zero for unbound, else the index plus one).
\<close>

record cpu_globals =
  registry :: cpu_registry
  registered_count :: usize
  expected_count :: usize
  startup_failed :: bool
  binding :: "hardware_id \<Rightarrow> usize"

definition cpu_globals_new :: cpu_globals where
  "cpu_globals_new = \<lparr>registry = registry_new, registered_count = 0, expected_count = 0,
     startup_failed = False, binding = (\<lambda>_. 0)\<rparr>"

section \<open>Operations\<close>

definition is_registered :: "cpu_id \<Rightarrow> cpu_globals \<Rightarrow> bool" where
  "is_registered cpu g \<longleftrightarrow> cpu < registered_count g"

definition current_id :: "hardware_id \<Rightarrow> cpu_globals \<Rightarrow> cpu_registration_error + cpu_id" where
  "current_id hw g =
     (let encoded = binding g hw
      in if encoded = 0 then Inl UnknownCurrentCpu
         else case cpu_id_from_index (encoded - 1) of
             None \<Rightarrow> Inl UnknownCurrentCpu
           | Some i \<Rightarrow> if is_registered i g then Inr i else Inl UnknownCurrentCpu)"

text \<open>
  The architecture answers whether the binding of the executing CPU could be installed.
\<close>

definition register_boot_cpu ::
  "hardware_id \<Rightarrow> bool \<Rightarrow> cpu_globals \<Rightarrow> ((cpu_registration_error + cpu_id) \<times> cpu_globals) option" where
  "register_boot_cpu hw bind_ok g =
     (if registry_count (registry g) \<noteq> 0 then Some (Inl AlreadyRegistered, g)
      else case registry_register hw 0 (registry g) of
          (Inl err, r) \<Rightarrow> Some (Inl err, g\<lparr>registry := r\<rparr>)
        | (Inr i, r) \<Rightarrow>
            if \<not> bind_ok then do {
              r \<leftarrow> rollback_last_registration i r;
              Some (Inl UnknownCurrentCpu, g\<lparr>registry := r\<rparr>)
            }
            else do {
              let count = registry_count r;
              r \<leftarrow> mark_verified i r;
              Some (Inr i, g\<lparr>registry := r, registered_count := count, binding := (binding g)(hw := i + 1)\<rparr>)
            })"

definition configure_expected_count ::
  "usize \<Rightarrow> usize \<Rightarrow> usize \<Rightarrow> cpu_globals \<Rightarrow> (cpu_registration_error + unit) \<times> cpu_globals" where
  "configure_expected_count stack_capacity arch_expected expected g =
     (if expected = 0 \<or> KERNEL_CPU_CAPACITY < expected \<or> stack_capacity \<noteq> KERNEL_CPU_CAPACITY
      then (Inl InvalidExpectedCount, g)
      else if arch_expected \<noteq> expected then (Inl TopologyMismatch, g)
      else if registry_expected (registry g) \<noteq> 0 then (Inl AlreadyRegistered, g)
      else if registry_count (registry g) \<noteq> 1 \<or> expected < registry_count (registry g)
      then (Inl InvalidExpectedCount, g)
      else (Inr (), g\<lparr>registry := (registry g)\<lparr>registry_expected := expected\<rparr>, expected_count := expected\<rparr>))"

definition register_secondary_cpu ::
  "hardware_id \<Rightarrow> bool \<Rightarrow> bool \<Rightarrow> usize \<Rightarrow> cpu_globals \<Rightarrow>
     ((cpu_registration_error + cpu_id) \<times> cpu_globals) option" where
  "register_secondary_cpu hw identity_ok bind_ok logical_index g =
     (if expected_count g = 0 then Some (Inl ExpectedCountNotConfigured, g)
      else if \<not> identity_ok then Some (Inl UnknownCurrentCpu, g)
      else if registry_expected (registry g) = 0 then Some (Inl ExpectedCountNotConfigured, g)
      else if expected_count g \<le> registry_count (registry g) \<or> registry_count (registry g) \<noteq> logical_index
      then Some (Inl UnexpectedCpu, g)
      else case registry_register hw logical_index (registry g) of
          (Inl err, r) \<Rightarrow> Some (Inl err, g\<lparr>registry := r\<rparr>)
        | (Inr i, r) \<Rightarrow>
            if \<not> bind_ok then do {
              r \<leftarrow> rollback_last_registration i r;
              Some (Inl UnknownCurrentCpu, g\<lparr>registry := r\<rparr>)
            }
            else
              let g = g\<lparr>registry := r, registered_count := registry_count r,
                        binding := (binding g)(hw := i + 1)\<rparr>
              in case current_id hw g of
                   Inl err \<Rightarrow> Some (Inl err, g)
                 | Inr i' \<Rightarrow>
                     if i' \<noteq> i then Some (Inl UnknownCurrentCpu, g)
                     else case mark_verified i (registry g) of
                         None \<Rightarrow> Some (Inl UnknownCurrentCpu, g)
                       | Some r \<Rightarrow> Some (Inr i, g\<lparr>registry := r\<rparr>))"

definition record_secondary_startup_failure :: "cpu_globals \<Rightarrow> cpu_globals" where
  "record_secondary_startup_failure g = g\<lparr>startup_failed := True\<rparr>"

section \<open>Registration keeps identities apart\<close>

text \<open>
  The registry invariant: the first \<open>count\<close> records are filled, their hardware identities
  are bound to their positions and no other hardware identity is bound, and a CPU's bootstrap
  stack slot is its logical index.
\<close>

definition registry_inv :: "cpu_globals \<Rightarrow> bool" where
  "registry_inv g \<longleftrightarrow>
     length (records (registry g)) = KERNEL_CPU_CAPACITY \<and>
     registered_count g = registry_count (registry g) \<and>
     registered_count g \<le> KERNEL_CPU_CAPACITY \<and>
     (\<forall>i<KERNEL_CPU_CAPACITY. records (registry g) ! i \<noteq> None \<longleftrightarrow> i < registered_count g) \<and>
     (\<forall>i rec. i < registered_count g \<longrightarrow> records (registry g) ! i = Some rec \<longrightarrow>
        binding g (hardware rec) = i + 1 \<and> bootstrap_slot rec = i) \<and>
     (\<forall>hw. binding g hw \<noteq> 0 \<longrightarrow>
        (\<exists>i rec. i < registered_count g \<and> records (registry g) ! i = Some rec \<and> hardware rec = hw))"

lemma registry_invD:
  assumes "registry_inv g"
  shows "length (records (registry g)) = KERNEL_CPU_CAPACITY"
    "registry_count (registry g) = registered_count g"
    "registered_count g \<le> KERNEL_CPU_CAPACITY"
    "i < KERNEL_CPU_CAPACITY \<Longrightarrow> records (registry g) ! i \<noteq> None \<longleftrightarrow> i < registered_count g"
    "i < registered_count g \<Longrightarrow> records (registry g) ! i = Some rec \<Longrightarrow> binding g (hardware rec) = i + 1"
    "i < registered_count g \<Longrightarrow> records (registry g) ! i = Some rec \<Longrightarrow> bootstrap_slot rec = i"
    "binding g hw \<noteq> 0 \<Longrightarrow>
      \<exists>i rec. i < registered_count g \<and> records (registry g) ! i = Some rec \<and> hardware rec = hw"
  using assms unfolding registry_inv_def by metis+

lemma registry_inv_new: "registry_inv cpu_globals_new"
  by (simp add: registry_inv_def cpu_globals_new_def registry_new_def)

lemma registered_records_iff:
  assumes "registry_count r \<le> length (records r)"
  shows "rec \<in> set (registered_records r) \<longleftrightarrow> (\<exists>i<registry_count r. records r ! i = Some rec)"
  using assms
  by (auto simp: registered_records_def map_filter_def in_set_conv_nth image_iff)

text \<open>A successful registration appends a record; a failed one changes nothing.\<close>

lemma registry_register_cases:
  assumes "registry_register hw slot r = (res, r')"
  shows "(\<exists>err. res = Inl err \<and> r' = r) \<or>
    (res = Inr (registry_count r) \<and> registry_count r \<noteq> KERNEL_CPU_CAPACITY \<and>
     (\<forall>rec\<in>set (registered_records r). hardware rec \<noteq> hw) \<and>
     r' = r\<lparr>records := (records r)[registry_count r :=
              Some \<lparr>hardware = hw, bootstrap_slot = slot, current_id_verified = False\<rparr>],
           registry_count := registry_count r + 1\<rparr>)"
  using assms by (auto simp: registry_register_def list_ex_iff split: if_splits)

lemma registry_inv_append:
  fixes b :: bool
  assumes inv: "registry_inv g" and room: "registry_count (registry g) \<noteq> KERNEL_CPU_CAPACITY"
    and new: "\<forall>rec\<in>set (registered_records (registry g)). hardware rec \<noteq> hw"
  defines "n \<equiv> registry_count (registry g)"
  defines "g' \<equiv> g\<lparr>registry := (registry g)\<lparr>
      records := (records (registry g))[n := Some \<lparr>hardware = hw, bootstrap_slot = n, current_id_verified = b\<rparr>],
      registry_count := n + 1\<rparr>,
    registered_count := n + 1, binding := (binding g)(hw := n + 1)\<rparr>"
  shows "registry_inv g'"
proof -
  have n: "n < KERNEL_CPU_CAPACITY" "registered_count g = n" "length (records (registry g)) = KERNEL_CPU_CAPACITY"
    using registry_invD(1-3) [OF inv] room by (simp_all add: n_def)
  have old: "hardware rec \<noteq> hw" if "i < n" "records (registry g) ! i = Some rec" for i rec
    using new that n registered_records_iff [of "registry g"] by (auto simp: n_def)
  have rec: "records (registry g') ! i =
      (if i = n then Some \<lparr>hardware = hw, bootstrap_slot = n, current_id_verified = b\<rparr> else records (registry g) ! i)"
    for i using n by (simp add: g'_def nth_list_update)
  show ?thesis
    unfolding registry_inv_def
  proof (intro conjI allI impI)
    fix i rec' assume i: "i < registered_count g'" "records (registry g') ! i = Some rec'"
    then have "i < n \<or> i = n" by (auto simp: g'_def)
    then show "binding g' (hardware rec') = i + 1" "bootstrap_slot rec' = i"
      using i rec [of i] registry_invD(5,6) [OF inv, of i rec'] n old [of i rec']
      by (auto simp: g'_def split: if_splits)
  next
    fix h assume "binding g' h \<noteq> 0"
    show "\<exists>i rec'. i < registered_count g' \<and> records (registry g') ! i = Some rec' \<and> hardware rec' = h"
    proof (cases "h = hw")
      case True
      then show ?thesis using rec [of n] by (intro exI [of _ n]) (simp add: g'_def)
    next
      case False
      then have "binding g h \<noteq> 0" using \<open>binding g' h \<noteq> 0\<close> by (simp add: g'_def)
      then obtain i r where "i < n" "records (registry g) ! i = Some r" "hardware r = h"
        using registry_invD(7) [OF inv] n by metis
      then show ?thesis using rec [of i] by (intro exI [of _ i]) (simp add: g'_def)
    qed
  next
    fix i assume "i < KERNEL_CPU_CAPACITY"
    then show "records (registry g') ! i \<noteq> None \<longleftrightarrow> i < registered_count g'"
      using rec [of i] registry_invD(4) [OF inv, of i] n by (auto simp: g'_def less_Suc_eq)
  qed (use n in \<open>simp_all add: g'_def\<close>)
qed

lemma registry_inv_current_id:
  assumes "registry_inv g" "current_id hw g = Inr i"
  shows "i < registered_count g \<and> (\<exists>rec. records (registry g) ! i = Some rec \<and> hardware rec = hw)"
proof -
  from assms(2) have b: "binding g hw = i + 1" "i < registered_count g"
    by (auto simp: current_id_def Let_def cpu_id_from_index_def is_registered_def split: if_splits)
  then obtain j rec where j: "j < registered_count g" "records (registry g) ! j = Some rec" "hardware rec = hw"
    using registry_invD(7) [OF assms(1), of hw] by auto
  then have "binding g hw = j + 1" using registry_invD(5) [OF assms(1)] by blast
  with b j show ?thesis by auto
qed

lemma registry_inv_bound:
  assumes "registry_inv g" "i < registered_count g" "records (registry g) ! i = Some rec"
  shows "current_id (hardware rec) g = Inr i"
  using assms(2) registry_invD(3) [OF assms(1)] registry_invD(5) [OF assms]
  by (simp add: current_id_def Let_def cpu_id_from_index_def is_registered_def)

lemma registry_inv_verified:
  assumes "registry_inv g" "mark_verified i (registry g) = Some r"
  shows "registry_inv (g\<lparr>registry := r\<rparr>)"
proof -
  from assms(2) obtain rec where rec: "i < length (records (registry g))" "records (registry g) ! i = Some rec"
    and r: "r = (registry g)\<lparr>records := (records (registry g))[i := Some (rec\<lparr>current_id_verified := True\<rparr>)]\<rparr>"
    by (auto simp: mark_verified_def split: if_splits)
  have nth: "records r ! j = (if j = i then Some (rec\<lparr>current_id_verified := True\<rparr>) else records (registry g) ! j)" for j
    using rec by (simp add: r nth_list_update)
  have "\<exists>k r'. k < registered_count g \<and> records r ! k = Some r' \<and> hardware r' = hw" if b: "binding g hw \<noteq> 0" for hw
  proof -
    obtain k r' where "k < registered_count g" "records (registry g) ! k = Some r'" "hardware r' = hw"
      using registry_invD(7) [OF assms(1) b] by metis
    then show ?thesis using nth [of k] rec by (intro exI [of _ k]) auto
  qed
  moreover have "binding g (hardware r') = k + 1 \<and> bootstrap_slot r' = k"
    if "k < registered_count g" "records r ! k = Some r'" for k r'
    using registry_invD(5,6) [OF assms(1) that(1)] nth [of k] rec that(2) by (auto split: if_splits)
  moreover have "records r ! k \<noteq> None \<longleftrightarrow> k < registered_count g" if "k < KERNEL_CPU_CAPACITY" for k
    using registry_invD(4) [OF assms(1) that] nth [of k] rec by auto
  ultimately show ?thesis
    using registry_invD(1-3) [OF assms(1)] by (simp add: registry_inv_def) (simp add: r)
qed

lemma rollback_register:
  assumes "registry_inv g" "registry_register hw slot (registry g) = (Inr i, r)"
  shows "rollback_last_registration i r = Some (registry g)"
proof -
  let ?n = "registry_count (registry g)"
  have "i = ?n" "?n < length (records (registry g))" "records (registry g) ! ?n = None"
    and r: "r = (registry g)\<lparr>records := (records (registry g))[?n :=
              Some \<lparr>hardware = hw, bootstrap_slot = slot, current_id_verified = False\<rparr>],
           registry_count := ?n + 1\<rparr>"
    using registry_register_cases [OF assms(2)] registry_invD(1-3) [OF assms(1)]
      registry_invD(4) [OF assms(1), of ?n] by auto
  then show ?thesis
    using list_update_id [of "records (registry g)" ?n]
    by (simp add: rollback_last_registration_def)
qed

text \<open>
  What one operation of the boot protocol may do to the globals; the architecture's answers are
  arbitrary.
\<close>

inductive cpu_step :: "cpu_globals \<Rightarrow> cpu_globals \<Rightarrow> bool" where
  boot: "register_boot_cpu hw bind_ok g = Some (res, g') \<Longrightarrow> cpu_step g g'"
| configure: "configure_expected_count cap arch_expected n g = (res, g') \<Longrightarrow> cpu_step g g'"
| secondary: "register_secondary_cpu hw identity_ok bind_ok n g = Some (res, g') \<Longrightarrow> cpu_step g g'"
| failure: "cpu_step g (record_secondary_startup_failure g)"

lemma register_boot_inv:
  assumes inv: "registry_inv g"
  shows "\<exists>res g'. register_boot_cpu hw ok g = Some (res, g') \<and> registry_inv g'"
proof (cases "registry_count (registry g) \<noteq> 0")
  case True
  then show ?thesis using inv by (simp add: register_boot_cpu_def)
next
  case False
  let ?n = "registry_count (registry g)"
  obtain res r where reg: "registry_register hw 0 (registry g) = (res, r)" by fastforce
  show ?thesis
  proof (cases res)
    case (Inl e)
    then show ?thesis using False reg inv registry_register_cases [OF reg] by (auto simp: register_boot_cpu_def)
  next
    case (Inr i)
    have i: "i = 0" "?n \<noteq> KERNEL_CPU_CAPACITY" "\<forall>rec\<in>set (registered_records (registry g)). hardware rec \<noteq> hw"
      and r: "r = (registry g)\<lparr>records := (records (registry g))[?n :=
              Some \<lparr>hardware = hw, bootstrap_slot = 0, current_id_verified = False\<rparr>], registry_count := ?n + 1\<rparr>"
      using registry_register_cases [OF reg] Inr False by auto
    show ?thesis
    proof (cases ok)
      case False
      then show ?thesis
        using rollback_register [OF inv, of hw 0 i r] reg Inr inv \<open>\<not> ?n \<noteq> 0\<close>
        by (simp add: register_boot_cpu_def)
    next
      case True
      let ?g = "g\<lparr>registry := r, registered_count := ?n + 1, binding := (binding g)(hw := ?n + 1)\<rparr>"
      have g: "registry_inv ?g" using registry_inv_append [OF inv i(2,3), of False] False by (simp add: r)
      have "0 < length (records (registry g))"
        using registry_invD(1) [OF inv] by (simp add: KERNEL_CPU_CAPACITY_def)
      then obtain r' where r': "mark_verified 0 r = Some r'"
        using False by (simp add: mark_verified_def r)
      have "register_boot_cpu hw ok g = Some (Inr 0, ?g\<lparr>registry := r'\<rparr>)"
        using False reg Inr True r' i(1) by (simp add: register_boot_cpu_def r)
      then show ?thesis using registry_inv_verified [OF g, of 0 r'] r' by simp
    qed
  qed
qed

lemma register_secondary_inv:
  assumes inv: "registry_inv g"
  shows "\<exists>res g'. register_secondary_cpu hw identity_ok ok n g = Some (res, g') \<and> registry_inv g'"
proof (cases "expected_count g = 0 \<or> \<not> identity_ok \<or> registry_expected (registry g) = 0 \<or>
    expected_count g \<le> registry_count (registry g) \<or> registry_count (registry g) \<noteq> n")
  case True
  then show ?thesis using inv by (auto simp: register_secondary_cpu_def)
next
  case False
  obtain res r where reg: "registry_register hw n (registry g) = (res, r)" by fastforce
  have n: "n = registry_count (registry g)" using False by simp
  show ?thesis
  proof (cases res)
    case (Inl e)
    then show ?thesis using False reg inv registry_register_cases [OF reg] by (auto simp: register_secondary_cpu_def)
  next
    case (Inr i)
    have i: "i = n" "registry_count (registry g) \<noteq> KERNEL_CPU_CAPACITY"
      "\<forall>rec\<in>set (registered_records (registry g)). hardware rec \<noteq> hw"
      and r: "r = (registry g)\<lparr>records := (records (registry g))[n :=
              Some \<lparr>hardware = hw, bootstrap_slot = n, current_id_verified = False\<rparr>], registry_count := n + 1\<rparr>"
      using registry_register_cases [OF reg] Inr n by auto
    let ?g = "g\<lparr>registry := r, registered_count := n + 1, binding := (binding g)(hw := n + 1)\<rparr>"
    show ?thesis
    proof (cases ok)
      case no: False
      then show ?thesis
        using rollback_register [OF inv, of hw n i r] reg Inr inv False by (simp add: register_secondary_cpu_def)
    next
      case True
      have g: "registry_inv ?g" using registry_inv_append [OF inv i(2,3), of False] by (simp add: r n)
      have len: "n < length (records (registry g))" using registry_invD(1-3) [OF inv] i(2) n by simp
      then have "records (registry ?g) ! n = Some \<lparr>hardware = hw, bootstrap_slot = n, current_id_verified = False\<rparr>"
        by (simp add: r)
      then have cur: "current_id hw ?g = Inr n" using registry_inv_bound [OF g, of n] by simp
      obtain r' where r': "mark_verified n (registry ?g) = Some r'"
        using len by (simp add: mark_verified_def r)
      have "register_secondary_cpu hw identity_ok ok n g = Some (Inr n, ?g\<lparr>registry := r'\<rparr>)"
        using False reg Inr True cur r' i(1) by (simp add: register_secondary_cpu_def r Let_def)
      then show ?thesis using registry_inv_verified [OF g r'] by blast
    qed
  qed
qed

lemma registry_inv_cong:
  assumes "records (registry g') = records (registry g)" "registry_count (registry g') = registry_count (registry g)"
    "registered_count g' = registered_count g" "binding g' = binding g"
  shows "registry_inv g' \<longleftrightarrow> registry_inv g"
  unfolding registry_inv_def assms ..

lemma cpu_step_inv: "cpu_step g g' \<Longrightarrow> registry_inv g \<Longrightarrow> registry_inv g'"
proof (induction rule: cpu_step.induct)
  case (boot hw bind_ok g res g')
  then show ?case using register_boot_inv [of g hw bind_ok] by auto
next
  case (configure cap arch_expected n g res g')
  then have "registry_inv g' \<longleftrightarrow> registry_inv g"
    by (intro registry_inv_cong) (auto simp: configure_expected_count_def split: if_splits)
  with configure show ?case by simp
next
  case (secondary hw identity_ok bind_ok n g res g')
  then show ?case using register_secondary_inv [of g hw identity_ok bind_ok n] by auto
next
  case (failure g)
  then show ?case
    by (subst registry_inv_cong [where g = g]) (simp_all add: record_secondary_startup_failure_def)
qed

lemma cpu_steps_inv: "cpu_step\<^sup>*\<^sup>* cpu_globals_new g \<Longrightarrow> registry_inv g"
  by (induction rule: rtranclp_induct) (auto intro: registry_inv_new cpu_step_inv)

text \<open>
  C18. Whatever order CPUs boot in and however the architecture answers, registration never
  panics, a logical identity resolves for one hardware CPU only, and every registered CPU owns
  the bootstrap stack of its own index.
\<close>

theorem cpu_identities_unique:
  assumes "cpu_step\<^sup>*\<^sup>* cpu_globals_new g"
  shows "(current_id hw g = Inr i \<and> current_id hw' g = Inr i \<longrightarrow> hw = hw') \<and>
    (current_id hw g = Inr i \<longrightarrow> i < registered_count g \<and> registered_count g \<le> KERNEL_CPU_CAPACITY \<and>
       (\<exists>rec. records (registry g) ! i = Some rec \<and> bootstrap_slot rec = i)) \<and>
    register_boot_cpu hw ok g \<noteq> None \<and> register_secondary_cpu hw identity_ok ok n g \<noteq> None"
proof -
  note inv = cpu_steps_inv [OF assms]
  have cap: "registered_count g \<le> KERNEL_CPU_CAPACITY" using inv by (simp add: registry_inv_def)
  have slot: "bootstrap_slot rec = j" if "j < registered_count g" "records (registry g) ! j = Some rec" for j rec
    using inv that by (auto simp: registry_inv_def)
  show ?thesis
    using registry_inv_current_id [OF inv] cap slot register_boot_inv [OF inv, of hw ok]
      register_secondary_inv [OF inv, of hw identity_ok ok n]
    by (metis option.distinct(1) option.inject)
qed

text \<open>The witness boots two CPUs; each resolves to its own identity.\<close>

definition two_cpus :: cpu_globals where
  "two_cpus = (let g = snd (the (register_boot_cpu 256 True cpu_globals_new));
                   g = snd (configure_expected_count 4 2 2 g)
               in snd (the (register_secondary_cpu 257 True True 1 g)))"

theorem cpu_identities_unique_witness:
  "cpu_step\<^sup>*\<^sup>* cpu_globals_new two_cpus \<and> current_id 256 two_cpus = Inr 0 \<and> current_id 257 two_cpus = Inr 1 \<and>
   register_secondary_cpu 258 True True 2 two_cpus \<noteq> None"
proof -
  let ?g1 = "snd (the (register_boot_cpu 256 True cpu_globals_new))"
  let ?g2 = "snd (configure_expected_count 4 2 2 ?g1)"
  have b: "register_boot_cpu 256 True cpu_globals_new \<noteq> None" "register_secondary_cpu 257 True True 1 ?g2 \<noteq> None"
    by code_simp+
  have "cpu_step cpu_globals_new ?g1"
    using b(1) by (intro cpu_step.boot [of 256 True _ "fst (the (register_boot_cpu 256 True cpu_globals_new))"]) auto
  moreover have "cpu_step ?g1 ?g2" by (rule cpu_step.configure [of 4 2 2 _ "fst (configure_expected_count 4 2 2 ?g1)"]) simp
  moreover have "cpu_step ?g2 two_cpus"
    using b(2) by (intro cpu_step.secondary [of 257 True True 1 _ "fst (the (register_secondary_cpu 257 True True 1 ?g2))"])
      (auto simp: two_cpus_def Let_def)
  ultimately have reach: "cpu_step\<^sup>*\<^sup>* cpu_globals_new two_cpus" by auto
  have ids: "current_id 256 two_cpus = Inr 0" "current_id 257 two_cpus = Inr 1" by code_simp+
  from cpu_identities_unique [OF reach, of 256 0 257 True True 2] reach ids show ?thesis
    using cpu_identities_unique [OF reach, of 258 0 258 True True 2] by blast
qed

end
