(* ===== verification/Kernel_Time.thy ===== *)
theory Kernel_Time
  imports Deadline_Queue Timebase Preempt Vm_Active Cpu
begin

text \<open>
  The machine state the kernel's subsystems share, and the time subsystem over it
  (\<^verbatim>\<open>kernel/src/time.rs\<close>, \<open>TimeState\<close> and the functions from
  \<open>init_cpu_states\<close> on): each CPU owns a deadline queue and a one-shot hardware timer.
  The main results are that the hardware timer of a CPU is never armed later than its earliest
  deadline, and that a timer interrupt takes exactly the due events.
\<close>

section \<open>Machine state\<close>

text \<open>
  One CPU executes at a time (the kernel's locks serialise the steps modelled here); arrays
  indexed by \<open>CpuId\<close> are functions, since the index of a \<open>CpuId\<close> is below the
  capacity by construction. The hardware counter is a sequence of readings. The fields
  \<open>ipi_ok\<close>, \<open>arch_activate\<close> and \<open>arch_clear\<close> are the answers of the
  architecture hooks; \<open>ipi_sent\<close> logs the notifications sent.
\<close>

record expired_events =
  expired_entries :: "timed_event option list"
  expired_len :: usize

record time_state =
  time_queue :: deadline_queue
  armed_timer_deadline :: "u64 option"
  dispatching_irq :: bool
  time_expired :: "expired_events option"

record machine =
  executing :: cpu_id
  cpus_registered :: usize
  clock :: "nat \<Rightarrow> u64"
  clock_reads :: nat
  counter_freq :: u64
  hw_timer :: "cpu_id \<Rightarrow> u64 option"
  cpu_time :: "cpu_id \<Rightarrow> time_state option"
  cpu_preemption :: "cpu_id \<Rightarrow> preemption_state"
  user_spaces :: user_spaces
  ipi_ok :: "cpu_id \<Rightarrow> bool"
  ipi_sent :: "cpu_id list"
  arch_activate :: "phys_addr \<Rightarrow> u64"
  arch_clear :: u64

text \<open>\<open>current_cpu\<close> panics when the executing CPU has no registered logical identity.\<close>

definition current_cpu :: "'a machine_scheme \<Rightarrow> cpu_id option" where
  "current_cpu m =
     (if executing m < KERNEL_CPU_CAPACITY \<and> executing m < cpus_registered m then Some (executing m) else None)"

definition now_counter :: "'a machine_scheme \<Rightarrow> u64 \<times> 'a machine_scheme" where
  "now_counter m = (clock m (clock_reads m), m\<lparr>clock_reads := clock_reads m + 1\<rparr>)"

section \<open>Preemption state of a CPU\<close>

definition with_state :: "cpu_id \<Rightarrow> (preemption_state \<Rightarrow> ('r \<times> preemption_state) option) \<Rightarrow>
    'a machine_scheme \<Rightarrow> ('r \<times> 'a machine_scheme) option" where
  "with_state cpu f m = do {
     c \<leftarrow> current_cpu m;
     panic_if (c \<noteq> cpu);
     (r, p) \<leftarrow> f (cpu_preemption m cpu);
     Some (r, m\<lparr>cpu_preemption := (cpu_preemption m)(cpu := p)\<rparr>)
   }"

definition is_disabled :: "'a machine_scheme \<Rightarrow> bool option" where
  "is_disabled m = do { c \<leftarrow> current_cpu m; Some (preempt_is_disabled (cpu_preemption m c)) }"

definition request_reschedule :: "'a machine_scheme \<Rightarrow> 'a machine_scheme option" where
  "request_reschedule m = do {
     c \<leftarrow> current_cpu m;
     (_, m) \<leftarrow> with_state c (\<lambda>p. Some ((), preempt_request p)) m;
     Some m
   }"

definition request_reschedule_on :: "cpu_id \<Rightarrow> 'a machine_scheme \<Rightarrow> 'a machine_scheme option" where
  "request_reschedule_on cpu m = do {
     c \<leftarrow> current_cpu m;
     if c \<noteq> cpu then Some m
     else do {
       (_, m) \<leftarrow> with_state cpu (\<lambda>p. Some ((), preempt_request p)) m;
       Some m
     }
   }"

definition consume_checkpoint_on :: "cpu_id \<Rightarrow> bool \<Rightarrow> 'a machine_scheme \<Rightarrow> (bool \<times> 'a machine_scheme) option" where
  "consume_checkpoint_on cpu online m = do {
     c \<leftarrow> current_cpu m;
     panic_if (c \<noteq> cpu);
     with_state cpu (\<lambda>p. Some (consume_checkpoint online p)) m
   }"

definition assert_preemption_enabled_on :: "cpu_id \<Rightarrow> 'a machine_scheme \<Rightarrow> unit option" where
  "assert_preemption_enabled_on cpu m = do {
     c \<leftarrow> current_cpu m;
     panic_if (c \<noteq> cpu);
     assert_enabled (cpu_preemption m cpu)
   }"

definition assert_pre_scheduler_state_quiescent :: "cpu_id \<Rightarrow> 'a machine_scheme \<Rightarrow> unit option" where
  "assert_pre_scheduler_state_quiescent cpu m =
     panic_if (disable_depth (cpu_preemption m cpu) \<noteq> 0 \<or> reschedule_pending (cpu_preemption m cpu))"

section \<open>Expired-event buffers\<close>

definition expired_try_new :: "usize \<Rightarrow> expired_events" where
  "expired_try_new capacity = \<lparr>expired_entries = replicate capacity None, expired_len = 0\<rparr>"

definition expired_push :: "timed_event \<Rightarrow> expired_events \<Rightarrow> expired_events option" where
  "expired_push ev x = do {
     panic_if (length (expired_entries x) \<le> expired_len x);
     Some (x\<lparr>expired_entries := (expired_entries x)[expired_len x := Some ev], expired_len := expired_len x + 1\<rparr>)
   }"

text \<open>An empty slot below the length is a panic.\<close>

fun expect_all :: "'a option list \<Rightarrow> 'a list option" where
  "expect_all [] = Some []"
| "expect_all (None # xs) = None"
| "expect_all (Some x # xs) = map_option (Cons x) (expect_all xs)"

definition expired_iter :: "expired_events \<Rightarrow> timed_event list option" where
  "expired_iter x = expect_all (take (expired_len x) (expired_entries x))"

definition expired_single :: "expired_events \<Rightarrow> timed_event option option" where
  "expired_single x =
     (if expired_len x = 1 then do { e \<leftarrow> idx (expired_entries x) 0; ev \<leftarrow> e; Some (Some ev) } else Some None)"

section \<open>Time state of a CPU\<close>

definition time_state_new :: "usize \<Rightarrow> time_state" where
  "time_state_new capacity =
     \<lparr>time_queue = dq_with_capacity capacity, armed_timer_deadline = None, dispatching_irq = False,
      time_expired = Some (expired_try_new capacity)\<rparr>"

text \<open>The architecture programs the timer of the executing CPU.\<close>

definition program_timer_deadline :: "u64 option \<Rightarrow> 'a machine_scheme \<Rightarrow> 'a machine_scheme" where
  "program_timer_deadline d m = m\<lparr>hw_timer := (hw_timer m)(executing m := d)\<rparr>"

definition rearm_timer :: "time_state \<Rightarrow> 'a machine_scheme \<Rightarrow> time_state \<times> 'a machine_scheme" where
  "rearm_timer ts m =
     (let next = dq_next_deadline (time_queue ts)
      in (ts\<lparr>armed_timer_deadline := next\<rparr>, program_timer_deadline next m))"

definition ts_schedule_event :: "u64 \<Rightarrow> timed_event \<Rightarrow> time_state \<Rightarrow> time_state option" where
  "ts_schedule_event d ev ts = do {
     q \<leftarrow> dq_schedule d ev (time_queue ts);
     Some (ts\<lparr>time_queue := q\<rparr>)
   }"

definition ts_cancel_event ::
  "timed_event \<Rightarrow> bool \<Rightarrow> time_state \<Rightarrow> 'a machine_scheme \<Rightarrow> (bool \<times> time_state \<times> 'a machine_scheme) option" where
  "ts_cancel_event ev rearm ts m = do {
     (canceled, q) \<leftarrow> dq_cancel ev (time_queue ts);
     let ts = ts\<lparr>time_queue := q\<rparr>;
     let (ts, m) = (if canceled \<and> \<not> dispatching_irq ts \<and> rearm then rearm_timer ts m else (ts, m));
     Some (canceled, ts, m)
   }"

definition ts_publish_sleep ::
  "u64 \<Rightarrow> wait_token \<Rightarrow> time_state \<Rightarrow> 'a machine_scheme \<Rightarrow> (time_state \<times> 'a machine_scheme) option" where
  "ts_publish_sleep d token ts m = do {
     (_, ts, m) \<leftarrow> ts_cancel_event (quantum_expired (wt_cpu token) (wt_thread token)) False ts m;
     ts \<leftarrow> ts_schedule_event d (wait_deadline token) ts;
     Some (if \<not> dispatching_irq ts then rearm_timer ts m else (ts, m))
   }"

lemma expired_push_measure:
  "expired_push ev x = Some y \<Longrightarrow>
    length (expired_entries y) - expired_len y < length (expired_entries x) - expired_len x"
  by (auto simp: expired_push_def split: if_splits)

function take_expired_loop ::
  "cpu_id \<Rightarrow> u64 \<Rightarrow> deadline_queue \<Rightarrow> expired_events \<Rightarrow> (deadline_queue \<times> expired_events) option" where
  "take_expired_loop cpu now q x = do {
     (r, q) \<leftarrow> dq_pop_expired now q;
     case r of
       None \<Rightarrow> Some (q, x)
     | Some ev \<Rightarrow> do {
         panic_if (event_cpu ev \<noteq> cpu);
         x \<leftarrow> expired_push ev x;
         take_expired_loop cpu now q x
       }
   }"
  by pat_completeness auto
termination
  by (relation "measure (\<lambda>(_, _, _, x). length (expired_entries x) - expired_len x)")
    (auto intro: expired_push_measure)

declare take_expired_loop.simps [simp del]

definition take_expired :: "cpu_id \<Rightarrow> u64 \<Rightarrow> time_state \<Rightarrow> (expired_events \<times> time_state) option" where
  "take_expired cpu now ts = do {
     x \<leftarrow> time_expired ts;
     (q, x) \<leftarrow> take_expired_loop cpu now (time_queue ts) x;
     Some (x, ts\<lparr>dispatching_irq := True, time_expired := None, time_queue := q\<rparr>)
   }"

section \<open>The time subsystem's entry points\<close>

definition TIMED_EVENT_CAPACITY_PER_THREAD :: usize where
  "TIMED_EVENT_CAPACITY_PER_THREAD = 3"

datatype time_init_error = InvalidCpuCount | TimeAlreadyInitialized | CapacityOverflow | TimeOutOfMemory

text \<open>\<open>reserve_ok i\<close> tells whether the reservations for the \<open>i\<close>-th queue succeed.\<close>

definition init_cpu_states ::
  "(nat \<Rightarrow> bool) \<Rightarrow> usize \<Rightarrow> 'a machine_scheme \<Rightarrow> (time_init_error + unit) \<times> 'a machine_scheme" where
  "init_cpu_states reserve_ok cpu_count m =
     (if cpu_count = 0 \<or> KERNEL_CPU_CAPACITY < cpu_count then (Inl InvalidCpuCount, m)
      else case checked_mul_usize KERNEL_THREAD_CAPACITY TIMED_EVENT_CAPACITY_PER_THREAD of
          None \<Rightarrow> (Inl CapacityOverflow, m)
        | Some deadline_capacity \<Rightarrow>
            if list_ex (\<lambda>c. cpu_time m c \<noteq> None) [0..<cpu_count] then (Inl TimeAlreadyInitialized, m)
            else if \<not> list_all reserve_ok [0..<cpu_count] then (Inl TimeOutOfMemory, m)
            else (Inr (), m\<lparr>cpu_time := \<lambda>c. if c < cpu_count then Some (time_state_new deadline_capacity)
                    else cpu_time m c\<rparr>))"

definition schedule_event :: "u64 \<Rightarrow> timed_event \<Rightarrow> 'a machine_scheme \<Rightarrow> 'a machine_scheme option" where
  "schedule_event d ev m = do {
     cpu \<leftarrow> current_cpu m;
     panic_if (event_cpu ev \<noteq> cpu);
     ts \<leftarrow> cpu_time m cpu;
     ts \<leftarrow> ts_schedule_event d ev ts;
     let (ts, m) = (if \<not> dispatching_irq ts then rearm_timer ts m else (ts, m));
     Some (m\<lparr>cpu_time := (cpu_time m)(cpu \<mapsto> ts)\<rparr>)
   }"

definition publish_sleep :: "u64 \<Rightarrow> wait_token \<Rightarrow> 'a machine_scheme \<Rightarrow> 'a machine_scheme option" where
  "publish_sleep d token m = do {
     cpu \<leftarrow> current_cpu m;
     panic_if (wt_cpu token \<noteq> cpu);
     ts \<leftarrow> cpu_time m cpu;
     (ts, m) \<leftarrow> ts_publish_sleep d token ts m;
     Some (m\<lparr>cpu_time := (cpu_time m)(cpu \<mapsto> ts)\<rparr>)
   }"

definition cancel_event :: "timed_event \<Rightarrow> 'a machine_scheme \<Rightarrow> 'a machine_scheme option" where
  "cancel_event ev m = do {
     current \<leftarrow> current_cpu m;
     let owner = event_cpu ev;
     ts \<leftarrow> cpu_time m owner;
     (_, ts, m) \<leftarrow> ts_cancel_event ev (current = owner) ts m;
     Some (m\<lparr>cpu_time := (cpu_time m)(owner \<mapsto> ts)\<rparr>)
   }"

definition event_pending :: "timed_event \<Rightarrow> 'a machine_scheme \<Rightarrow> bool option" where
  "event_pending ev m = do {
     ts \<leftarrow> cpu_time m (event_cpu ev);
     Some (dq_event_pending ev (time_queue ts))
   }"

text \<open>
  The timer interrupt has two critical sections around the scheduler's part: taking the expired
  batch, and applying the scheduler's quantum intent before the timer is armed again.
\<close>

record quantum_update =
  obsolete :: "timed_event option"
  ensure :: "(u64 \<times> timed_event) option"

definition timer_interrupt_begin ::
  "cpu_id \<Rightarrow> 'a machine_scheme \<Rightarrow> ((u64 \<times> expired_events) option \<times> 'a machine_scheme) option" where
  "timer_interrupt_begin cpu m =
     (case cpu_time m cpu of
        None \<Rightarrow> Some (None, program_timer_deadline None m)
      | Some ts \<Rightarrow> do {
          let (now, m) = now_counter m;
          (x, ts) \<leftarrow> take_expired cpu now ts;
          Some (Some (now, x), m\<lparr>cpu_time := (cpu_time m)(cpu \<mapsto> ts)\<rparr>)
        })"

definition timer_interrupt_end ::
  "cpu_id \<Rightarrow> quantum_update \<Rightarrow> expired_events \<Rightarrow> 'a machine_scheme \<Rightarrow> 'a machine_scheme option" where
  "timer_interrupt_end cpu quantum x m = do {
     ts \<leftarrow> cpu_time m cpu;
     (ts, m) \<leftarrow> (case obsolete quantum of
         Some ev \<Rightarrow> do { (_, ts, m) \<leftarrow> ts_cancel_event ev False ts m; Some (ts, m) }
       | None \<Rightarrow> Some (ts, m));
     ts \<leftarrow> (case ensure quantum of
         Some (d, ev) \<Rightarrow> if \<not> dq_event_pending ev (time_queue ts) then ts_schedule_event d ev ts else Some ts
       | None \<Rightarrow> Some ts);
     let ts = ts\<lparr>time_expired := Some (x\<lparr>expired_len := 0\<rparr>), dispatching_irq := False\<rparr>;
     let (ts, m) = rearm_timer ts m;
     Some (m\<lparr>cpu_time := (cpu_time m)(cpu \<mapsto> ts)\<rparr>)
   }"

section \<open>The timer is never armed late\<close>

text \<open>
  The invariant of one CPU's time state, given what its hardware timer is set to. Outside the
  dispatch of a timer interrupt the transfer buffer is present, empty and large enough, and the
  timer is armed no later than any deadline of the queue.
\<close>

definition timer_covers :: "u64 option \<Rightarrow> (timed_event \<Rightarrow> u64 option) \<Rightarrow> bool" where
  "timer_covers hw tm \<longleftrightarrow> (\<forall>ev d. tm ev = Some d \<longrightarrow> (\<exists>a. hw = Some a \<and> a \<le> d))"

definition buffer_ready :: "usize \<Rightarrow> expired_events option \<Rightarrow> bool" where
  "buffer_ready cap b \<longleftrightarrow> (\<exists>x. b = Some x \<and> expired_len x = 0 \<and> cap \<le> length (expired_entries x))"

definition ts_ok :: "cpu_id \<Rightarrow> u64 option \<Rightarrow> time_state \<Rightarrow> bool" where
  "ts_ok c hw ts \<longleftrightarrow>
     dq_inv (time_queue ts) \<and> (\<forall>ev\<in>dom (dq_abs (time_queue ts)). event_cpu ev = c) \<and>
     (if dispatching_irq ts then time_expired ts = None
      else buffer_ready (queue_capacity (time_queue ts)) (time_expired ts) \<and>
        timer_covers hw (dq_abs (time_queue ts)))"

definition time_inv :: "'a machine_scheme \<Rightarrow> bool" where
  "time_inv m \<longleftrightarrow> (\<forall>c ts. cpu_time m c = Some ts \<longrightarrow> ts_ok c (hw_timer m c) ts)"

text \<open>
  The abstraction of the time subsystem: per CPU, the map from pending events to deadlines,
  whether a timer interrupt is being dispatched, and the capacity.
\<close>

type_synonym abs_time = "cpu_id \<Rightarrow> ((timed_event \<Rightarrow> u64 option) \<times> bool \<times> usize) option"

definition ts_abs :: "time_state \<Rightarrow> (timed_event \<Rightarrow> u64 option) \<times> bool \<times> usize" where
  "ts_abs ts = (dq_abs (time_queue ts), dispatching_irq ts, queue_capacity (time_queue ts))"

definition time_abs :: "'a machine_scheme \<Rightarrow> abs_time" where
  "time_abs m c = map_option ts_abs (cpu_time m c)"

lemma time_abs_Some:
  "time_abs m c = Some (tm, b, cap) \<longleftrightarrow>
    (\<exists>ts. cpu_time m c = Some ts \<and> dq_abs (time_queue ts) = tm \<and> dispatching_irq ts = b \<and>
       queue_capacity (time_queue ts) = cap)"
  by (auto simp: time_abs_def ts_abs_def)

lemma time_inv_upd:
  assumes "time_inv m" "ts_ok c h ts"
  shows "time_inv (m\<lparr>hw_timer := (hw_timer m)(c := h), cpu_time := (cpu_time m)(c \<mapsto> ts)\<rparr>)"
  using assms by (auto simp: time_inv_def)

lemma time_inv_upd_queue:
  assumes "time_inv m" "ts_ok c (hw_timer m c) ts"
  shows "time_inv (m\<lparr>cpu_time := (cpu_time m)(c \<mapsto> ts)\<rparr>)"
  using assms by (auto simp: time_inv_def)

lemma timer_covers_next:
  assumes "dq_inv q"
  shows "timer_covers (dq_next_deadline q) (dq_abs q)"
  unfolding timer_covers_def
proof (intro allI impI)
  fix ev d assume d: "dq_abs q ev = Some d"
  then have "dq_next_deadline q \<noteq> None" using dq.next_none [OF assms] by auto
  with dq.next_least [OF assms] d show "\<exists>a. dq_next_deadline q = Some a \<and> a \<le> d" by auto
qed

lemma timer_covers_mono: "timer_covers hw tm \<Longrightarrow> tm' \<subseteq>\<^sub>m tm \<Longrightarrow> timer_covers hw tm'"
  by (auto simp: timer_covers_def map_le_def dom_def)

lemma ts_ok_rearmed:
  assumes "dq_inv (time_queue ts)" "\<forall>ev\<in>dom (dq_abs (time_queue ts)). event_cpu ev = c"
    "\<not> dispatching_irq ts" "buffer_ready (queue_capacity (time_queue ts)) (time_expired ts)"
    "rearm_timer ts m = (ts', m')"
  shows "ts_ok c (dq_next_deadline (time_queue ts)) ts'" "ts_abs ts' = ts_abs ts"
    "m' = m\<lparr>hw_timer := (hw_timer m)(executing m := dq_next_deadline (time_queue ts))\<rparr>"
  using assms timer_covers_next
  by (auto simp: rearm_timer_def Let_def ts_ok_def ts_abs_def program_timer_deadline_def)

lemma current_cpu_executing: "current_cpu m = Some c \<Longrightarrow> executing m = c \<and> c < KERNEL_CPU_CAPACITY"
  by (auto simp: current_cpu_def split: if_splits)

text \<open>Each entry point is an update of the abstraction, and keeps the invariant.\<close>

lemma schedule_event_ok:
  assumes inv: "time_inv m" and cpu: "current_cpu m = Some c" "event_cpu ev = c"
    and abs: "time_abs m c = Some (tm, b, cap)" and room: "ev \<in> dom tm \<or> card (dom tm) < cap"
  shows "\<exists>h t. schedule_event d ev m = Some (m\<lparr>hw_timer := h, cpu_time := t\<rparr>) \<and>
    time_inv (m\<lparr>hw_timer := h, cpu_time := t\<rparr>) \<and>
    time_abs (m\<lparr>hw_timer := h, cpu_time := t\<rparr>) = (time_abs m)(c \<mapsto> (tm(ev \<mapsto> d), b, cap))"
proof -
  obtain ts where ts: "cpu_time m c = Some ts" "dq_abs (time_queue ts) = tm" "dispatching_irq ts = b"
    "queue_capacity (time_queue ts) = cap" using abs by (auto simp: time_abs_Some)
  have ok: "ts_ok c (hw_timer m c) ts" using inv ts(1) by (simp add: time_inv_def)
  then have q: "dq_inv (time_queue ts)" by (simp add: ts_ok_def)
  obtain q' where q': "dq_schedule d ev (time_queue ts) = Some q'" "dq_inv q'" "dq_abs q' = tm(ev \<mapsto> d)"
    "queue_capacity q' = cap"
    using dq.schedule_ok [OF q, of ev d] room ts by (auto simp: dom_def)
  let ?ts = "ts\<lparr>time_queue := q'\<rparr>"
  have own: "\<forall>ev\<in>dom (dq_abs (time_queue ?ts)). event_cpu ev = c"
    using ok cpu(2) ts(2) q'(3) by (auto simp: ts_ok_def)
  show ?thesis
  proof (cases b)
    case True
    have "schedule_event d ev m = Some (m\<lparr>cpu_time := (cpu_time m)(c \<mapsto> ?ts)\<rparr>)"
      using cpu ts True q'(1) by (simp add: schedule_event_def ts_schedule_event_def)
    moreover have "ts_ok c (hw_timer m c) ?ts" using ok own q' ts(3) True by (simp add: ts_ok_def)
    moreover have "time_abs (m\<lparr>cpu_time := (cpu_time m)(c \<mapsto> ?ts)\<rparr>) = (time_abs m)(c \<mapsto> (tm(ev \<mapsto> d), b, cap))"
      using q' ts by (auto simp: time_abs_def ts_abs_def fun_eq_iff)
    moreover have "m\<lparr>cpu_time := t\<rparr> = m\<lparr>hw_timer := hw_timer m, cpu_time := t\<rparr>" for t by simp
    ultimately show ?thesis using time_inv_upd_queue [OF inv, of c ?ts] by metis
  next
    case False
    obtain ts' m' where re: "rearm_timer ?ts m = (ts', m')" by fastforce
    have buf: "buffer_ready (queue_capacity (time_queue ?ts)) (time_expired ?ts)"
      using ok ts False q'(4) by (simp add: ts_ok_def)
    note r = ts_ok_rearmed [OF _ own _ buf re]
    have "schedule_event d ev m = Some (m\<lparr>hw_timer := (hw_timer m)(c := dq_next_deadline q'),
        cpu_time := (cpu_time m)(c \<mapsto> ts')\<rparr>)"
      using cpu ts False q'(1,2) re r current_cpu_executing [OF cpu(1)]
      by (simp add: schedule_event_def ts_schedule_event_def)
    moreover have "time_inv (m\<lparr>hw_timer := (hw_timer m)(c := dq_next_deadline q'), cpu_time := (cpu_time m)(c \<mapsto> ts')\<rparr>)"
      using time_inv_upd [OF inv] r q'(2) ts(3) False by simp
    moreover have "time_abs (m\<lparr>hw_timer := (hw_timer m)(c := dq_next_deadline q'), cpu_time := (cpu_time m)(c \<mapsto> ts')\<rparr>)
        = (time_abs m)(c \<mapsto> (tm(ev \<mapsto> d), b, cap))"
      using r(2) q' ts False by (auto simp: time_abs_def ts_abs_def fun_eq_iff)
    ultimately show ?thesis by blast
  qed
qed

lemma cancel_event_ok:
  assumes inv: "time_inv m" and cpu: "current_cpu m = Some c'" and owner: "event_cpu ev = c"
    and abs: "time_abs m c = Some (tm, b, cap)"
  shows "\<exists>h t. cancel_event ev m = Some (m\<lparr>hw_timer := h, cpu_time := t\<rparr>) \<and>
    time_inv (m\<lparr>hw_timer := h, cpu_time := t\<rparr>) \<and>
    time_abs (m\<lparr>hw_timer := h, cpu_time := t\<rparr>) = (time_abs m)(c \<mapsto> (tm(ev := None), b, cap))"
proof -
  obtain ts where ts: "cpu_time m c = Some ts" "dq_abs (time_queue ts) = tm" "dispatching_irq ts = b"
    "queue_capacity (time_queue ts) = cap" using abs by (auto simp: time_abs_Some)
  have ok: "ts_ok c (hw_timer m c) ts" using inv ts(1) by (simp add: time_inv_def)
  then have q: "dq_inv (time_queue ts)" by (simp add: ts_ok_def)
  obtain q' where q': "dq_cancel ev (time_queue ts) = Some (tm ev \<noteq> None, q')" "dq_inv q'"
    "dq_abs q' = tm(ev := None)" "queue_capacity q' = cap"
    using dq.cancel_ok [OF q, of ev] ts by auto
  let ?ts = "ts\<lparr>time_queue := q'\<rparr>"
  have own: "\<forall>ev\<in>dom (dq_abs (time_queue ?ts)). event_cpu ev = c"
    using ok ts(2) q'(3) by (auto simp: ts_ok_def split: if_splits)
  show ?thesis
  proof (cases "tm ev \<noteq> None \<and> \<not> b \<and> c' = c")
    case True
    obtain ts' m' where re: "rearm_timer ?ts m = (ts', m')" by fastforce
    have buf: "buffer_ready (queue_capacity (time_queue ?ts)) (time_expired ?ts)"
      using ok ts True q'(4) by (simp add: ts_ok_def)
    note r = ts_ok_rearmed [OF _ own _ buf re]
    have "cancel_event ev m = Some (m\<lparr>hw_timer := (hw_timer m)(c := dq_next_deadline q'),
        cpu_time := (cpu_time m)(c \<mapsto> ts')\<rparr>)"
      using cpu owner ts True q'(1,2) re r current_cpu_executing [OF cpu]
      by (simp add: cancel_event_def ts_cancel_event_def)
    moreover have "time_inv (m\<lparr>hw_timer := (hw_timer m)(c := dq_next_deadline q'), cpu_time := (cpu_time m)(c \<mapsto> ts')\<rparr>)"
      using time_inv_upd [OF inv] r q'(2) ts(3) True by simp
    moreover have "time_abs (m\<lparr>hw_timer := (hw_timer m)(c := dq_next_deadline q'), cpu_time := (cpu_time m)(c \<mapsto> ts')\<rparr>)
        = (time_abs m)(c \<mapsto> (tm(ev := None), b, cap))"
      using r(2) q' ts True by (auto simp: time_abs_def ts_abs_def fun_eq_iff)
    ultimately show ?thesis by blast
  next
    case False
    have "cancel_event ev m = Some (m\<lparr>cpu_time := (cpu_time m)(c \<mapsto> ?ts)\<rparr>)"
      using cpu owner ts False q'(1) by (auto simp: cancel_event_def ts_cancel_event_def Let_def)
    moreover have "tm(ev := None) \<subseteq>\<^sub>m tm" by (auto simp: map_le_def)
    then have "ts_ok c (hw_timer m c) ?ts"
      using ok own q' ts by (auto simp: ts_ok_def intro: timer_covers_mono)
    moreover have "time_abs (m\<lparr>cpu_time := (cpu_time m)(c \<mapsto> ?ts)\<rparr>) = (time_abs m)(c \<mapsto> (tm(ev := None), b, cap))"
      using q' ts by (auto simp: time_abs_def ts_abs_def fun_eq_iff)
    moreover have "m\<lparr>cpu_time := t\<rparr> = m\<lparr>hw_timer := hw_timer m, cpu_time := t\<rparr>" for t by simp
    ultimately show ?thesis using time_inv_upd_queue [OF inv, of c ?ts] by metis
  qed
qed

lemma event_pending_ok:
  assumes "time_inv m" "time_abs m (event_cpu ev) = Some (tm, b, cap)"
  shows "event_pending ev m = Some (ev \<in> dom tm)"
proof -
  obtain ts where ts: "cpu_time m (event_cpu ev) = Some ts" "dq_abs (time_queue ts) = tm"
    using assms(2) by (auto simp: time_abs_Some)
  then have "dq_inv (time_queue ts)" using assms(1) by (auto simp: time_inv_def ts_ok_def)
  with dq.pending_iff [of "time_queue ts" ev] ts show ?thesis by (auto simp: event_pending_def)
qed

lemma publish_sleep_ok:
  assumes inv: "time_inv m" and cpu: "current_cpu m = Some c" "wt_cpu token = c"
    and abs: "time_abs m c = Some (tm, b, cap)"
    and room: "wait_deadline token \<in> dom tm \<or> card (dom (tm(quantum_expired c (wt_thread token) := None))) < cap"
  shows "\<exists>h t. publish_sleep d token m = Some (m\<lparr>hw_timer := h, cpu_time := t\<rparr>) \<and>
    time_inv (m\<lparr>hw_timer := h, cpu_time := t\<rparr>) \<and>
    time_abs (m\<lparr>hw_timer := h, cpu_time := t\<rparr>) =
      (time_abs m)(c \<mapsto> (tm(quantum_expired c (wt_thread token) := None, wait_deadline token \<mapsto> d), b, cap))"
proof -
  let ?qe = "quantum_expired c (wt_thread token)" and ?wd = "wait_deadline token"
  obtain ts where ts: "cpu_time m c = Some ts" "dq_abs (time_queue ts) = tm" "dispatching_irq ts = b"
    "queue_capacity (time_queue ts) = cap" using abs by (auto simp: time_abs_Some)
  have ok: "ts_ok c (hw_timer m c) ts" using inv ts(1) by (simp add: time_inv_def)
  then have q: "dq_inv (time_queue ts)" by (simp add: ts_ok_def)
  obtain q1 where q1: "dq_cancel ?qe (time_queue ts) = Some (tm ?qe \<noteq> None, q1)" "dq_inv q1"
    "dq_abs q1 = tm(?qe := None)" "queue_capacity q1 = cap"
    using dq.cancel_ok [OF q, of ?qe] ts by auto
  have ne: "?wd \<noteq> ?qe" by (simp add: wait_deadline_def quantum_expired_def)
  then have "dq_abs q1 ?wd \<noteq> None \<or> card (dom (dq_abs q1)) < queue_capacity q1"
    using room q1(3,4) by (auto simp: dom_def)
  then obtain q' where q': "dq_schedule d ?wd q1 = Some q'" "dq_inv q'"
    "dq_abs q' = tm(?qe := None, ?wd \<mapsto> d)" "queue_capacity q' = cap"
    using dq.schedule_ok [OF q1(2), of ?wd d] q1(3,4) by auto
  let ?ts = "ts\<lparr>time_queue := q'\<rparr>"
  have own: "\<forall>ev\<in>dom (dq_abs (time_queue ?ts)). event_cpu ev = c"
    using ok ts(2) q'(3) cpu(2) by (auto simp: ts_ok_def wait_deadline_def split: if_splits)
  have step: "publish_sleep d token m =
      (let (ts', m') = (if \<not> b then rearm_timer ?ts m else (?ts, m))
       in Some (m'\<lparr>cpu_time := (cpu_time m')(c \<mapsto> ts')\<rparr>))"
    using cpu ts q1(1) q'(1)
    by (auto simp: publish_sleep_def ts_publish_sleep_def ts_cancel_event_def ts_schedule_event_def
        split: prod.split)
  show ?thesis
  proof (cases b)
    case True
    have "ts_ok c (hw_timer m c) ?ts" using ok own q' ts(3) True by (simp add: ts_ok_def)
    moreover have "time_abs (m\<lparr>cpu_time := (cpu_time m)(c \<mapsto> ?ts)\<rparr>) =
        (time_abs m)(c \<mapsto> (tm(?qe := None, ?wd \<mapsto> d), b, cap))"
      using q' ts by (auto simp: time_abs_def ts_abs_def fun_eq_iff)
    moreover have "m\<lparr>hw_timer := hw_timer m, cpu_time := t\<rparr> = m\<lparr>cpu_time := t\<rparr>" for t by simp
    ultimately show ?thesis using step True time_inv_upd_queue [OF inv, of c ?ts]
      by (intro exI [of _ "hw_timer m"] exI [of _ "(cpu_time m)(c \<mapsto> ?ts)"]) simp
  next
    case False
    obtain ts' m' where re: "rearm_timer ?ts m = (ts', m')" by fastforce
    have buf: "buffer_ready (queue_capacity (time_queue ?ts)) (time_expired ?ts)"
      using ok ts False q'(4) by (simp add: ts_ok_def)
    note r = ts_ok_rearmed [OF _ own _ buf re]
    have "publish_sleep d token m = Some (m\<lparr>hw_timer := (hw_timer m)(c := dq_next_deadline q'),
        cpu_time := (cpu_time m)(c \<mapsto> ts')\<rparr>)"
      using step ts False re r q'(2) current_cpu_executing [OF cpu(1)] by simp
    moreover have "time_inv (m\<lparr>hw_timer := (hw_timer m)(c := dq_next_deadline q'), cpu_time := (cpu_time m)(c \<mapsto> ts')\<rparr>)"
      using time_inv_upd [OF inv] r q'(2) ts(3) False by simp
    moreover have "time_abs (m\<lparr>hw_timer := (hw_timer m)(c := dq_next_deadline q'), cpu_time := (cpu_time m)(c \<mapsto> ts')\<rparr>)
        = (time_abs m)(c \<mapsto> (tm(?qe := None, ?wd \<mapsto> d), b, cap))"
      using r(2) q' ts False by (auto simp: time_abs_def ts_abs_def fun_eq_iff)
    ultimately show ?thesis by blast
  qed
qed

section \<open>What a timer interrupt takes\<close>

text \<open>The batch held by a transfer buffer.\<close>

definition holds_events :: "expired_events \<Rightarrow> timed_event list \<Rightarrow> bool" where
  "holds_events x evs \<longleftrightarrow> expired_len x \<le> length (expired_entries x) \<and>
     take (expired_len x) (expired_entries x) = map Some evs"

lemma expect_all_map_Some [simp]: "expect_all (map Some xs) = Some xs"
  by (induction xs) auto

lemma holds_events_iter: "holds_events x evs \<Longrightarrow> expired_iter x = Some evs"
  by (simp add: holds_events_def expired_iter_def)

lemma holds_events_len: "holds_events x evs \<Longrightarrow> expired_len x = length evs"
  by (metis holds_events_def length_map length_take min.absorb2)

lemma holds_events_single:
  assumes "holds_events x evs"
  shows "expired_single x = Some (case evs of [ev] \<Rightarrow> Some ev | _ \<Rightarrow> None)"
proof (cases "expired_len x = 1")
  case True
  then obtain ev where ev: "evs = [ev]" using holds_events_len [OF assms] by (auto simp: length_Suc_conv)
  with assms True have "take 1 (expired_entries x) = [Some ev]" "1 \<le> length (expired_entries x)"
    by (auto simp: holds_events_def)
  then have "expired_entries x ! 0 = Some ev" "0 < length (expired_entries x)"
    by (cases "expired_entries x"; simp)+
  with True ev show ?thesis by (simp add: expired_single_def idx_def)
next
  case False
  then show ?thesis using holds_events_len [OF assms]
    by (auto simp: expired_single_def split: list.split)
qed

lemma expired_push_holds:
  assumes "holds_events x evs" "length evs < length (expired_entries x)"
  shows "\<exists>y. expired_push ev x = Some y \<and> holds_events y (evs @ [ev]) \<and>
    length (expired_entries y) = length (expired_entries x)"
proof -
  have len: "expired_len x = length evs" by (rule holds_events_len [OF assms(1)])
  let ?y = "x\<lparr>expired_entries := (expired_entries x)[expired_len x := Some ev], expired_len := expired_len x + 1\<rparr>"
  have "holds_events ?y (evs @ [ev])"
    using assms len by (simp add: holds_events_def take_Suc_conv_app_nth)
  moreover have "expired_push ev x = Some ?y" using assms(2) len by (simp add: expired_push_def)
  ultimately show ?thesis by auto
qed

text \<open>The loop computes the drain of the queue.\<close>

lemma take_expired_loop_drains:
  assumes "drains (dq_pop_expired now) q evs q'" "holds_events x pre" "\<forall>ev\<in>set evs. event_cpu ev = cpu"
    "length pre + length evs \<le> length (expired_entries x)"
  shows "\<exists>y. take_expired_loop cpu now q x = Some (q', y) \<and> holds_events y (pre @ evs) \<and>
    length (expired_entries y) = length (expired_entries x)"
  using assms
proof (induction arbitrary: x pre rule: drains.induct)
  case (drained q q')
  then show ?case by (subst take_expired_loop.simps) auto
next
  case (pop_one q ev q1 evs q')
  from pop_one.prems obtain y where y: "expired_push ev x = Some y" "holds_events y (pre @ [ev])"
    "length (expired_entries y) = length (expired_entries x)"
    using expired_push_holds [of x pre ev] by auto
  from pop_one.IH [OF y(2)] pop_one.prems y(3) obtain z where
    "take_expired_loop cpu now q1 y = Some (q', z)" "holds_events z ((pre @ [ev]) @ evs)"
    "length (expired_entries z) = length (expired_entries y)" by auto
  with pop_one.hyps(1) pop_one.prems(2) y(1,3) show ?case
    by (subst take_expired_loop.simps) auto
qed

lemma timer_interrupt_begin_ok:
  assumes inv: "time_inv m" and abs: "time_abs m c = Some (tm, False, cap)"
  defines "now \<equiv> clock m (clock_reads m)"
  shows "\<exists>x t evs. timer_interrupt_begin c m =
      Some (Some (now, x), m\<lparr>clock_reads := clock_reads m + 1, cpu_time := t\<rparr>) \<and>
    time_inv (m\<lparr>clock_reads := clock_reads m + 1, cpu_time := t\<rparr>) \<and>
    time_abs (m\<lparr>clock_reads := clock_reads m + 1, cpu_time := t\<rparr>) =
      (time_abs m)(c \<mapsto> (tm |` (- due tm now), True, cap)) \<and>
    holds_events x evs \<and> set evs = due tm now \<and> distinct evs \<and>
    sorted (map (\<lambda>ev. (the (tm ev), event_sort_key ev)) evs) \<and> cap \<le> length (expired_entries x)"
proof -
  obtain ts where ts: "cpu_time m c = Some ts" "dq_abs (time_queue ts) = tm" "\<not> dispatching_irq ts"
    "queue_capacity (time_queue ts) = cap" using abs by (auto simp: time_abs_Some)
  have ok: "ts_ok c (hw_timer m c) ts" using inv ts(1) by (simp add: time_inv_def)
  then have q: "dq_inv (time_queue ts)" and own: "\<forall>ev\<in>dom tm. event_cpu ev = c"
    using ts(2) by (auto simp: ts_ok_def)
  obtain x0 where x0: "time_expired ts = Some x0" "expired_len x0 = 0" "cap \<le> length (expired_entries x0)"
    using ok ts(3,4) by (auto simp: ts_ok_def buffer_ready_def)
  obtain evs q' where dr: "drains (dq_pop_expired now) (time_queue ts) evs q'" and evs: "set evs = due tm now"
    "distinct evs" "sorted (map (\<lambda>ev. (the (tm ev), event_sort_key ev)) evs)"
    and q': "dq_inv q'" "dq_abs q' = tm |` (- due tm now)" "queue_capacity q' = cap"
    using dq.drain_due [OF q, of now] ts(2,4) by auto
  have sub: "set evs \<subseteq> dom tm" using evs(1) by (auto simp: due_def)
  have "length evs = card (set evs)" using evs(2) by (simp add: distinct_card)
  also have "\<dots> \<le> card (dom tm)" using sub dq.finite_abs [OF q] ts(2) by (auto intro: card_mono)
  also have "\<dots> \<le> cap" using dq.finite_abs [OF q] ts(2,4) by auto
  finally have len: "length evs \<le> length (expired_entries x0)" using x0(3) by simp
  have "holds_events x0 []" using x0(2) by (simp add: holds_events_def)
  moreover have "\<forall>ev\<in>set evs. event_cpu ev = c" using own sub by blast
  ultimately obtain y where y: "take_expired_loop c now (time_queue ts) x0 = Some (q', y)" "holds_events y evs"
    "length (expired_entries y) = length (expired_entries x0)"
    using take_expired_loop_drains [OF dr, of x0 "[]" c] len by auto
  let ?ts = "ts\<lparr>dispatching_irq := True, time_expired := None, time_queue := q'\<rparr>"
  let ?m = "m\<lparr>clock_reads := clock_reads m + 1, cpu_time := (cpu_time m)(c \<mapsto> ?ts)\<rparr>"
  have "timer_interrupt_begin c m = Some (Some (now, y), ?m)"
    using ts(1) x0(1) y(1) by (simp add: timer_interrupt_begin_def take_expired_def now_counter_def now_def)
  moreover have "ts_ok c (hw_timer m c) ?ts" using q' own by (auto simp: ts_ok_def)
  then have "time_inv ?m" using inv by (auto simp: time_inv_def)
  moreover have "time_abs ?m = (time_abs m)(c \<mapsto> (tm |` (- due tm now), True, cap))"
    using q' by (auto simp: time_abs_def ts_abs_def fun_eq_iff)
  ultimately show ?thesis
    using y(2,3) evs x0(3) by (intro exI [of _ y] exI [of _ "(cpu_time m)(c \<mapsto> ?ts)"] exI [of _ evs]) simp
qed

text \<open>The effect of the scheduler's quantum intent on the pending events.\<close>

definition apply_quantum :: "quantum_update \<Rightarrow> (timed_event \<Rightarrow> u64 option) \<Rightarrow> timed_event \<Rightarrow> u64 option" where
  "apply_quantum u tm =
     (let tm1 = (case obsolete u of Some ev \<Rightarrow> tm(ev := None) | None \<Rightarrow> tm)
      in case ensure u of Some (d, ev) \<Rightarrow> if ev \<in> dom tm1 then tm1 else tm1(ev \<mapsto> d) | None \<Rightarrow> tm1)"

definition quantum_fits :: "quantum_update \<Rightarrow> cpu_id \<Rightarrow> (timed_event \<Rightarrow> u64 option) \<Rightarrow> usize \<Rightarrow> bool" where
  "quantum_fits u c tm cap \<longleftrightarrow>
     (\<forall>d ev. ensure u = Some (d, ev) \<longrightarrow> event_cpu ev = c \<and> (ev \<in> dom tm \<or> card (dom tm) < cap))"

lemma ts_cancel_no_rearm:
  assumes "dq_inv (time_queue ts)"
  shows "\<exists>q. ts_cancel_event ev False ts m = Some (dq_abs (time_queue ts) ev \<noteq> None, ts\<lparr>time_queue := q\<rparr>, m) \<and>
    dq_inv q \<and> dq_abs q = (dq_abs (time_queue ts))(ev := None) \<and>
    queue_capacity q = queue_capacity (time_queue ts)"
  using dq.cancel_ok [OF assms, of ev] by (auto simp: ts_cancel_event_def)

lemma timer_interrupt_end_ok:
  assumes inv: "time_inv m" and cpu: "executing m = c" and abs: "time_abs m c = Some (tm, True, cap)"
    and buf: "cap \<le> length (expired_entries x)"
    and fits: "quantum_fits u c (case obsolete u of Some ev \<Rightarrow> tm(ev := None) | None \<Rightarrow> tm) cap"
  shows "\<exists>h t. timer_interrupt_end c u x m = Some (m\<lparr>hw_timer := h, cpu_time := t\<rparr>) \<and>
    time_inv (m\<lparr>hw_timer := h, cpu_time := t\<rparr>) \<and>
    time_abs (m\<lparr>hw_timer := h, cpu_time := t\<rparr>) = (time_abs m)(c \<mapsto> (apply_quantum u tm, False, cap))"
proof -
  let ?tm1 = "case obsolete u of Some ev \<Rightarrow> tm(ev := None) | None \<Rightarrow> tm"
  obtain ts where ts: "cpu_time m c = Some ts" "dq_abs (time_queue ts) = tm"
    "queue_capacity (time_queue ts) = cap" using abs by (auto simp: time_abs_Some)
  have ok: "ts_ok c (hw_timer m c) ts" using inv ts(1) by (simp add: time_inv_def)
  then have q: "dq_inv (time_queue ts)" and own: "\<forall>ev\<in>dom tm. event_cpu ev = c"
    using ts(2) by (auto simp: ts_ok_def)
  obtain q1 where q1: "(case obsolete u of
        Some ev \<Rightarrow> do { (_, ts, m) \<leftarrow> ts_cancel_event ev False ts m; Some (ts, m) }
      | None \<Rightarrow> Some (ts, m)) = Some (ts\<lparr>time_queue := q1\<rparr>, m)"
    "dq_inv q1" "dq_abs q1 = ?tm1" "queue_capacity q1 = cap"
  proof (cases "obsolete u")
    case None
    then show thesis using that [of "time_queue ts"] q ts by simp
  next
    case (Some ev)
    then show thesis using that ts_cancel_no_rearm [OF q, of ev m] ts by auto
  qed
  obtain q2 where q2: "(case ensure u of
        Some (d, ev) \<Rightarrow> if \<not> dq_event_pending ev (time_queue (ts\<lparr>time_queue := q1\<rparr>))
          then ts_schedule_event d ev (ts\<lparr>time_queue := q1\<rparr>)
          else Some (ts\<lparr>time_queue := q1\<rparr>)
      | None \<Rightarrow> Some (ts\<lparr>time_queue := q1\<rparr>)) = Some (ts\<lparr>time_queue := q2\<rparr>)"
    "dq_inv q2" "dq_abs q2 = apply_quantum u tm" "queue_capacity q2 = cap"
  proof (cases "ensure u")
    case None
    then show thesis using that [of q1] q1 by (simp add: apply_quantum_def)
  next
    case (Some e)
    obtain d ev where e: "ensure u = Some (d, ev)" using Some by (cases e) auto
    have pend: "dq_event_pending ev q1 \<longleftrightarrow> ev \<in> dom ?tm1" using dq.pending_iff [OF q1(2), of ev] q1(3) by auto
    show thesis
    proof (cases "ev \<in> dom ?tm1")
      case True
      then show thesis using that [of q1] q1 e pend by (simp add: apply_quantum_def)
    next
      case False
      then have "dq_abs q1 ev = None" "card (dom (dq_abs q1)) < queue_capacity q1"
        using fits q1(3,4) e by (auto simp: quantum_fits_def)
      with dq.schedule_ok [OF q1(2), of ev d] obtain q2 where
        "dq_schedule d ev q1 = Some q2" "dq_inv q2" "dq_abs q2 = (dq_abs q1)(ev \<mapsto> d)" "queue_capacity q2 = cap"
        using q1(4) by auto
      then show thesis
        using that [of q2] e q1(3) pend False by (simp add: ts_schedule_event_def apply_quantum_def)
    qed
  qed
  let ?ts = "ts\<lparr>time_queue := q2, time_expired := Some (x\<lparr>expired_len := 0\<rparr>), dispatching_irq := False\<rparr>"
  obtain ts' m' where re: "rearm_timer ?ts m = (ts', m')" by fastforce
  have own': "\<forall>ev\<in>dom (dq_abs (time_queue ?ts)). event_cpu ev = c"
    using own q2(3) fits by (auto simp: apply_quantum_def Let_def quantum_fits_def split: option.splits if_splits)
  have "buffer_ready (queue_capacity (time_queue ?ts)) (time_expired ?ts)"
    using buf q2(4) by (simp add: buffer_ready_def)
  note r = ts_ok_rearmed [OF _ own' _ this re]
  let ?m = "m\<lparr>hw_timer := (hw_timer m)(c := dq_next_deadline q2), cpu_time := (cpu_time m)(c \<mapsto> ts')\<rparr>"
  have "timer_interrupt_end c u x m = Some ?m"
    using ts(1) q1(1) q2(1,2) re r(3) cpu by (simp add: timer_interrupt_end_def Let_def)
  moreover have "time_inv ?m" using time_inv_upd [OF inv] r(1) q2(2) by simp
  moreover have "time_abs ?m = (time_abs m)(c \<mapsto> (apply_quantum u tm, False, cap))"
    using r(2) q2 by (auto simp: time_abs_def ts_abs_def fun_eq_iff)
  ultimately show ?thesis by blast
qed

text \<open>
  The steps of the time subsystem: any CPU executes next, calls an entry point, or takes a timer
  interrupt with some quantum intent for itself. A step that panics halts the machine and has no
  successor.
\<close>

inductive time_step :: "machine \<Rightarrow> machine \<Rightarrow> bool" where
  other_cpu: "time_step m (m\<lparr>executing := c\<rparr>)"
| init: "init_cpu_states ok n m = (r, m') \<Longrightarrow> time_step m m'"
| schedule: "schedule_event d ev m = Some m' \<Longrightarrow> time_step m m'"
| cancel: "cancel_event ev m = Some m' \<Longrightarrow> time_step m m'"
| sleep: "publish_sleep d token m = Some m' \<Longrightarrow> time_step m m'"
| interrupt: "current_cpu m = Some c \<Longrightarrow> timer_interrupt_begin c m = Some (Some (now, x), m1) \<Longrightarrow>
    \<forall>d ev. ensure u = Some (d, ev) \<longrightarrow> event_cpu ev = c \<Longrightarrow>
    timer_interrupt_end c u x m1 = Some m' \<Longrightarrow> time_step m m'"

definition idle_time :: "machine \<Rightarrow> bool" where
  "idle_time m \<longleftrightarrow> (\<forall>c tm cap. time_abs m c \<noteq> Some (tm, True, cap))"

lemma idle_time_iff: "idle_time m \<longleftrightarrow> (\<forall>c ts. cpu_time m c = Some ts \<longrightarrow> \<not> dispatching_irq ts)"
  by (auto simp: idle_time_def time_abs_Some)

lemma time_init_ok:
  assumes "time_inv m" "idle_time m" "init_cpu_states ok n m = (r, m')"
  shows "time_inv m' \<and> idle_time m'"
proof -
  consider "m' = m" | cap where "m' = m\<lparr>cpu_time := \<lambda>c. if c < n then Some (time_state_new cap) else cpu_time m c\<rparr>"
    using assms(3) by (auto simp: init_cpu_states_def split: if_splits option.splits)
  then show ?thesis
  proof cases
    case 2
    have "ts_ok c h (time_state_new cap)" for c h
      by (simp add: ts_ok_def time_state_new_def buffer_ready_def expired_try_new_def timer_covers_def)
    with assms(1,2) 2 show ?thesis
      by (simp add: time_inv_def idle_time_iff) (simp add: time_state_new_def)
  qed (use assms in auto)
qed

lemma schedule_event_room:
  assumes "time_inv m" "schedule_event d ev m = Some m'"
  shows "\<exists>c tm b cap. current_cpu m = Some c \<and> event_cpu ev = c \<and> time_abs m c = Some (tm, b, cap) \<and>
    (ev \<in> dom tm \<or> card (dom tm) < cap)"
proof -
  obtain c ts where c: "current_cpu m = Some c" "event_cpu ev = c" "cpu_time m c = Some ts"
    "ts_schedule_event d ev ts \<noteq> None"
    using assms(2) by (auto simp: schedule_event_def bind_eq_Some_conv split: if_splits)
  have q: "dq_inv (time_queue ts)" using assms(1) c(3) by (auto simp: time_inv_def ts_ok_def)
  have "ev \<in> dom (dq_abs (time_queue ts)) \<or> card (dom (dq_abs (time_queue ts))) < queue_capacity (time_queue ts)"
    using c(4) dq.schedule_full [OF q, of ev d] dq.finite_abs [OF q] by (force simp: ts_schedule_event_def dom_def)
  with c show ?thesis by (auto simp: time_abs_def ts_abs_def)
qed

lemma publish_sleep_room:
  assumes "time_inv m" "publish_sleep d token m = Some m'"
  shows "\<exists>c tm b cap. current_cpu m = Some c \<and> wt_cpu token = c \<and> time_abs m c = Some (tm, b, cap) \<and>
    (wait_deadline token \<in> dom tm \<or> card (dom (tm(quantum_expired c (wt_thread token) := None))) < cap)"
proof -
  obtain c ts r where c: "current_cpu m = Some c" "wt_cpu token = c" "cpu_time m c = Some ts"
    "ts_publish_sleep d token ts m = Some r"
    using assms(2) by (auto simp: publish_sleep_def bind_eq_Some_conv split: if_splits)
  have q: "dq_inv (time_queue ts)" using assms(1) c(3) by (auto simp: time_inv_def ts_ok_def)
  let ?qe = "quantum_expired c (wt_thread token)" and ?wd = "wait_deadline token"
  obtain q1 where q1: "ts_cancel_event ?qe False ts m = Some (dq_abs (time_queue ts) ?qe \<noteq> None, ts\<lparr>time_queue := q1\<rparr>, m)"
    "dq_inv q1" "dq_abs q1 = (dq_abs (time_queue ts))(?qe := None)"
    "queue_capacity q1 = queue_capacity (time_queue ts)"
    using ts_cancel_no_rearm [OF q, of ?qe m] by blast
  have "dq_schedule d ?wd q1 \<noteq> None"
    using c(2,4) q1(1) by (auto simp: ts_publish_sleep_def ts_schedule_event_def bind_eq_Some_conv)
  then have "dq_abs q1 ?wd \<noteq> None \<or> card (dom (dq_abs q1)) < queue_capacity q1"
    using dq.schedule_full [OF q1(2), of ?wd d] dq.finite_abs [OF q1(2)] by force
  then show ?thesis using c q1(3,4)
    by (auto simp: time_abs_def ts_abs_def wait_deadline_def quantum_expired_def)
qed

lemma interrupt_room:
  assumes "time_inv m1" "executing m1 = c" "time_abs m1 c = Some (tm, True, cap)"
    "timer_interrupt_end c u x m1 = Some m'" "\<forall>d ev. ensure u = Some (d, ev) \<longrightarrow> event_cpu ev = c"
  shows "quantum_fits u c (case obsolete u of Some ev \<Rightarrow> tm(ev := None) | None \<Rightarrow> tm) cap"
proof -
  obtain ts where ts: "cpu_time m1 c = Some ts" "dq_abs (time_queue ts) = tm" "queue_capacity (time_queue ts) = cap"
    using assms(3) by (auto simp: time_abs_Some)
  have q: "dq_inv (time_queue ts)" using assms(1) ts(1) by (auto simp: time_inv_def ts_ok_def)
  let ?tm1 = "case obsolete u of Some ev \<Rightarrow> tm(ev := None) | None \<Rightarrow> tm"
  obtain q1 where q1: "(case obsolete u of
        Some ev \<Rightarrow> do { (_, ts, m) \<leftarrow> ts_cancel_event ev False ts m1; Some (ts, m) }
      | None \<Rightarrow> Some (ts, m1)) = Some (ts\<lparr>time_queue := q1\<rparr>, m1)"
    "dq_inv q1" "dq_abs q1 = ?tm1" "queue_capacity q1 = cap"
  proof (cases "obsolete u")
    case None
    then show thesis using that [of "time_queue ts"] q ts by simp
  next
    case (Some ev)
    then show thesis using that ts_cancel_no_rearm [OF q, of ev m1] ts by auto
  qed
  have "ev \<in> dom ?tm1 \<or> card (dom ?tm1) < cap" if e: "ensure u = Some (d, ev)" for d ev
  proof (rule ccontr)
    assume no: "\<not> (ev \<in> dom ?tm1 \<or> card (dom ?tm1) < cap)"
    then have "dq_schedule d ev q1 = None"
      using dq.schedule_full [OF q1(2), of ev d] dq.finite_abs [OF q1(2)] q1(3,4) by fastforce
    moreover have "\<not> dq_event_pending ev q1" using dq.pending_iff [OF q1(2), of ev] no q1(3) by auto
    ultimately show False
      using assms(4) ts(1) q1(1) e by (simp add: timer_interrupt_end_def ts_schedule_event_def)
  qed
  with assms(5) show ?thesis by (auto simp: quantum_fits_def)
qed

lemma time_step_inv: "time_step m m' \<Longrightarrow> time_inv m \<and> idle_time m \<Longrightarrow> time_inv m' \<and> idle_time m'"
proof (induction rule: time_step.induct)
  case (other_cpu m c)
  then show ?case by (simp add: time_inv_def idle_time_def time_abs_def)
next
  case (init ok n m r m')
  then show ?case using time_init_ok by blast
next
  case (schedule d ev m m')
  obtain c tm b cap where c: "current_cpu m = Some c" "event_cpu ev = c" "time_abs m c = Some (tm, b, cap)"
    "ev \<in> dom tm \<or> card (dom tm) < cap" using schedule_event_room [OF _ schedule.hyps] schedule.prems by blast
  from schedule_event_ok [OF conjunct1 [OF schedule.prems] c, of d] schedule.hyps have
    "time_inv m'" "time_abs m' = (time_abs m)(c \<mapsto> (tm(ev \<mapsto> d), b, cap))" by auto
  then show ?case using schedule.prems c(3) by (auto simp: idle_time_def)
next
  case (cancel ev m m')
  obtain c where c: "current_cpu m = Some c" "time_abs m (event_cpu ev) \<noteq> None"
    using cancel.hyps by (auto simp: cancel_event_def bind_eq_Some_conv time_abs_def Let_def)
  then obtain tm b cap where a: "time_abs m (event_cpu ev) = Some (tm, b, cap)" by auto
  from cancel_event_ok [OF conjunct1 [OF cancel.prems] c(1) refl a] cancel.hyps have
    "time_inv m'" "time_abs m' = (time_abs m)(event_cpu ev \<mapsto> (tm(ev := None), b, cap))" by auto
  then show ?case using cancel.prems a by (auto simp: idle_time_def)
next
  case (sleep d token m m')
  obtain c tm b cap where c: "current_cpu m = Some c" "wt_cpu token = c" "time_abs m c = Some (tm, b, cap)"
    "wait_deadline token \<in> dom tm \<or> card (dom (tm(quantum_expired c (wt_thread token) := None))) < cap"
    using publish_sleep_room [OF _ sleep.hyps] sleep.prems by blast
  from publish_sleep_ok [OF conjunct1 [OF sleep.prems] c, of d] sleep.hyps have "time_inv m'"
    "time_abs m' = (time_abs m)(c \<mapsto> (tm(quantum_expired c (wt_thread token) := None, wait_deadline token \<mapsto> d), b, cap))"
    by auto
  then show ?case using sleep.prems c(3) by (auto simp: idle_time_def)
next
  case (interrupt m c now x m1 u m')
  obtain ts where "cpu_time m c = Some ts"
    using interrupt.hyps(2) by (auto simp: timer_interrupt_begin_def split: option.splits)
  then obtain tm cap where a: "time_abs m c = Some (tm, False, cap)"
    using interrupt.prems by (cases "dispatching_irq ts") (auto simp: idle_time_iff time_abs_def ts_abs_def)
  from timer_interrupt_begin_ok [OF conjunct1 [OF interrupt.prems] a] interrupt.hyps(2) obtain t tm1 where
    m1: "m1 = m\<lparr>clock_reads := clock_reads m + 1, cpu_time := t\<rparr>" "time_inv m1"
    "time_abs m1 = (time_abs m)(c \<mapsto> (tm1, True, cap))" "cap \<le> length (expired_entries x)" by auto
  have ex: "executing m1 = c" using current_cpu_executing [OF interrupt.hyps(1)] m1(1) by simp
  have a1: "time_abs m1 c = Some (tm1, True, cap)" using m1(3) by simp
  note fits = interrupt_room [OF m1(2) ex a1 interrupt.hyps(4,3)]
  from timer_interrupt_end_ok [OF m1(2) ex a1 m1(4) fits] interrupt.hyps(4) have
    "time_inv m'" "time_abs m' = (time_abs m1)(c \<mapsto> (apply_quantum u tm1, False, cap))" by auto
  then show ?case using interrupt.prems m1(3) by (auto simp: idle_time_def)
qed

text \<open>
  C8. No deadline is missed by the timer: in every state the time subsystem reaches, whichever
  CPUs schedule, cancel and take interrupts in whatever order, the hardware timer of each CPU
  is armed at or before the deadline of each of its pending events.
\<close>

theorem timer_never_late:
  assumes "time_step\<^sup>*\<^sup>* m0 m" "\<forall>c. cpu_time m0 c = None" "cpu_time m c = Some ts"
    "dq_abs (time_queue ts) ev = Some d"
  shows "event_cpu ev = c \<and> (\<exists>a. hw_timer m c = Some a \<and> a \<le> d)"
proof -
  have "time_inv m \<and> idle_time m"
    using assms(1)
  proof (induction rule: rtranclp_induct)
    case base
    then show ?case using assms(2) by (simp add: time_inv_def idle_time_iff)
  next
    case (step m1 m2)
    then show ?case using time_step_inv by blast
  qed
  then have "ts_ok c (hw_timer m c) ts" "\<not> dispatching_irq ts"
    using assms(3) by (auto simp: time_inv_def idle_time_iff)
  then show ?thesis using assms(4) by (auto simp: ts_ok_def timer_covers_def)
qed

text \<open>
  A machine with two registered CPUs, a counter that advances by ten per reading, and a
  cooperative architecture, for the witnesses.
\<close>

definition sample_machine :: machine where
  "sample_machine =
     \<lparr>executing = 0, cpus_registered = 2, clock = (\<lambda>n. word_of_nat (10 * n)), clock_reads = 0,
      counter_freq = 1000000, hw_timer = (\<lambda>_. None), cpu_time = (\<lambda>_. None),
      cpu_preemption = (\<lambda>_. preempt_new), user_spaces = (\<lambda>_. user_space_new), ipi_ok = (\<lambda>_. True),
      ipi_sent = [], arch_activate = (\<lambda>_. 0), arch_clear = 0\<rparr>"

definition sample_timed :: "machine option" where
  "sample_timed =
     do {
       let m = snd (init_cpu_states (\<lambda>_. True) 2 sample_machine);
       m \<leftarrow> schedule_event 500 (QuantumExpired 0 (ThreadId 1 1)) m;
       m \<leftarrow> schedule_event 300 (WaitDeadline 0 (WaitToken (ThreadId 2 1) 0 1)) m;
       cancel_event (WaitDeadline 0 (WaitToken (ThreadId 2 1) 0 1)) (m\<lparr>executing := 1\<rparr>)
     }"

text \<open>
  The witness schedules two events on CPU 0 and cancels the earlier one from CPU 1, which may
  not touch the timer: the timer stays armed early, for the remaining event.
\<close>

theorem timer_never_late_witness:
  "\<exists>m ts a. sample_timed = Some m \<and> cpu_time m 0 = Some ts \<and>
     dq_abs (time_queue ts) (QuantumExpired 0 (ThreadId 1 1)) = Some 500 \<and> hw_timer m 0 = Some a \<and> a \<le> 500"
proof -
  let ?e1 = "QuantumExpired 0 (ThreadId 1 1)" and ?e2 = "WaitDeadline 0 (WaitToken (ThreadId 2 1) 0 1)"
  let ?m1 = "snd (init_cpu_states (\<lambda>_. True) 2 sample_machine)"
  have "map_option (\<lambda>m. map_option (\<lambda>ts. dq_abs (time_queue ts) ?e1) (cpu_time m 0)) sample_timed =
      Some (Some (Some 500))"
    by code_simp
  then obtain m ts where m: "sample_timed = Some m" "cpu_time m 0 = Some ts" "dq_abs (time_queue ts) ?e1 = Some 500"
    by auto
  then obtain m2 m3 where st: "schedule_event 500 ?e1 ?m1 = Some m2" "schedule_event 300 ?e2 m2 = Some m3"
    "cancel_event ?e2 (m3\<lparr>executing := 1\<rparr>) = Some m"
    by (auto simp: sample_timed_def bind_eq_Some_conv Let_def)
  have "time_step sample_machine ?m1" by (rule time_step.init [of "\<lambda>_. True" 2 _ "fst (init_cpu_states (\<lambda>_. True) 2 sample_machine)"]) simp
  moreover have "time_step ?m1 m2" "time_step m2 m3" using st(1,2) by (auto intro: time_step.schedule)
  moreover have "time_step m3 (m3\<lparr>executing := 1\<rparr>)" "time_step (m3\<lparr>executing := 1\<rparr>) m"
    using st(3) by (auto intro: time_step.other_cpu time_step.cancel)
  ultimately have reach: "time_step\<^sup>*\<^sup>* sample_machine m"
    by (meson converse_rtranclp_into_rtranclp rtranclp.rtrancl_refl)
  have "\<forall>c. cpu_time sample_machine c = None" by (simp add: sample_machine_def)
  from timer_never_late [OF reach this m(2,3)] m show ?thesis by blast
qed

text \<open>
  C9. A timer interrupt takes exactly the events that are due at the sampled time, each once, in
  the order of their deadlines with ties broken by the sort key, and leaves every later event
  pending.
\<close>

theorem timer_batch_exact:
  assumes "time_inv m" "time_abs m c = Some (tm, False, cap)"
  shows "\<exists>x m' evs. timer_interrupt_begin c m = Some (Some (clock m (clock_reads m), x), m') \<and>
    expired_iter x = Some evs \<and> set evs = due tm (clock m (clock_reads m)) \<and> distinct evs \<and>
    sorted (map (\<lambda>ev. (the (tm ev), event_sort_key ev)) evs) \<and>
    time_abs m' = (time_abs m)(c \<mapsto> (tm |` (- due tm (clock m (clock_reads m))), True, cap)) \<and> time_inv m'"
proof -
  obtain x t evs where "timer_interrupt_begin c m =
      Some (Some (clock m (clock_reads m), x), m\<lparr>clock_reads := clock_reads m + 1, cpu_time := t\<rparr>)"
    "time_inv (m\<lparr>clock_reads := clock_reads m + 1, cpu_time := t\<rparr>)"
    "time_abs (m\<lparr>clock_reads := clock_reads m + 1, cpu_time := t\<rparr>) =
      (time_abs m)(c \<mapsto> (tm |` (- due tm (clock m (clock_reads m))), True, cap))"
    "holds_events x evs" "set evs = due tm (clock m (clock_reads m))" "distinct evs"
    "sorted (map (\<lambda>ev. (the (tm ev), event_sort_key ev)) evs)"
    using timer_interrupt_begin_ok [OF assms] by blast
  then show ?thesis by (intro exI conjI) (auto dest: holds_events_iter)
qed

text \<open>The witness takes an interrupt at time 0 with one event due at once and one later.\<close>

theorem timer_batch_exact_witness:
  "\<exists>m x m'. Option.bind (schedule_event 0 (QuantumExpired 0 (ThreadId 1 1)) (snd (init_cpu_states (\<lambda>_. True) 2 sample_machine)))
       (schedule_event 300 (QuantumExpired 0 (ThreadId 2 1))) = Some m \<and> time_inv m \<and>
     timer_interrupt_begin 0 m = Some (Some (0, x), m') \<and> expired_iter x = Some [QuantumExpired 0 (ThreadId 1 1)]"
proof -
  let ?e1 = "QuantumExpired 0 (ThreadId 1 1)" and ?e2 = "QuantumExpired 0 (ThreadId 2 1)"
  let ?m1 = "snd (init_cpu_states (\<lambda>_. True) 2 sample_machine)"
  have "time_inv sample_machine \<and> idle_time sample_machine"
    by (simp add: time_inv_def idle_time_iff sample_machine_def)
  moreover have "time_step sample_machine ?m1" by (rule time_step.init [of "\<lambda>_. True" 2 _ "fst (init_cpu_states (\<lambda>_. True) 2 sample_machine)"]) simp
  ultimately have i1: "time_inv ?m1 \<and> idle_time ?m1" using time_step_inv by blast
  have "map_option (\<lambda>m. (clock m (clock_reads m), map_option (\<lambda>ts. (dq_abs (time_queue ts) ?e1, map event (entries (time_queue ts)), map deadline (entries (time_queue ts)))) (cpu_time m 0)))
      (Option.bind (schedule_event 0 ?e1 ?m1) (schedule_event 300 ?e2)) = Some (0, Some (Some 0, [?e1, ?e2], [0, 300]))"
    by code_simp
  then obtain m ts where m: "Option.bind (schedule_event 0 ?e1 ?m1) (schedule_event 300 ?e2) = Some m"
    "clock m (clock_reads m) = 0" "cpu_time m 0 = Some ts"
    and ents: "map event (entries (time_queue ts)) = [?e1, ?e2]" "map deadline (entries (time_queue ts)) = [0, 300]"
    by auto
  then obtain m2 where "schedule_event 0 ?e1 ?m1 = Some m2" "schedule_event 300 ?e2 m2 = Some m"
    by (auto simp: bind_eq_Some_conv)
  then have inv: "time_inv m \<and> idle_time m" using i1 time_step_inv time_step.schedule by metis
  then obtain cap where abs: "time_abs m 0 = Some (dq_abs (time_queue ts), False, cap)"
    using m(3) by (auto simp: idle_time_iff time_abs_def ts_abs_def)
  have "map (\<lambda>e. (event e, deadline e)) (entries (time_queue ts)) = [(?e1, 0), (?e2, 300)]"
    using ents by (auto simp: map_eq_Cons_conv)
  then have "due (dq_abs (time_queue ts)) 0 = {?e1}" by (auto simp: due_def dq_abs_def split: if_splits)
  with timer_batch_exact [OF conjunct1 [OF inv] abs] m(2) obtain x m' evs where
    "timer_interrupt_begin 0 m = Some (Some (0, x), m')" "expired_iter x = Some evs" "set evs = {?e1}" "distinct evs"
    by auto
  moreover from this have "evs = [?e1]"
    by (metis distinct_card card_1_singleton_iff length_0_conv length_Suc_conv list.set_intros(1) One_nat_def singletonD)
  ultimately show ?thesis using m(1) inv by blast
qed

end
