(* ===== verification/Context.thy ===== *)
theory Context
  imports Kernel_Prelude
begin

unbundle bit_operations_syntax

text \<open>
  The exception frames of AArch64 (\<^verbatim>\<open>arch/aarch64/src/trap_frame.rs\<close>,
  \<^verbatim>\<open>arch/aarch64/src/context.rs\<close>) and the saved contexts built over them
  (\<^verbatim>\<open>kernel/src/arch/context.rs\<close>): initial kernel and user frames, the fork child's
  frame, the frame copy of a context switch, and the syscall register convention.
\<close>

section \<open>Frames\<close>

text \<open>
  The general registers are the array \<open>x\<close> of 31 words. A frame is stored as 35 words:
  \<open>x\<close>, then \<open>sp\<close>, \<open>elr\<close>, \<open>spsr\<close> and \<open>kernel_sp\<close>.
\<close>

record trap_frame =
  frame_x :: "u64 list"
  frame_sp :: u64
  frame_elr :: u64
  frame_spsr :: u64
  frame_kernel_sp :: u64

datatype frame_mode = KernelEl1 | UserEl0 | UnsupportedMode

definition SPSR_MODE_MASK :: u64 where "SPSR_MODE_MASK = 0xF"

definition EL0T :: u64 where "EL0T = 0"

definition EL1H :: u64 where "EL1H = 5"

definition frame_zeroed :: trap_frame where
  "frame_zeroed = \<lparr>frame_x = replicate 31 0, frame_sp = 0, frame_elr = 0, frame_spsr = 0, frame_kernel_sp = 0\<rparr>"

definition align_stack :: "u64 \<Rightarrow> u64" where
  "align_stack sp = sp AND NOT 0xF"

text \<open>A \<open>usize\<close> cast to \<open>u64\<close>.\<close>

definition as_u64 :: "usize \<Rightarrow> u64" where
  "as_u64 n = word_of_nat n"

definition init_kernel_el1 :: "usize \<Rightarrow> usize \<Rightarrow> usize \<Rightarrow> usize \<Rightarrow> trap_frame" where
  "init_kernel_el1 kernel_entry kernel_sp arg0 arg1 =
     (let kernel_sp = align_stack (as_u64 kernel_sp)
      in \<lparr>frame_x = (frame_x frame_zeroed)[0 := as_u64 arg0, 1 := as_u64 arg1],
          frame_sp = kernel_sp, frame_elr = as_u64 kernel_entry, frame_spsr = EL1H,
          frame_kernel_sp = kernel_sp\<rparr>)"

definition init_user_el0 :: "usize \<Rightarrow> usize \<Rightarrow> usize \<Rightarrow> usize \<Rightarrow> trap_frame" where
  "init_user_el0 user_entry user_sp kernel_sp arg0 =
     \<lparr>frame_x = (frame_x frame_zeroed)[0 := as_u64 arg0],
      frame_sp = align_stack (as_u64 user_sp), frame_elr = as_u64 user_entry, frame_spsr = EL0T,
      frame_kernel_sp = align_stack (as_u64 kernel_sp)\<rparr>"

definition frame_mode_of :: "trap_frame \<Rightarrow> frame_mode" where
  "frame_mode_of f =
     (let m = frame_spsr f AND SPSR_MODE_MASK
      in if m = 0 then UserEl0 else if m = 5 then KernelEl1 else UnsupportedMode)"

section \<open>The frame copy\<close>

definition frame_words :: "trap_frame \<Rightarrow> u64 list" where
  "frame_words f = frame_x f @ [frame_sp f, frame_elr f, frame_spsr f, frame_kernel_sp f]"

definition frame_of_words :: "u64 list \<Rightarrow> trap_frame" where
  "frame_of_words ws =
     \<lparr>frame_x = take 31 ws, frame_sp = ws ! 31, frame_elr = ws ! 32, frame_spsr = ws ! 33,
      frame_kernel_sp = ws ! 34\<rparr>"

text \<open>
  The copy loads and stores a register pair at each listed byte offset, then the last word.
\<close>

fun copy_word :: "u64 list \<Rightarrow> u64 list \<Rightarrow> usize \<Rightarrow> u64 list" where
  "copy_word src dst offset = dst[offset div 8 := src ! (offset div 8)]"

definition copy_pair :: "u64 list \<Rightarrow> u64 list \<Rightarrow> usize \<Rightarrow> u64 list" where
  "copy_pair src dst offset = copy_word src (copy_word src dst offset) (offset + 8)"

definition copy_offsets :: "usize list" where
  "copy_offsets = [0, 16, 32, 48, 64, 80, 96, 112, 128, 144, 160, 176, 192, 208, 224, 240, 256]"

definition copy_frame :: "trap_frame \<Rightarrow> trap_frame \<Rightarrow> trap_frame" where
  "copy_frame dst src =
     frame_of_words (copy_word (frame_words src)
       (foldl (copy_pair (frame_words src)) (frame_words dst) copy_offsets) 272)"

section \<open>Saved and active contexts\<close>

definition saved_context_kernel_entry :: "usize \<Rightarrow> usize \<Rightarrow> usize \<Rightarrow> usize \<Rightarrow> trap_frame" where
  "saved_context_kernel_entry stack_top entry_addr arg bootstrap_pc =
     init_kernel_el1 bootstrap_pc stack_top entry_addr arg"

definition saved_context_user_entry :: "usize \<Rightarrow> usize \<Rightarrow> usize \<Rightarrow> usize \<Rightarrow> trap_frame" where
  "saved_context_user_entry user_entry user_sp kernel_sp arg0 = init_user_el0 user_entry user_sp kernel_sp arg0"

definition saved_context_fork_child :: "trap_frame \<Rightarrow> usize \<Rightarrow> trap_frame" where
  "saved_context_fork_child active child_kernel_sp =
     (let dst = copy_frame frame_zeroed active
      in dst\<lparr>frame_x := (frame_x dst)[0 := 0],
             frame_kernel_sp := as_u64 child_kernel_sp AND NOT 0xF\<rparr>)"

definition save_from :: "trap_frame \<Rightarrow> trap_frame \<Rightarrow> trap_frame" where
  "save_from saved active = copy_frame saved active"

definition restore_into :: "trap_frame \<Rightarrow> trap_frame \<Rightarrow> trap_frame" where
  "restore_into saved active = copy_frame active saved"

definition replace_user_context_after_exec :: "usize \<Rightarrow> usize \<Rightarrow> trap_frame \<Rightarrow> trap_frame" where
  "replace_user_context_after_exec user_entry user_sp frame =
     init_user_el0 user_entry user_sp (unat (frame_kernel_sp frame)) 0"

definition set_syscall_result :: "int \<Rightarrow> trap_frame \<Rightarrow> trap_frame" where
  "set_syscall_result v frame = frame\<lparr>frame_x := (frame_x frame)[0 := word_of_int v]\<rparr>"

definition restart_current_syscall :: "trap_frame \<Rightarrow> trap_frame option" where
  "restart_current_syscall frame = do {
     panic_if (frame_elr frame < 4);
     Some (frame\<lparr>frame_elr := frame_elr frame - 4\<rparr>)
   }"

record syscall_request =
  syscall_number :: usize
  syscall_args :: "usize list"

definition decode_syscall_request :: "trap_frame \<Rightarrow> syscall_request" where
  "decode_syscall_request frame =
     \<lparr>syscall_number = unat (frame_x frame ! 8), syscall_args = map (\<lambda>r. unat (frame_x frame ! r)) [0..<6]\<rparr>"

section \<open>The copy is complete\<close>

text \<open>A frame is well formed when its register array has 31 words.\<close>

definition frame_wf :: "trap_frame \<Rightarrow> bool" where
  "frame_wf f \<longleftrightarrow> length (frame_x f) = 31"

lemma frame_of_words_frame_words: "frame_wf f \<Longrightarrow> frame_of_words (frame_words f) = f"
  by (cases f) (simp add: frame_wf_def frame_words_def frame_of_words_def nth_append)

lemma length_frame_words [simp]: "frame_wf f \<Longrightarrow> length (frame_words f) = 35"
  by (simp add: frame_wf_def frame_words_def)

lemma copy_pair_effect:
  "length (copy_pair src dst k) = length dst"
  "i < length dst \<Longrightarrow> copy_pair src dst k ! i =
     (if i = k div 8 \<or> i = k div 8 + 1 then src ! i else dst ! i)"
  by (auto simp: copy_pair_def nth_list_update)

lemma copy_pairs_effect:
  "length (foldl (copy_pair src) dst ks) = length dst"
  "i < length dst \<Longrightarrow> foldl (copy_pair src) dst ks ! i =
     (if \<exists>k\<in>set ks. i = k div 8 \<or> i = k div 8 + 1 then src ! i else dst ! i)"
proof (induction ks arbitrary: dst)
  case (Cons k ks)
  { case 1 then show ?case using Cons.IH(1) by (simp add: copy_pair_effect(1)) }
  { case 2 then show ?case
      using Cons.IH(2) [of "copy_pair src dst k"] by (auto simp: copy_pair_effect) }
qed simp_all

lemma copy_offsets_cover: "i < 34 \<Longrightarrow> \<exists>k\<in>set copy_offsets. i = k div 8 \<or> i = k div 8 + 1"
proof -
  assume "i < 34"
  then have "16 * (i div 2) \<in> set copy_offsets"
  proof -
    have "i div 2 < 17" using \<open>i < 34\<close> by simp
    moreover have "\<forall>j<17. 16 * j \<in> set copy_offsets" by code_simp
    ultimately show ?thesis by blast
  qed
  moreover have "i = 16 * (i div 2) div 8 \<or> i = 16 * (i div 2) div 8 + 1" by presburger
  ultimately show ?thesis by blast
qed

lemma copy_frame_eq:
  assumes "frame_wf dst" "frame_wf src"
  shows "copy_frame dst src = src"
proof -
  let ?ws = "copy_word (frame_words src) (foldl (copy_pair (frame_words src)) (frame_words dst) copy_offsets) 272"
  have "?ws = frame_words src"
  proof (rule nth_equalityI)
    fix i assume "i < length ?ws"
    then have i: "i < 35" using assms by (simp add: copy_pairs_effect)
    show "?ws ! i = frame_words src ! i"
    proof (cases "i = 34")
      case False
      with i have "i < 34" by simp
      with copy_offsets_cover [OF this] assms show ?thesis by (simp add: copy_pairs_effect)
    qed (use assms in \<open>simp add: copy_pairs_effect\<close>)
  qed (use assms in \<open>simp add: copy_pairs_effect\<close>)
  then show ?thesis using assms(2) by (simp add: copy_frame_def frame_of_words_frame_words)
qed

lemma frame_wf_constructors [simp]:
  "frame_wf frame_zeroed" "frame_wf (init_kernel_el1 a b c d)" "frame_wf (init_user_el0 a b c d)"
  by (simp_all add: frame_wf_def frame_zeroed_def init_kernel_el1_def init_user_el0_def Let_def)

text \<open>
  C19. A context switch preserves the interrupted execution state: saving the live frame into a
  thread's saved context and later restoring that context into a live frame reproduces every
  register of the original frame, whatever both frames held before.
\<close>

theorem context_save_restore:
  assumes "frame_wf saved" "frame_wf live" "frame_wf live'"
  shows "restore_into (save_from saved live) live' = live"
  using assms by (simp add: save_from_def restore_into_def copy_frame_eq)

theorem context_save_restore_witness:
  "restore_into (save_from frame_zeroed (init_user_el0 4096 8192 65536 7)) (init_kernel_el1 1 2 3 4) =
     init_user_el0 4096 8192 65536 7"
  by (rule context_save_restore) simp_all

section \<open>Initial frames\<close>

lemma align_stack_le: "align_stack sp \<le> sp"
  by (simp add: align_stack_def word_and_le2)

lemma align_stack_aligned: "align_stack sp AND 0xF = 0"
  by (simp add: align_stack_def and.assoc)

lemma frame_mode_initial:
  "frame_mode_of (init_kernel_el1 a b c d) = KernelEl1"
  "frame_mode_of (init_user_el0 a b c d) = UserEl0"
  by (simp_all add: frame_mode_of_def init_kernel_el1_def init_user_el0_def EL1H_def EL0T_def
      SPSR_MODE_MASK_def Let_def)

text \<open>
  C20. A fork child resumes from the parent's syscall with the parent's registers, program
  counter, user stack pointer and mode, except that it sees the result zero and runs on its own
  aligned kernel stack; the parent's frame is not involved further.
\<close>

theorem fork_child_frame:
  assumes "frame_wf parent"
  shows "let child = saved_context_fork_child parent ksp
    in frame_x child = (frame_x parent)[0 := 0] \<and> frame_elr child = frame_elr parent \<and>
       frame_sp child = frame_sp parent \<and> frame_spsr child = frame_spsr parent \<and>
       frame_kernel_sp child = align_stack (as_u64 ksp) \<and> frame_wf child \<and>
       decode_syscall_request child = decode_syscall_request (set_syscall_result 0 parent)"
  using assms copy_frame_eq [OF frame_wf_constructors(1) assms]
  by (simp add: saved_context_fork_child_def align_stack_def Let_def frame_wf_def
      decode_syscall_request_def set_syscall_result_def)

theorem fork_child_frame_witness:
  "frame_x (saved_context_fork_child (init_user_el0 4096 8192 65536 7) 131087) =
     (frame_x (init_user_el0 4096 8192 65536 7))[0 := 0] \<and>
   frame_elr (saved_context_fork_child (init_user_el0 4096 8192 65536 7) 131087) = 4096"
  using fork_child_frame [of "init_user_el0 4096 8192 65536 7" 131087]
  by (simp add: Let_def) (simp add: init_user_el0_def as_u64_def)

end
