(* ===== verification/Mem_Types.thy ===== *)
theory Mem_Types
  imports Kernel_Prelude
begin

text \<open>
  Address ranges and alignment (\<^verbatim>\<open>kernel/src/memory/types.rs\<close>): half-open ranges,
  their intersection, and rounding of addresses.
\<close>

definition PAGE_SIZE :: usize where
  "PAGE_SIZE = 4096"

datatype region_kind = Usable | Reserved | Mmio

record addr_range =
  range_start :: usize
  range_end :: usize

record addr_region =
  region_range :: addr_range
  region_kind :: region_kind

definition range_empty :: addr_range where
  "range_empty = \<lparr>range_start = 0, range_end = 0\<rparr>"

definition from_start_size :: "usize \<Rightarrow> usize \<Rightarrow> addr_range option" where
  "from_start_size start bytes = do {
     e \<leftarrow> checked_add_usize start bytes;
     if e \<le> start then None else Some \<lparr>range_start = start, range_end = e\<rparr>
   }"

definition overlaps :: "addr_range \<Rightarrow> addr_range \<Rightarrow> bool" where
  "overlaps r other \<longleftrightarrow> range_start r < range_end other \<and> range_start other < range_end r"

definition clipped_to :: "addr_range \<Rightarrow> addr_range \<Rightarrow> addr_range option" where
  "clipped_to r outer =
     (let s = max (range_start r) (range_start outer);
          e = min (range_end r) (range_end outer)
      in if e \<le> s then None else Some \<lparr>range_start = s, range_end = e\<rparr>)"

definition range_frame_count :: "addr_range \<Rightarrow> usize" where
  "range_frame_count r = (range_end r - range_start r) div PAGE_SIZE"

definition align_up :: "usize \<Rightarrow> usize \<Rightarrow> usize option" where
  "align_up v align =
     (if align = 0 then Some v
      else map_option (\<lambda>x. x div align * align) (checked_add_usize v (align - 1)))"

definition align_down :: "usize \<Rightarrow> usize \<Rightarrow> usize" where
  "align_down v align = (if align = 0 then v else v div align * align)"

section \<open>Rounding\<close>

lemma dvd_le_add: "a dvd p \<Longrightarrow> a dvd q \<Longrightarrow> p < q \<Longrightarrow> p + a \<le> (q :: nat)"
  by (metis dvd_diff_nat dvd_imp_le le_add_diff_inverse less_imp_le_nat nat_add_left_cancel_le zero_less_diff)

lemma align_down_le: "align_down v a \<le> v"
  by (simp add: align_down_def)

lemma align_down_dvd: "a dvd align_down v a \<or> a = 0"
  by (simp add: align_down_def)

lemma align_up_dvd: "align_up v a = Some w \<Longrightarrow> 0 < a \<Longrightarrow> a dvd w"
  by (auto simp: align_up_def)

lemma align_up_bounds:
  assumes "align_up v a = Some w" "0 < a"
  shows "v \<le> w" "w < v + a"
proof -
  from assms have w: "w = (v + (a - 1)) div a * a" by (auto simp: align_up_def checked_add_usize_def split: if_splits)
  have "(v + (a - 1)) div a * a + (v + (a - 1)) mod a = v + (a - 1)" by (rule div_mult_mod_eq)
  moreover have "(v + (a - 1)) mod a < a" using assms(2) by simp
  ultimately show "v \<le> w" "w < v + a" using assms(2) w by linarith+
qed

text \<open>The rounded value is the least multiple at or above the argument.\<close>

lemma align_up_least:
  assumes "align_up v a = Some w" "0 < a" "v \<le> u" "a dvd u"
  shows "w \<le> u"
proof -
  from assms(4) obtain k where u: "u = a * k" by (auto elim: dvdE)
  have "w < a * (k + 1)" using align_up_bounds(2) [OF assms(1,2)] assms(3) u by simp
  moreover obtain j where j: "w = a * j" using align_up_dvd [OF assms(1,2)] by (auto elim: dvdE)
  ultimately have "j < k + 1" by (metis mult_less_cancel1)
  then show ?thesis using u j by simp
qed

text \<open>The value rounded down is the greatest multiple at or below the argument.\<close>

lemma align_down_greatest:
  assumes "a dvd u" "u \<le> v"
  shows "u \<le> align_down v a"
proof -
  have "u = u div a * a" using assms(1) by simp
  also have "\<dots> \<le> v div a * a" using div_le_mono [OF assms(2), of a] by (rule mult_le_mono1)
  finally show ?thesis using assms by (simp add: align_down_def)
qed

section \<open>Ranges as sets of addresses\<close>

definition range_set :: "addr_range \<Rightarrow> usize set" where
  "range_set r = {range_start r..<range_end r}"

lemma overlaps_iff:
  assumes "range_start r < range_end r" "range_start q < range_end q"
  shows "overlaps r q \<longleftrightarrow> range_set r \<inter> range_set q \<noteq> {}"
proof
  assume "overlaps r q"
  then have "max (range_start r) (range_start q) \<in> range_set r \<inter> range_set q"
    using assms by (auto simp: overlaps_def range_set_def)
  then show "range_set r \<inter> range_set q \<noteq> {}" by blast
qed (auto simp: overlaps_def range_set_def)

lemma clipped_to_set:
  "clipped_to r q = Some c \<Longrightarrow> range_set c = range_set r \<inter> range_set q"
  "clipped_to r q = None \<Longrightarrow> range_set r \<inter> range_set q = {}"
  by (auto simp: clipped_to_def range_set_def Let_def split: if_splits)

lemma from_start_size_iff:
  "from_start_size s n = Some r \<longleftrightarrow> 0 < n \<and> s + n \<le> usize_max \<and> r = \<lparr>range_start = s, range_end = s + n\<rparr>"
  by (auto simp: from_start_size_def checked_add_usize_def)

end
