(* ===== verification/Scheduler.thy ===== *)
theory Scheduler
  imports Kernel_Time Context Mem_Types
begin

text \<open>
  The scheduler's state and lifecycle transitions (\<^verbatim>\<open>kernel/src/sched/mod.rs\<close>,
  \<^verbatim>\<open>kernel/src/sched/transition.rs\<close>): the thread table with generation-checked
  identities, the per-CPU ready queues and remote-ready ingress, and every transition of a
  thread between the states ready, running, blocked, exited and free.

  Release builds compile \<open>validate_after_transition\<close> to nothing, so the transitions here
  do not call it; the checker itself is \<open>validate_invariants\<close>.
\<close>

section \<open>State\<close>

definition THREAD_STACK_SIZE :: usize where
  "THREAD_STACK_SIZE = 32768"

definition INITIAL_THREAD_GENERATION :: u32 where
  "INITIAL_THREAD_GENERATION = 1"

datatype thread_state = Ready | Running | Blocked | Exited

datatype join_error = InvalidThread | NotJoinable | SelfJoin | JoinInProgress | JoinNotInitialized

datatype sched_error = AlreadyBootstrapped | InvalidThreadId | ThreadCapacityTooSmall

record owned_user_stack =
  ustack_frames :: addr_range
  ustack_base :: usize
  ustack_size :: usize

record user_resources =
  res_address_space :: address_space_id
  res_stack :: owned_user_stack

datatype switch_outcome = ContinueCurrent | Switch thread_id thread_id

text \<open>A kernel stack is identified by its base address.\<close>

type_synonym kernel_stack = usize

definition stack_top_of :: "kernel_stack \<Rightarrow> usize" where
  "stack_top_of base = base + THREAD_STACK_SIZE"

record thread =
  home_cpu :: cpu_id
  tstate :: thread_state
  joinable :: bool
  exit_code :: "usize option"
  joiner :: "wait_token option"
  last_join_result :: "(join_error + usize) option"
  reaped_user :: "user_resources option"
  user_res :: "user_resources option"
  wait_md :: wait_metadata
  kstack :: kernel_stack
  saved_ctx :: trap_frame

record thread_slot =
  generation :: u32
  next_wait_sequence :: u64
  slot_stack :: "kernel_stack option"
  slot_thread :: "thread option"

record thread_table =
  slots :: "thread_slot list"
  free_slots :: "usize list"

record cpu_sched =
  current :: "thread_id option"
  idle :: "thread_id option"
  retired :: "thread_id option"
  ready_queue :: "thread_id list"
  initialized :: bool
  online :: bool

text \<open>
  \<open>queue_room\<close> is the capacity reserved for each ready queue and each ingress queue,
  \<^verbatim>\<open>thread_capacity - 1\<close>.
\<close>

record scheduler =
  lifecycle :: thread_table
  cpus :: "cpu_id \<Rightarrow> cpu_sched"
  remote_ready :: "cpu_id \<Rightarrow> thread_id list"
  scheduler_ipi_pending :: "cpu_id \<Rightarrow> bool"
  rr_quantum_ms :: u64
  queue_room :: usize

text \<open>\<open>sched_published\<close> tells whether the global scheduler slot is filled.\<close>

record system = machine +
  sched_published :: bool
  sched :: scheduler

definition slot_free :: "kernel_stack \<Rightarrow> thread_slot" where
  "slot_free stack = \<lparr>generation = 0, next_wait_sequence = 0, slot_stack = Some stack, slot_thread = None\<rparr>"

definition cpu_sched_new :: cpu_sched where
  "cpu_sched_new = \<lparr>current = None, idle = None, retired = None, ready_queue = [], initialized = False, online = False\<rparr>"

definition next_generation :: "u32 \<Rightarrow> u32" where
  "next_generation g = (let n = g + 1 in if n = 0 then 1 else n)"

section \<open>Thread table\<close>

definition table_get :: "thread_id \<Rightarrow> thread_table \<Rightarrow> thread option" where
  "table_get i t = do {
     slot \<leftarrow> idx (slots t) (tid_index i);
     if generation slot \<noteq> tid_generation i then None else slot_thread slot
   }"

text \<open>Releasing reports the user resources; an active wait is a panic, an unknown id does nothing.\<close>

definition table_release :: "thread_id \<Rightarrow> thread_table \<Rightarrow> (user_resources option \<times> thread_table) option" where
  "table_release i t =
     (case table_get i t of
        None \<Rightarrow> Some (None, t)
      | Some th \<Rightarrow> do {
          panic_if (\<not> wait_is_none (wait_md th));
          let slot = slots t ! tid_index i;
          Some (user_res th,
            \<lparr>slots = (slots t)[tid_index i := slot\<lparr>slot_thread := None,
                next_wait_sequence := next_sequence (wait_md th), slot_stack := Some (kstack th)\<rparr>],
             free_slots = free_slots t @ [tid_index i]\<rparr>)
        })"

section \<open>Accessors\<close>

text \<open>Access to a free slot or beyond the table is a panic.\<close>

definition thread_at :: "usize \<Rightarrow> scheduler \<Rightarrow> thread option" where
  "thread_at i s = do { slot \<leftarrow> idx (slots (lifecycle s)) i; slot_thread slot }"

definition update_thread :: "usize \<Rightarrow> (thread \<Rightarrow> thread) \<Rightarrow> scheduler \<Rightarrow> scheduler option" where
  "update_thread i f s = do {
     slot \<leftarrow> idx (slots (lifecycle s)) i;
     th \<leftarrow> slot_thread slot;
     Some (s\<lparr>lifecycle := (lifecycle s)\<lparr>slots := (slots (lifecycle s))[i := slot\<lparr>slot_thread := Some (f th)\<rparr>]\<rparr>\<rparr>)
   }"

definition thread_id_of :: "usize \<Rightarrow> scheduler \<Rightarrow> thread_id option" where
  "thread_id_of i s = do { slot \<leftarrow> idx (slots (lifecycle s)) i; Some (ThreadId i (generation slot)) }"

definition thread_matches :: "thread_id \<Rightarrow> scheduler \<Rightarrow> bool" where
  "thread_matches i s \<longleftrightarrow> table_get i (lifecycle s) \<noteq> None"

definition thread_home_cpu :: "usize \<Rightarrow> scheduler \<Rightarrow> cpu_id option" where
  "thread_home_cpu i s = map_option home_cpu (thread_at i s)"

definition thread_state_of :: "usize \<Rightarrow> scheduler \<Rightarrow> thread_state option" where
  "thread_state_of i s = map_option tstate (thread_at i s)"

definition thread_address_space :: "usize \<Rightarrow> scheduler \<Rightarrow> address_space_id option option" where
  "thread_address_space i s = map_option (\<lambda>th. map_option res_address_space (user_res th)) (thread_at i s)"

definition stack_top :: "usize \<Rightarrow> scheduler \<Rightarrow> usize option" where
  "stack_top i s = do {
     slot \<leftarrow> idx (slots (lifecycle s)) i;
     case slot_thread slot of
       Some th \<Rightarrow> Some (stack_top_of (kstack th))
     | None \<Rightarrow> map_option stack_top_of (slot_stack slot)
   }"

definition upd_cpu :: "cpu_id \<Rightarrow> (cpu_sched \<Rightarrow> cpu_sched) \<Rightarrow> scheduler \<Rightarrow> scheduler" where
  "upd_cpu c f s = s\<lparr>cpus := (cpus s)(c := f (cpus s c))\<rparr>"

definition idle_thread :: "cpu_id \<Rightarrow> scheduler \<Rightarrow> thread_id option" where
  "idle_thread c s = idle (cpus s c)"

definition set_join_result :: "usize \<Rightarrow> join_error + usize \<Rightarrow> scheduler \<Rightarrow> scheduler option" where
  "set_join_result i r s = update_thread i (\<lambda>th. th\<lparr>last_join_result := Some r\<rparr>) s"

definition set_reaped_user :: "thread_id \<Rightarrow> user_resources option \<Rightarrow> scheduler \<Rightarrow> scheduler option" where
  "set_reaped_user i user s = do {
     th \<leftarrow> table_get i (lifecycle s);
     panic_if (reaped_user th \<noteq> None);
     update_thread (tid_index i) (\<lambda>th. th\<lparr>reaped_user := user\<rparr>) s
   }"

definition thread_is_retiring :: "thread_id \<Rightarrow> scheduler \<Rightarrow> bool option" where
  "thread_is_retiring i s =
     (if thread_matches i s then do {
        home \<leftarrow> thread_home_cpu (tid_index i) s;
        Some (retired (cpus s home) = Some i)
      } else Some False)"

definition assert_current_running :: "thread_id \<Rightarrow> scheduler \<Rightarrow> unit option" where
  "assert_current_running i s = do {
     cpu \<leftarrow> thread_home_cpu (tid_index i) s;
     st \<leftarrow> thread_state_of (tid_index i) s;
     panic_if (current (cpus s cpu) \<noteq> Some i \<or> \<not> thread_matches i s \<or> st \<noteq> Running)
   }"

section \<open>Ready queues\<close>

definition ready_push_back :: "cpu_id \<Rightarrow> thread_id \<Rightarrow> scheduler \<Rightarrow> scheduler option" where
  "ready_push_back c i s = do {
     panic_if (idle (cpus s c) = Some i);
     home \<leftarrow> thread_home_cpu (tid_index i) s;
     panic_if (home \<noteq> c);
     panic_if (list_ex (\<lambda>q. tid_index q = tid_index i) (ready_queue (cpus s c)));
     panic_if (length (ready_queue (cpus s c)) = queue_room s);
     Some (upd_cpu c (\<lambda>k. k\<lparr>ready_queue := ready_queue k @ [i]\<rparr>) s)
   }"

definition ready_pop_front :: "cpu_id \<Rightarrow> scheduler \<Rightarrow> (thread_id option \<times> scheduler) option" where
  "ready_pop_front c s =
     (case ready_queue (cpus s c) of
        [] \<Rightarrow> Some (None, s)
      | i # rest \<Rightarrow> do {
          let s = upd_cpu c (\<lambda>k. k\<lparr>ready_queue := rest\<rparr>) s;
          panic_if (\<not> thread_matches i s);
          th \<leftarrow> thread_at (tid_index i) s;
          panic_if (tstate th \<noteq> Ready \<or> idle (cpus s c) = Some i \<or> home_cpu th \<noteq> c);
          Some (Some i, s)
        })"

definition make_running :: "cpu_id \<Rightarrow> thread_id \<Rightarrow> scheduler \<Rightarrow> scheduler option" where
  "make_running c i s = do {
     panic_if (\<not> thread_matches i s);
     th \<leftarrow> thread_at (tid_index i) s;
     panic_if (tstate th \<noteq> Ready);
     panic_if (home_cpu th \<noteq> c);
     s \<leftarrow> update_thread (tid_index i) (\<lambda>th. th\<lparr>tstate := Running\<rparr>) s;
     Some (upd_cpu c (\<lambda>k. k\<lparr>current := Some i\<rparr>) s)
   }"

text \<open>The next thread to run: the front of the ready queue, else the idle thread.\<close>

definition pop_front_or_idle :: "cpu_id \<Rightarrow> scheduler \<Rightarrow> (thread_id \<times> scheduler) option" where
  "pop_front_or_idle c s = do {
     (r, s) \<leftarrow> ready_pop_front c s;
     case r of
       Some i \<Rightarrow> Some (i, s)
     | None \<Rightarrow> do { i \<leftarrow> idle_thread c s; Some (i, s) }
   }"

section \<open>Quanta and peers\<close>

text \<open>
  \<^verbatim>\<open>preempt.rs\<close>: a running thread with a runnable peer owns a quantum event; the
  clock is read only when a new event is needed.
\<close>

definition has_runnable_peer :: "cpu_id \<Rightarrow> scheduler \<Rightarrow> bool" where
  "has_runnable_peer c s \<longleftrightarrow> ready_queue (cpus s c) \<noteq> []"

definition ensure_quantum_event :: "cpu_id \<Rightarrow> 'a system_scheme \<Rightarrow> 'a system_scheme option" where
  "ensure_quantum_event c s =
     (case current (cpus (sched s) c) of
        None \<Rightarrow> Some s
      | Some cur \<Rightarrow>
          if \<not> has_runnable_peer c (sched s) then Some s
          else do {
            let ev = quantum_expired c cur;
            pending \<leftarrow> event_pending ev s;
            if pending then Some s
            else do {
              let (now, s) = now_counter s;
              schedule_event (now + ms_to_counts (counter_freq s) (rr_quantum_ms (sched s))) ev s
            }
          })"

definition note_runnable_peer_available :: "cpu_id \<Rightarrow> 'a system_scheme \<Rightarrow> 'a system_scheme option" where
  "note_runnable_peer_available c s =
     (if current (cpus (sched s) c) \<noteq> None \<and> has_runnable_peer c (sched s) then do {
        s \<leftarrow> request_reschedule_on c s;
        ensure_quantum_event c s
      } else Some s)"

definition make_ready_and_queue :: "cpu_id \<Rightarrow> thread_id \<Rightarrow> bool \<Rightarrow> 'a system_scheme \<Rightarrow> 'a system_scheme option" where
  "make_ready_and_queue c i notify_new_peer s = do {
     panic_if (\<not> thread_matches i (sched s));
     S \<leftarrow> update_thread (tid_index i) (\<lambda>th. th\<lparr>tstate := Ready\<rparr>) (sched s);
     if idle (cpus S c) \<noteq> Some i then do {
       let was_empty = (ready_queue (cpus S c) = []);
       S \<leftarrow> ready_push_back c i S;
       let s = s\<lparr>sched := S\<rparr>;
       if notify_new_peer \<and> was_empty then note_runnable_peer_available c s else Some s
     } else Some (s\<lparr>sched := S\<rparr>)
   }"

section \<open>Remote publication\<close>

definition notify_scheduler :: "cpu_id \<Rightarrow> 'a machine_scheme \<Rightarrow> 'a machine_scheme option" where
  "notify_scheduler c m = do {
     panic_if (\<not> ipi_ok m c);
     Some (m\<lparr>ipi_sent := ipi_sent m @ [c]\<rparr>)
   }"

definition request_scheduler_ipi :: "cpu_id \<Rightarrow> 'a system_scheme \<Rightarrow> 'a system_scheme option" where
  "request_scheduler_ipi c s =
     (if scheduler_ipi_pending (sched s) c then Some s
      else notify_scheduler c
        (s\<lparr>sched := (sched s)\<lparr>scheduler_ipi_pending := (scheduler_ipi_pending (sched s))(c := True)\<rparr>\<rparr>))"

definition publish_remote_ready :: "thread_id \<Rightarrow> cpu_id \<Rightarrow> 'a system_scheme \<Rightarrow> 'a system_scheme option" where
  "publish_remote_ready i c s = do {
     let queue = remote_ready (sched s) c;
     panic_if (i \<in> set queue);
     panic_if (length queue = queue_room (sched s));
     request_scheduler_ipi c
       (s\<lparr>sched := (sched s)\<lparr>remote_ready := (remote_ready (sched s))(c := queue @ [i])\<rparr>\<rparr>)
   }"

text \<open>The drain of a CPU's ingress into its own ready queue.\<close>

fun drain_remote :: "cpu_id \<Rightarrow> thread_id list \<Rightarrow> scheduler \<Rightarrow> scheduler option" where
  "drain_remote c [] s = Some (s\<lparr>remote_ready := (remote_ready s)(c := [])\<rparr>)"
| "drain_remote c (i # rest) s = do {
     let s = s\<lparr>remote_ready := (remote_ready s)(c := rest)\<rparr>;
     panic_if (\<not> thread_matches i s);
     th \<leftarrow> thread_at (tid_index i) s;
     panic_if (tstate th \<noteq> Ready \<or> home_cpu th \<noteq> c);
     s \<leftarrow> ready_push_back c i s;
     drain_remote c rest s
   }"

definition consume_scheduler_ipi :: "cpu_id \<Rightarrow> scheduler \<Rightarrow> scheduler option" where
  "consume_scheduler_ipi c s = do {
     let was_pending = scheduler_ipi_pending s c;
     let s = s\<lparr>scheduler_ipi_pending := (scheduler_ipi_pending s)(c := False)\<rparr>;
     panic_if (\<not> was_pending \<and> remote_ready s c \<noteq> []);
     drain_remote c (remote_ready s c) s
   }"

end
