(* ===== verification/Sched_Transition.thy ===== *)
theory Sched_Transition
  imports Scheduler
begin

text \<open>
  The lifecycle transitions of \<^verbatim>\<open>kernel/src/sched/transition.rs\<close> and the bounded
  checker \<open>validate_invariants\<close>. The first argument \<open>c\<close> of a transition is the CPU the
  scheduler view is bound to; the entry points bind it to the executing CPU.
\<close>

section \<open>Construction\<close>

definition transition_new :: "usize \<Rightarrow> u64 \<Rightarrow> scheduler option" where
  "transition_new thread_capacity quantum = do {
     panic_if (KERNEL_THREAD_CAPACITY < thread_capacity);
     Some \<lparr>lifecycle = \<lparr>slots = [], free_slots = []\<rparr>, cpus = (\<lambda>_. cpu_sched_new),
       remote_ready = (\<lambda>_. []), scheduler_ipi_pending = (\<lambda>_. False),
       rr_quantum_ms = max quantum 1, queue_room = thread_capacity - 1\<rparr>
   }"

text \<open>\<open>alloc i\<close> is the address of the stack allocated for slot \<open>i\<close>.\<close>

definition transition_fill_free_slots :: "(usize \<Rightarrow> kernel_stack) \<Rightarrow> usize \<Rightarrow> scheduler \<Rightarrow> scheduler" where
  "transition_fill_free_slots alloc thread_capacity s =
     (let new = [length (slots (lifecycle s))..<thread_capacity]
      in s\<lparr>lifecycle := \<lparr>slots = slots (lifecycle s) @ map (\<lambda>i. slot_free (alloc i)) new,
                         free_slots = free_slots (lifecycle s) @ new\<rparr>\<rparr>)"

definition take_free_slot :: "scheduler \<Rightarrow> usize option \<times> scheduler" where
  "take_free_slot s =
     (let fs = free_slots (lifecycle s)
      in if fs = [] then (None, s)
         else (Some (last fs), s\<lparr>lifecycle := (lifecycle s)\<lparr>free_slots := butlast fs\<rparr>\<rparr>))"

section \<open>Publication\<close>

text \<open>
  \<open>on_pre_ready\<close> runs after the slot has its identity and before the thread is visible in
  a queue.
\<close>

type_synonym 'a pre_ready =
  "thread_id \<Rightarrow> cpu_id \<Rightarrow> address_space_id option \<Rightarrow> 'a system_scheme \<Rightarrow> 'a system_scheme option"

definition new_thread ::
  "cpu_id \<Rightarrow> trap_frame \<Rightarrow> user_resources option \<Rightarrow> bool \<Rightarrow> u64 \<Rightarrow> kernel_stack \<Rightarrow> thread" where
  "new_thread home ctx user joins sequence stack =
     \<lparr>home_cpu = home, tstate = Ready, joinable = joins, exit_code = None, joiner = None,
      last_join_result = None, reaped_user = None, user_res = user,
      wait_md = with_next_sequence sequence, kstack = stack, saved_ctx = ctx\<rparr>"

definition publish ::
  "cpu_id \<Rightarrow> cpu_id \<Rightarrow> usize \<Rightarrow> trap_frame \<Rightarrow> user_resources option \<Rightarrow> bool \<Rightarrow> u32 \<Rightarrow> bool \<Rightarrow> bool \<Rightarrow>
     'a pre_ready \<Rightarrow> 'a system_scheme \<Rightarrow> 'a system_scheme option" where
  "publish c home i ctx user joins gen bootstrap is_idle on_pre_ready s = do {
     panic_if (is_idle \<and> home \<noteq> c);
     slot \<leftarrow> idx (slots (lifecycle (sched s))) i;
     panic_if (slot_thread slot \<noteq> None);
     stack \<leftarrow> slot_stack slot;
     let th = new_thread home ctx user joins (next_wait_sequence slot) stack;
     let S = (sched s)\<lparr>lifecycle := (lifecycle (sched s))\<lparr>slots := (slots (lifecycle (sched s)))
               [i := slot\<lparr>slot_stack := None, generation := gen, slot_thread := Some th\<rparr>]\<rparr>\<rparr>;
     let tid = ThreadId i gen;
     let aspace = map_option res_address_space user;
     panic_if (case aspace of Some a \<Rightarrow> owner_cpu a \<noteq> home | None \<Rightarrow> False);
     s \<leftarrow> on_pre_ready tid home aspace (s\<lparr>sched := S\<rparr>);
     if is_idle then do {
       panic_if (idle (cpus (sched s) c) \<noteq> None);
       Some (s\<lparr>sched := upd_cpu c (\<lambda>k. k\<lparr>idle := Some tid\<rparr>) (sched s)\<rparr>)
     }
     else if home = c then do {
       let was_empty = (ready_queue (cpus (sched s) c) = []);
       S \<leftarrow> ready_push_back c tid (sched s);
       let s = s\<lparr>sched := S\<rparr>;
       if \<not> bootstrap \<and> was_empty then note_runnable_peer_available c s else Some s
     }
     else publish_remote_ready tid home s
   }"

definition no_pre_ready :: "'a pre_ready" where
  "no_pre_ready tid home aspace s = Some s"

text \<open>\<open>bootstrap_pc\<close> is the address of \<open>thread_entry_bootstrap\<close>.\<close>

definition transition_publish_bootstrap ::
  "usize \<Rightarrow> cpu_id \<Rightarrow> usize \<Rightarrow> usize \<Rightarrow> usize \<Rightarrow> bool \<Rightarrow> 'a system_scheme \<Rightarrow> 'a system_scheme option" where
  "transition_publish_bootstrap bootstrap_pc c i entry arg is_idle s = do {
     slot \<leftarrow> idx (slots (lifecycle (sched s))) i;
     stack \<leftarrow> slot_stack slot;
     let ctx = saved_context_kernel_entry (stack_top_of stack) entry arg bootstrap_pc;
     publish c c i ctx None False INITIAL_THREAD_GENERATION True is_idle no_pre_ready s
   }"

definition transition_publish_runtime ::
  "cpu_id \<Rightarrow> cpu_id \<Rightarrow> usize \<Rightarrow> trap_frame \<Rightarrow> user_resources option \<Rightarrow> bool \<Rightarrow>
     'a system_scheme \<Rightarrow> (thread_id \<times> 'a system_scheme) option" where
  "transition_publish_runtime c home i ctx user joins s = do {
     slot \<leftarrow> idx (slots (lifecycle (sched s))) i;
     let gen = next_generation (generation slot);
     s \<leftarrow> publish c home i ctx user joins gen False False no_pre_ready s;
     tid \<leftarrow> thread_id_of i (sched s);
     Some (tid, s)
   }"

text \<open>The callback of a user thread receives its address space; a kernel thread has none to give.\<close>

definition with_user_space ::
  "(thread_id \<Rightarrow> cpu_id \<Rightarrow> address_space_id \<Rightarrow> 'a system_scheme \<Rightarrow> 'a system_scheme option) \<Rightarrow> 'a pre_ready" where
  "with_user_space on_pre_ready tid home aspace s = do { a \<leftarrow> aspace; on_pre_ready tid home a s }"

definition transition_publish_runtime_with_pre_ready ::
  "cpu_id \<Rightarrow> cpu_id \<Rightarrow> usize \<Rightarrow> trap_frame \<Rightarrow> user_resources option \<Rightarrow> bool \<Rightarrow>
     (thread_id \<Rightarrow> cpu_id \<Rightarrow> address_space_id \<Rightarrow> 'a system_scheme \<Rightarrow> 'a system_scheme option) \<Rightarrow>
     'a system_scheme \<Rightarrow> (thread_id \<times> 'a system_scheme) option" where
  "transition_publish_runtime_with_pre_ready c home i ctx user joins on_pre_ready s = do {
     slot \<leftarrow> idx (slots (lifecycle (sched s))) i;
     let gen = next_generation (generation slot);
     s \<leftarrow> publish c home i ctx user joins gen False False (with_user_space on_pre_ready) s;
     tid \<leftarrow> thread_id_of i (sched s);
     Some (tid, s)
   }"

section \<open>First dispatch\<close>

definition transition_initial_dispatch :: "cpu_id \<Rightarrow> scheduler \<Rightarrow> ((sched_error + unit) \<times> scheduler) option" where
  "transition_initial_dispatch c s =
     (if current (cpus s c) \<noteq> None then Some (Inl InvalidThreadId, s)
      else do {
        (next, s) \<leftarrow> pop_front_or_idle c s;
        s \<leftarrow> make_running c next s;
        Some (Inr (), upd_cpu c (\<lambda>k. k\<lparr>initialized := True\<rparr>) s)
      })"

definition transition_initialize_idle_current ::
  "usize \<Rightarrow> cpu_id \<Rightarrow> usize \<Rightarrow> usize \<Rightarrow> 'a system_scheme \<Rightarrow> ((sched_error + unit) \<times> 'a system_scheme) option" where
  "transition_initialize_idle_current bootstrap_pc c entry arg s =
     (let k = cpus (sched s) c in
      if initialized k \<or> current k \<noteq> None \<or> idle k \<noteq> None then Some (Inl InvalidThreadId, s)
      else case take_free_slot (sched s) of
          (None, S) \<Rightarrow> Some (Inl ThreadCapacityTooSmall, s\<lparr>sched := S\<rparr>)
        | (Some i, S) \<Rightarrow> do {
            s \<leftarrow> transition_publish_bootstrap bootstrap_pc c i entry arg True (s\<lparr>sched := S\<rparr>);
            (r, S) \<leftarrow> transition_initial_dispatch c (sched s);
            Some (r, s\<lparr>sched := S\<rparr>)
          })"

definition transition_append_bootstrap ::
  "(usize \<Rightarrow> kernel_stack) \<Rightarrow> usize \<Rightarrow> cpu_id \<Rightarrow> usize \<Rightarrow> usize \<Rightarrow> bool \<Rightarrow>
     'a system_scheme \<Rightarrow> (usize \<times> 'a system_scheme) option" where
  "transition_append_bootstrap alloc bootstrap_pc c entry arg is_idle s = do {
     let i = length (slots (lifecycle (sched s)));
     let S = (sched s)\<lparr>lifecycle := (lifecycle (sched s))
               \<lparr>slots := slots (lifecycle (sched s)) @ [slot_free (alloc i)]\<rparr>\<rparr>;
     s \<leftarrow> transition_publish_bootstrap bootstrap_pc c i entry arg is_idle (s\<lparr>sched := S\<rparr>);
     Some (i, s)
   }"

section \<open>Switching\<close>

definition transition_optional_switch :: "cpu_id \<Rightarrow> 'a system_scheme \<Rightarrow> (switch_outcome \<times> 'a system_scheme) option" where
  "transition_optional_switch c s =
     (case current (cpus (sched s) c) of
        None \<Rightarrow> Some (ContinueCurrent, s)
      | Some from \<Rightarrow> do {
          assert_current_running from (sched s);
          (r, S) \<leftarrow> ready_pop_front c (sched s);
          case r of
            None \<Rightarrow> Some (ContinueCurrent, s\<lparr>sched := S\<rparr>)
          | Some to \<Rightarrow> do {
              s \<leftarrow> make_ready_and_queue c from False (s\<lparr>sched := S\<rparr>);
              S \<leftarrow> make_running c to (sched s);
              Some (Switch from to, s\<lparr>sched := S\<rparr>)
            }
        })"

definition sole_wake_possible :: "cpu_id \<Rightarrow> thread_id \<Rightarrow> wait_token \<Rightarrow> scheduler \<Rightarrow> bool option" where
  "sole_wake_possible c from token s =
     (if idle (cpus s c) \<noteq> Some from \<or> ready_queue (cpus s c) \<noteq> [] \<or> remote_ready s c \<noteq> [] \<or>
         wt_cpu token \<noteq> c \<or> \<not> thread_matches (wt_thread token) s then Some False
      else do {
        th \<leftarrow> thread_at (tid_index (wt_thread token)) s;
        Some (home_cpu th = c \<and> tstate th = Blocked)
      })"

definition transition_timed_wake_from_idle ::
  "cpu_id \<Rightarrow> wait_token \<Rightarrow> 'a system_scheme \<Rightarrow> (switch_outcome option \<times> 'a system_scheme) option" where
  "transition_timed_wake_from_idle c token s =
     (case current (cpus (sched s) c) of
        None \<Rightarrow> Some (None, s)
      | Some from \<Rightarrow> do {
          possible \<leftarrow> sole_wake_possible c from token (sched s);
          if \<not> possible then Some (None, s)
          else do {
            assert_current_running from (sched s);
            let to = wt_thread token;
            th \<leftarrow> thread_at (tid_index to) (sched s);
            let (r, w) = wait_complete token Timeout (wait_md th);
            S \<leftarrow> update_thread (tid_index to) (\<lambda>th. th\<lparr>wait_md := w\<rparr>) (sched s);
            if r \<noteq> WokeBlocked then Some (None, s\<lparr>sched := S\<rparr>)
            else do {
              S \<leftarrow> update_thread (tid_index to) (\<lambda>th. th\<lparr>tstate := Ready\<rparr>) S;
              s \<leftarrow> make_ready_and_queue c from False (s\<lparr>sched := S\<rparr>);
              S \<leftarrow> make_running c to (sched s);
              Some (Some (Switch from to), s\<lparr>sched := S\<rparr>)
            }
          }
        })"

section \<open>Waits\<close>

definition transition_commit_wait ::
  "cpu_id \<Rightarrow> prepared_wait \<Rightarrow> 'a system_scheme \<Rightarrow> ((commit_state \<times> switch_outcome option) \<times> 'a system_scheme) option" where
  "transition_commit_wait c prepared s = do {
     assert_preemption_enabled_on c s;
     from \<leftarrow> current (cpus (sched s) c);
     assert_current_running from (sched s);
     idle_id \<leftarrow> idle_thread c (sched s);
     panic_if (from = idle_id);
     th \<leftarrow> thread_at (tid_index from) (sched s);
     let (commit, w) = wait_commit prepared (wait_md th);
     S \<leftarrow> update_thread (tid_index from) (\<lambda>th. th\<lparr>wait_md := w\<rparr>) (sched s);
     case commit of
       CommitBlock _ \<Rightarrow> do {
         (to, S) \<leftarrow> pop_front_or_idle c S;
         S \<leftarrow> update_thread (tid_index from) (\<lambda>th. th\<lparr>tstate := Blocked\<rparr>) S;
         S \<leftarrow> make_running c to S;
         Some ((commit, Some (Switch from to)), s\<lparr>sched := S\<rparr>)
       }
     | _ \<Rightarrow> Some ((commit, None), s\<lparr>sched := S\<rparr>)
   }"

definition transition_prepare_wait :: "cpu_id \<Rightarrow> 'a system_scheme \<Rightarrow> (prepared_wait \<times> 'a system_scheme) option" where
  "transition_prepare_wait c s = do {
     assert_preemption_enabled_on c s;
     cur \<leftarrow> current (cpus (sched s) c);
     assert_current_running cur (sched s);
     th \<leftarrow> thread_at (tid_index cur) (sched s);
     (prepared, w) \<leftarrow> wait_prepare cur c (wait_md th);
     S \<leftarrow> update_thread (tid_index cur) (\<lambda>th. th\<lparr>wait_md := w\<rparr>) (sched s);
     Some (prepared, s\<lparr>sched := S\<rparr>)
   }"

definition transition_prepare_automatic_wait ::
  "cpu_id \<Rightarrow> 'a system_scheme \<Rightarrow> (prepared_wait \<times> 'a system_scheme) option" where
  "transition_prepare_automatic_wait c s = do {
     assert_preemption_enabled_on c s;
     cur \<leftarrow> current (cpus (sched s) c);
     assert_current_running cur (sched s);
     th \<leftarrow> thread_at (tid_index cur) (sched s);
     (prepared, w) \<leftarrow> wait_prepare_automatic cur c (wait_md th);
     S \<leftarrow> update_thread (tid_index cur) (\<lambda>th. th\<lparr>wait_md := w\<rparr>) (sched s);
     Some (prepared, s\<lparr>sched := S\<rparr>)
   }"

definition complete_wait_transition ::
  "wait_token \<Rightarrow> wait_cause \<Rightarrow> bool \<Rightarrow> 'a system_scheme \<Rightarrow> (completion_result \<times> 'a system_scheme) option" where
  "complete_wait_transition token cause notify_ready s =
     (if \<not> thread_matches (wt_thread token) (sched s) then Some (CompletionStale, s)
      else do {
        let i = tid_index (wt_thread token);
        th \<leftarrow> thread_at i (sched s);
        let (r, w) = wait_complete token cause (wait_md th);
        S \<leftarrow> update_thread i (\<lambda>th. th\<lparr>wait_md := w\<rparr>) (sched s);
        let s = s\<lparr>sched := S\<rparr>;
        if r = WokeBlocked then do {
          panic_if (tstate th \<noteq> Blocked);
          let cpu = home_cpu th;
          executing_cpu \<leftarrow> current_cpu s;
          if cpu = executing_cpu then do {
            s \<leftarrow> make_ready_and_queue cpu (wt_thread token) notify_ready s;
            if \<not> notify_ready then do {
              s \<leftarrow> request_reschedule_on cpu s;
              Some (r, s)
            } else Some (r, s)
          }
          else do {
            S \<leftarrow> update_thread i (\<lambda>th. th\<lparr>tstate := Ready\<rparr>) (sched s);
            s \<leftarrow> publish_remote_ready (wt_thread token) cpu (s\<lparr>sched := S\<rparr>);
            Some (r, s)
          }
        }
        else do {
          panic_if (r = CompletedPrepared \<and> tstate th \<noteq> Running);
          Some (r, s)
        }
      })"

definition transition_complete_wait ::
  "wait_token \<Rightarrow> wait_cause \<Rightarrow> 'a system_scheme \<Rightarrow> (completion_result \<times> 'a system_scheme) option" where
  "transition_complete_wait token cause s = complete_wait_transition token cause True s"

definition transition_complete_wait_for_timer ::
  "wait_token \<Rightarrow> 'a system_scheme \<Rightarrow> (completion_result \<times> 'a system_scheme) option" where
  "transition_complete_wait_for_timer token s = complete_wait_transition token Timeout False s"

definition transition_finish_wait ::
  "wait_token \<Rightarrow> scheduler \<Rightarrow> ((finish_error + wait_cause) \<times> scheduler) option" where
  "transition_finish_wait token s =
     (if \<not> thread_matches (wt_thread token) s then Some (Inl FinishStale, s)
      else do {
        let i = tid_index (wt_thread token);
        th \<leftarrow> thread_at i s;
        if current (cpus s (home_cpu th)) \<noteq> Some (wt_thread token) then Some (Inl FinishStale, s)
        else do {
          assert_current_running (wt_thread token) s;
          let (r, w) = wait_finish token (wait_md th);
          s \<leftarrow> update_thread i (\<lambda>th. th\<lparr>wait_md := w\<rparr>) s;
          Some (r, s)
        }
      })"

definition transition_cancel_wait :: "prepared_wait \<Rightarrow> scheduler \<Rightarrow> (cancel_result \<times> scheduler) option" where
  "transition_cancel_wait prepared s =
     (let token = pw_token prepared in
      if \<not> thread_matches (wt_thread token) s then Some (CancelStale, s)
      else do {
        let i = tid_index (wt_thread token);
        th \<leftarrow> thread_at i s;
        if current (cpus s (home_cpu th)) \<noteq> Some (wt_thread token) then Some (CancelStale, s)
        else do {
          assert_current_running (wt_thread token) s;
          let (r, w) = wait_cancel prepared (wait_md th);
          s \<leftarrow> update_thread i (\<lambda>th. th\<lparr>wait_md := w\<rparr>) s;
          Some (r, s)
        }
      })"

section \<open>Exit, retirement and reaping\<close>

definition reap_exited :: "thread_id \<Rightarrow> scheduler \<Rightarrow> (user_resources option \<times> scheduler) option" where
  "reap_exited i s = do {
     (user, t) \<leftarrow> table_release i (lifecycle s);
     Some (user, s\<lparr>lifecycle := t\<rparr>)
   }"

definition complete_joiner ::
  "thread_id \<Rightarrow> wait_token \<Rightarrow> usize \<Rightarrow> bool \<Rightarrow> 'a system_scheme \<Rightarrow> 'a system_scheme option" where
  "complete_joiner target token code notify_ready s = do {
     (r, s) \<leftarrow> complete_wait_transition token Notified notify_ready s;
     panic_if (r \<noteq> WokeBlocked);
     S \<leftarrow> set_join_result (tid_index (wt_thread token)) (Inr code) (sched s);
     Some (s\<lparr>sched := S\<rparr>)
   }"

definition finalize_retired :: "cpu_id \<Rightarrow> bool \<Rightarrow> 'a system_scheme \<Rightarrow> 'a system_scheme option" where
  "finalize_retired c notify_ready s =
     (case retired (cpus (sched s) c) of
        None \<Rightarrow> Some s
      | Some exited \<Rightarrow> do {
          let S = upd_cpu c (\<lambda>k. k\<lparr>retired := None\<rparr>) (sched s);
          panic_if (current (cpus S c) = Some exited \<or> \<not> thread_matches exited S);
          th \<leftarrow> thread_at (tid_index exited) S;
          panic_if (tstate th \<noteq> Exited \<or> home_cpu th \<noteq> c);
          S \<leftarrow> update_thread (tid_index exited) (\<lambda>th. th\<lparr>joiner := None\<rparr>) S;
          let s = s\<lparr>sched := S\<rparr>;
          case joiner th of
            Some token \<Rightarrow> do {
              code \<leftarrow> exit_code th;
              s \<leftarrow> complete_joiner exited token code notify_ready s;
              (resources, S) \<leftarrow> reap_exited exited (sched s);
              S \<leftarrow> set_reaped_user (wt_thread token) resources S;
              Some (s\<lparr>sched := S\<rparr>)
            }
          | None \<Rightarrow>
              if \<not> joinable th then do {
                (resources, S) \<leftarrow> reap_exited exited (sched s);
                panic_if (resources \<noteq> None);
                Some (s\<lparr>sched := S\<rparr>)
              }
              else Some s
        })"

definition transition_finalize_retired :: "cpu_id \<Rightarrow> 'a system_scheme \<Rightarrow> 'a system_scheme option" where
  "transition_finalize_retired c s = finalize_retired c True s"

definition transition_finalize_retired_for_timer :: "cpu_id \<Rightarrow> 'a system_scheme \<Rightarrow> 'a system_scheme option" where
  "transition_finalize_retired_for_timer c s = finalize_retired c False s"

definition transition_exit_current ::
  "cpu_id \<Rightarrow> usize \<Rightarrow> 'a system_scheme \<Rightarrow> (switch_outcome \<times> 'a system_scheme) option" where
  "transition_exit_current c code s = do {
     from \<leftarrow> current (cpus (sched s) c);
     assert_current_running from (sched s);
     idle_id \<leftarrow> idle_thread c (sched s);
     panic_if (from = idle_id);
     panic_if (retired (cpus (sched s) c) \<noteq> None);
     S \<leftarrow> update_thread (tid_index from) (\<lambda>th. th\<lparr>exit_code := Some code, tstate := Exited\<rparr>) (sched s);
     let S = upd_cpu c (\<lambda>k. k\<lparr>retired := Some from\<rparr>) S;
     (to, S) \<leftarrow> pop_front_or_idle c S;
     S \<leftarrow> make_running c to S;
     s \<leftarrow> request_scheduler_ipi c (s\<lparr>sched := S\<rparr>);
     Some (Switch from to, s)
   }"

definition transition_reap_exited :: "thread_id \<Rightarrow> scheduler \<Rightarrow> (user_resources option \<times> scheduler) option" where
  "transition_reap_exited i s = do {
     panic_if (length (slots (lifecycle s)) \<le> tid_index i \<or> \<not> thread_matches i s);
     th \<leftarrow> thread_at (tid_index i) s;
     let k = cpus s (home_cpu th);
     retiring \<leftarrow> thread_is_retiring i s;
     panic_if (idle k = Some i \<or> current k = Some i \<or> retiring \<or> tstate th \<noteq> Exited);
     panic_if (list_ex (\<lambda>q. tid_index q = tid_index i) (ready_queue k));
     reap_exited i s
   }"

definition replace_current_user_payload ::
  "cpu_id \<Rightarrow> user_resources \<Rightarrow> scheduler \<Rightarrow> ((unit + user_resources) \<times> scheduler) option" where
  "replace_current_user_payload c user s =
     (case current (cpus s c) of
        None \<Rightarrow> Some (Inl (), s)
      | Some cur \<Rightarrow> do {
          th \<leftarrow> thread_at (tid_index cur) s;
          s \<leftarrow> update_thread (tid_index cur) (\<lambda>th. th\<lparr>user_res := Some user\<rparr>) s;
          Some (case user_res th of Some old \<Rightarrow> Inr old | None \<Rightarrow> Inl (), s)
        })"

section \<open>The checker\<close>

text \<open>
  \<open>validate_invariants\<close> of the debug and test builds, as the conjunction of the conditions
  whose violation panics.
\<close>

definition validate_cpu :: "scheduler \<Rightarrow> cpu_id \<Rightarrow> bool" where
  "validate_cpu s c \<longleftrightarrow>
     (let k = cpus s c in
      length (ready_queue k) \<le> queue_room s \<and>
      length (remote_ready s c) \<le> queue_room s \<and>
      (remote_ready s c \<noteq> [] \<longrightarrow> scheduler_ipi_pending s c) \<and>
      (online k \<longrightarrow> initialized k) \<and>
      (case retired k of
         None \<Rightarrow> True
       | Some r \<Rightarrow> thread_matches r s \<and>
           (case thread_at (tid_index r) s of
              None \<Rightarrow> False
            | Some th \<Rightarrow> home_cpu th = c \<and> tstate th = Exited \<and> current k \<noteq> Some r)))"

definition queued_count :: "thread_id \<Rightarrow> cpu_id \<Rightarrow> scheduler \<Rightarrow> nat" where
  "queued_count i c s = count_list (ready_queue (cpus s c)) i + count_list (remote_ready s c) i"

definition validate_slot :: "scheduler \<Rightarrow> usize \<Rightarrow> bool" where
  "validate_slot s i \<longleftrightarrow>
     (let slot = slots (lifecycle s) ! i; tid = ThreadId i (generation slot) in
      case slot_thread slot of
        None \<Rightarrow> slot_stack slot \<noteq> None \<and>
          (\<forall>c\<in>set [0..<KERNEL_CPU_CAPACITY].
             \<forall>q\<in>set (ready_queue (cpus s c)) \<union> set (remote_ready s c). tid_index q \<noteq> i)
      | Some th \<Rightarrow>
          (let c = home_cpu th; queued = queued_count tid c s; w = wait_md th in
           queued \<le> 1 \<and> slot_stack slot = None \<and>
           (case user_res th of None \<Rightarrow> True | Some u \<Rightarrow> owner_cpu (res_address_space u) = c) \<and>
           (case tstate th of
              Ready \<Rightarrow> if idle (cpus s c) = Some tid then queued = 0 else queued = 1
            | Running \<Rightarrow> current (cpus s c) = Some tid \<and> queued = 0
            | Blocked \<Rightarrow> queued = 0 \<and> wait_is_blocked w
            | Exited \<Rightarrow> queued = 0 \<and> wait_is_none w) \<and>
           (wait_is_prepared w \<longrightarrow> tstate th = Running) \<and>
           (wait_is_completed w \<longrightarrow> tstate th = Ready \<or> tstate th = Running) \<and>
           (wait_is_blocked w \<longrightarrow> tstate th = Blocked)))"

definition validate_ready :: "scheduler \<Rightarrow> cpu_id \<Rightarrow> bool" where
  "validate_ready s c \<longleftrightarrow>
     (\<forall>q\<in>set (ready_queue (cpus s c)).
        thread_matches q s \<and> idle (cpus s c) \<noteq> Some q \<and>
        (case thread_at (tid_index q) s of
           None \<Rightarrow> False
         | Some th \<Rightarrow> tstate th = Ready \<and> home_cpu th = c))"

definition validate_current :: "scheduler \<Rightarrow> cpu_id \<Rightarrow> bool" where
  "validate_current s c \<longleftrightarrow>
     (let k = cpus s c in
      (online k \<longrightarrow> initialized k) \<and>
      (initialized k \<longrightarrow>
         (case (current k, idle k) of
            (Some cur, Some idl) \<Rightarrow>
              (case (thread_at (tid_index cur) s, thread_at (tid_index idl) s) of
                 (Some ct, Some it) \<Rightarrow> home_cpu ct = c \<and> home_cpu it = c \<and> tstate ct = Running
               | _ \<Rightarrow> False)
          | _ \<Rightarrow> False)))"

definition running_slots :: "scheduler \<Rightarrow> thread_slot list" where
  "running_slots s = filter (\<lambda>slot. case slot_thread slot of Some th \<Rightarrow> tstate th = Running | None \<Rightarrow> False) (slots (lifecycle s))"

definition validate_invariants :: "scheduler \<Rightarrow> bool" where
  "validate_invariants s \<longleftrightarrow>
     (\<forall>c\<in>set [0..<KERNEL_CPU_CAPACITY]. validate_cpu s c) \<and>
     (\<forall>i\<in>set [0..<length (slots (lifecycle s))]. validate_slot s i) \<and>
     (\<forall>c\<in>set [0..<KERNEL_CPU_CAPACITY]. validate_ready s c) \<and>
     (\<forall>c\<in>set [0..<KERNEL_CPU_CAPACITY]. validate_current s c) \<and>
     length (running_slots s) = length (filter (\<lambda>c. initialized (cpus s c)) [0..<KERNEL_CPU_CAPACITY])"

end
