(* ===== verification/Sched_Ops.thy ===== *)
theory Sched_Ops
  imports Sched_Transition Cpu
begin

text \<open>
  The scheduler's operations on a CPU: context handoff, checkpoints, the scheduler and timer
  interrupts (\<^verbatim>\<open>sched/preempt.rs\<close>, \<^verbatim>\<open>time.rs\<close>), blocking waits (\<^verbatim>\<open>sched/wait.rs\<close>,
  \<^verbatim>\<open>sched/sleep.rs\<close>), thread creation, exit and join (\<^verbatim>\<open>sched/thread.rs\<close>), and bootstrap
  (\<^verbatim>\<open>sched/bootstrap.rs\<close>). The argument \<open>live\<close> is the trap frame of the exception being
  handled; a handoff saves it into the outgoing thread and replaces it.
\<close>

section \<open>Context handoff\<close>

definition running_thread :: "cpu_id \<Rightarrow> 'a system_scheme \<Rightarrow> thread_id option" where
  "running_thread c s = current (cpus (sched s) c)"

definition scheduler_online :: "cpu_id \<Rightarrow> 'a system_scheme \<Rightarrow> bool" where
  "scheduler_online c s \<longleftrightarrow> sched_published s \<and> c < KERNEL_CPU_CAPACITY \<and> online (cpus (sched s) c)"

definition saved_context_of :: "thread_id \<Rightarrow> scheduler \<Rightarrow> trap_frame option" where
  "saved_context_of i s = map_option saved_ctx (thread_at (tid_index i) s)"

definition clear_current_space :: "'a system_scheme \<Rightarrow> 'a system_scheme option" where
  "clear_current_space s = do {
     let (r, spaces) = clear_user_address_space (arch_clear s) (current_cpu s) (user_spaces s);
     panic_if (isl r);
     Some (s\<lparr>user_spaces := spaces\<rparr>)
   }"

definition activate_thread_address_space :: "cpu_id \<Rightarrow> thread_id \<Rightarrow> 'a system_scheme \<Rightarrow> 'a system_scheme option" where
  "activate_thread_address_space c i s = do {
     aspace \<leftarrow> thread_address_space (tid_index i) (sched s);
     let (r, spaces) = (case aspace of
         None \<Rightarrow>
           if idle (cpus (sched s) c) = Some i
           then retain_user_address_space_for_idle (current_cpu s) (user_spaces s)
           else clear_user_address_space (arch_clear s) (current_cpu s) (user_spaces s)
       | Some a \<Rightarrow> activate_user_address_space (arch_activate s) (current_cpu s) a (user_spaces s));
     panic_if (isl r);
     Some (s\<lparr>user_spaces := spaces\<rparr>)
   }"

definition save_context :: "thread_id \<Rightarrow> trap_frame \<Rightarrow> scheduler \<Rightarrow> scheduler option" where
  "save_context i live s = update_thread (tid_index i) (\<lambda>th. th\<lparr>saved_ctx := save_from (saved_ctx th) live\<rparr>) s"

definition handoff_selected ::
  "cpu_id \<Rightarrow> trap_frame \<Rightarrow> switch_outcome \<Rightarrow> 'a system_scheme \<Rightarrow> (trap_frame \<times> 'a system_scheme) option" where
  "handoff_selected c live outcome s =
     (case outcome of
        ContinueCurrent \<Rightarrow> Some (live, s)
      | Switch from to \<Rightarrow> do {
          S \<leftarrow> save_context from live (sched s);
          saved \<leftarrow> saved_context_of to S;
          s \<leftarrow> activate_thread_address_space c to (s\<lparr>sched := S\<rparr>);
          Some (restore_into saved live, s)
        })"

definition handoff_optional ::
  "cpu_id \<Rightarrow> trap_frame \<Rightarrow> 'a system_scheme \<Rightarrow> (trap_frame \<times> 'a system_scheme) option" where
  "handoff_optional c live s = do {
     (outcome, s) \<leftarrow> transition_optional_switch c s;
     handoff_selected c live outcome s
   }"

section \<open>Quantum upkeep\<close>

definition replace_quantum_event :: "cpu_id \<Rightarrow> thread_id \<Rightarrow> 'a system_scheme \<Rightarrow> 'a system_scheme option" where
  "replace_quantum_event c obsolete_thread s = do {
     s \<leftarrow> cancel_event (quantum_expired c obsolete_thread) s;
     ensure_quantum_event c s
   }"

definition note_quantum_expired :: "cpu_id \<Rightarrow> thread_id \<Rightarrow> 'a system_scheme \<Rightarrow> 'a system_scheme option" where
  "note_quantum_expired c t s =
     (if running_thread c s = Some t then request_reschedule_on c s else Some s)"

definition finish_block_after_quantum_cancel :: "cpu_id \<Rightarrow> 'a system_scheme \<Rightarrow> 'a system_scheme option" where
  "finish_block_after_quantum_cancel c s = do {
     (_, s) \<leftarrow> consume_checkpoint_on c (online (cpus (sched s) c)) s;
     ensure_quantum_event c s
   }"

definition finish_block_current :: "cpu_id \<Rightarrow> thread_id \<Rightarrow> 'a system_scheme \<Rightarrow> 'a system_scheme option" where
  "finish_block_current c cur s = do {
     s \<leftarrow> cancel_event (quantum_expired c cur) s;
     finish_block_after_quantum_cancel c s
   }"

section \<open>Checkpoints and interrupts\<close>

text \<open>The common end of a checkpoint: an optional switch, only for a consumed request.\<close>

definition checkpoint_switch ::
  "cpu_id \<Rightarrow> trap_frame \<Rightarrow> 'a system_scheme \<Rightarrow> (trap_frame \<times> 'a system_scheme) option" where
  "checkpoint_switch c live s = do {
     (checkpoint, s) \<leftarrow> consume_checkpoint_on c (online (cpus (sched s) c)) s;
     if \<not> checkpoint then Some (live, s)
     else case running_thread c s of
         None \<Rightarrow> Some (live, s)
       | Some cur \<Rightarrow> do {
           (live, s) \<leftarrow> handoff_optional c live s;
           s \<leftarrow> replace_quantum_event c cur s;
           Some (live, s)
         }
   }"

definition preempt_checkpoint ::
  "cpu_id \<Rightarrow> trap_frame \<Rightarrow> 'a system_scheme \<Rightarrow> (trap_frame \<times> 'a system_scheme) option" where
  "preempt_checkpoint c live s = do {
     s \<leftarrow> transition_finalize_retired c s;
     checkpoint_switch c live s
   }"

definition finish_scheduler_ipi ::
  "cpu_id \<Rightarrow> trap_frame \<Rightarrow> 'a system_scheme \<Rightarrow> (trap_frame \<times> 'a system_scheme) option" where
  "finish_scheduler_ipi c live s = do {
     s \<leftarrow> transition_finalize_retired c s;
     if \<not> online (cpus (sched s) c) then Some (live, s)
     else do {
       S \<leftarrow> consume_scheduler_ipi c (sched s);
       s \<leftarrow> note_runnable_peer_available c (s\<lparr>sched := S\<rparr>);
       checkpoint_switch c live s
     }
   }"

fun dispatch_expired :: "cpu_id \<Rightarrow> timed_event list \<Rightarrow> 'a system_scheme \<Rightarrow> 'a system_scheme option" where
  "dispatch_expired c [] s = Some s"
| "dispatch_expired c (ev # evs) s = do {
     s \<leftarrow> (case ev of
         WaitDeadline cpu token \<Rightarrow> do {
           panic_if (cpu \<noteq> c \<or> wt_cpu token \<noteq> c);
           (_, s) \<leftarrow> transition_complete_wait_for_timer token s;
           Some s
         }
       | QuantumExpired cpu t \<Rightarrow> do {
           panic_if (cpu \<noteq> c);
           note_quantum_expired c t s
         });
     dispatch_expired c evs s
   }"

definition no_quantum_update :: quantum_update where
  "no_quantum_update = \<lparr>obsolete = None, ensure = None\<rparr>"

text \<open>The single-event shortcut: a lone deadline on an idle CPU selects its thread at once.\<close>

definition timed_wake_shortcut ::
  "cpu_id \<Rightarrow> trap_frame \<Rightarrow> expired_events \<Rightarrow> 'a system_scheme \<Rightarrow> (trap_frame option \<times> 'a system_scheme) option" where
  "timed_wake_shortcut c live expired s = do {
     single \<leftarrow> expired_single expired;
     case single of
       Some (WaitDeadline cpu token) \<Rightarrow> do {
         panic_if (cpu \<noteq> c \<or> wt_cpu token \<noteq> c);
         disabled \<leftarrow> is_disabled s;
         if disabled then Some (None, s)
         else do {
           (outcome, s) \<leftarrow> transition_timed_wake_from_idle c token s;
           case outcome of
             None \<Rightarrow> Some (None, s)
           | Some out \<Rightarrow> do {
               (_, s) \<leftarrow> consume_checkpoint_on c True s;
               (live, s) \<leftarrow> handoff_selected c live out s;
               Some (Some live, s)
             }
         }
       }
     | _ \<Rightarrow> Some (None, s)
   }"

definition finish_timer_batch ::
  "cpu_id \<Rightarrow> thread_id \<Rightarrow> trap_frame \<Rightarrow> u64 \<Rightarrow> expired_events \<Rightarrow> 'a system_scheme \<Rightarrow>
     (quantum_update \<times> trap_frame \<times> 'a system_scheme) option" where
  "finish_timer_batch c cur live now expired s = do {
     evs \<leftarrow> expired_iter expired;
     s \<leftarrow> dispatch_expired c evs s;
     s \<leftarrow> (if idle (cpus (sched s) c) = Some cur \<and> has_runnable_peer c (sched s)
           then request_reschedule_on c s else Some s);
     (checkpoint, s) \<leftarrow> consume_checkpoint_on c (online (cpus (sched s) c)) s;
     (live, s) \<leftarrow> (if checkpoint then handoff_optional c live s else Some (live, s));
     ens \<leftarrow> (if has_runnable_peer c (sched s) then do {
         t \<leftarrow> running_thread c s;
         Some (Some (now + ms_to_counts (counter_freq s) (rr_quantum_ms (sched s)), quantum_expired c t))
       } else Some None);
     Some (\<lparr>obsolete = (if checkpoint then Some (quantum_expired c cur) else None), ensure = ens\<rparr>, live, s)
   }"

definition finish_timer_interrupt ::
  "cpu_id \<Rightarrow> trap_frame \<Rightarrow> u64 \<Rightarrow> expired_events \<Rightarrow> 'a system_scheme \<Rightarrow>
     (quantum_update \<times> trap_frame \<times> 'a system_scheme) option" where
  "finish_timer_interrupt c live now expired s = do {
     s \<leftarrow> transition_finalize_retired_for_timer c s;
     if \<not> online (cpus (sched s) c) then Some (no_quantum_update, live, s)
     else case running_thread c s of
         None \<Rightarrow> Some (no_quantum_update, live, s)
       | Some cur \<Rightarrow> do {
           (woken, s) \<leftarrow> timed_wake_shortcut c live expired s;
           case woken of
             Some live \<Rightarrow> Some (no_quantum_update, live, s)
           | None \<Rightarrow> finish_timer_batch c cur live now expired s
         }
   }"

definition on_timer_interrupt :: "trap_frame \<Rightarrow> 'a system_scheme \<Rightarrow> (trap_frame \<times> 'a system_scheme) option" where
  "on_timer_interrupt live s = do {
     c \<leftarrow> current_cpu s;
     (taken, s) \<leftarrow> timer_interrupt_begin c s;
     case taken of
       None \<Rightarrow> Some (live, s)
     | Some (now, expired) \<Rightarrow> do {
         panic_if (\<not> sched_published s);
         (quantum, live, s) \<leftarrow> finish_timer_interrupt c live now expired s;
         s \<leftarrow> timer_interrupt_end c quantum expired s;
         Some (live, s)
       }
   }"

definition on_scheduler_ipi :: "trap_frame \<Rightarrow> 'a system_scheme \<Rightarrow> (trap_frame \<times> 'a system_scheme) option" where
  "on_scheduler_ipi live s = do {
     c \<leftarrow> current_cpu s;
     panic_if (\<not> sched_published s);
     finish_scheduler_ipi c live s
   }"

definition on_preempt_checkpoint :: "trap_frame \<Rightarrow> 'a system_scheme \<Rightarrow> (trap_frame \<times> 'a system_scheme) option" where
  "on_preempt_checkpoint live s = do {
     c \<leftarrow> current_cpu s;
     panic_if (\<not> sched_published s);
     preempt_checkpoint c live s
   }"

text \<open>First entry: the frame of the selected thread, which the architecture then enters.\<close>

definition prepare_running_thread_entry :: "cpu_id \<Rightarrow> 'a system_scheme \<Rightarrow> (trap_frame \<times> 'a system_scheme) option" where
  "prepare_running_thread_entry c s = do {
     running \<leftarrow> running_thread c s;
     panic_if (online (cpus (sched s) c));
     s \<leftarrow> ensure_quantum_event c s;
     s \<leftarrow> activate_thread_address_space c running s;
     let s = s\<lparr>sched := upd_cpu c (\<lambda>k. k\<lparr>online := True\<rparr>) (sched s)\<rparr>;
     saved \<leftarrow> saved_context_of running (sched s);
     Some (saved, s)
   }"

definition enter_running_thread :: "'a system_scheme \<Rightarrow> (trap_frame \<times> 'a system_scheme) option" where
  "enter_running_thread s = do {
     c \<leftarrow> current_cpu s;
     panic_if (\<not> sched_published s);
     prepare_running_thread_entry c s
   }"

section \<open>Blocking\<close>

datatype commit_result = CommitBlocked switch_outcome | CommittedEarly wait_cause | CommittedStale

definition commit_wait_with ::
  "cpu_id \<Rightarrow> (thread_id \<Rightarrow> 'a system_scheme \<Rightarrow> 'a system_scheme option) \<Rightarrow> trap_frame \<Rightarrow> prepared_wait \<Rightarrow>
     'a system_scheme \<Rightarrow> (commit_result \<times> trap_frame \<times> 'a system_scheme) option" where
  "commit_wait_with c finish live prepared s = do {
     ((commit, outcome), s) \<leftarrow> transition_commit_wait c prepared s;
     case (commit, outcome) of
       (CommitEarly cause, None) \<Rightarrow> Some (CommittedEarly cause, live, s)
     | (CommitStale, None) \<Rightarrow> Some (CommittedStale, live, s)
     | (CommitBlock _, Some (Switch from to)) \<Rightarrow> do {
         (live, s) \<leftarrow> handoff_selected c live (Switch from to) s;
         s \<leftarrow> finish from s;
         Some (CommitBlocked (Switch from to), live, s)
       }
     | _ \<Rightarrow> None
   }"

definition commit_prepared_wait ::
  "cpu_id \<Rightarrow> trap_frame \<Rightarrow> prepared_wait \<Rightarrow> 'a system_scheme \<Rightarrow> (commit_result \<times> trap_frame \<times> 'a system_scheme) option" where
  "commit_prepared_wait c live prepared s = commit_wait_with c (finish_block_current c) live prepared s"

definition commit_prepared_sleep ::
  "cpu_id \<Rightarrow> trap_frame \<Rightarrow> prepared_wait \<Rightarrow> 'a system_scheme \<Rightarrow> (commit_result \<times> trap_frame \<times> 'a system_scheme) option" where
  "commit_prepared_sleep c live prepared s =
     commit_wait_with c (\<lambda>_. finish_block_after_quantum_cancel c) live prepared s"

definition prepare_wait :: "'a system_scheme \<Rightarrow> (prepared_wait \<times> 'a system_scheme) option" where
  "prepare_wait s = do {
     c \<leftarrow> current_cpu s;
     panic_if (\<not> sched_published s);
     transition_prepare_wait c s
   }"

definition commit_wait ::
  "trap_frame \<Rightarrow> prepared_wait \<Rightarrow> 'a system_scheme \<Rightarrow> (commit_result \<times> trap_frame \<times> 'a system_scheme) option" where
  "commit_wait live prepared s = do {
     c \<leftarrow> current_cpu s;
     panic_if (\<not> sched_published s);
     commit_prepared_wait c live prepared s
   }"

definition complete_wait ::
  "wait_token \<Rightarrow> wait_cause \<Rightarrow> 'a system_scheme \<Rightarrow> (completion_result \<times> 'a system_scheme) option" where
  "complete_wait token cause s = do {
     panic_if (\<not> sched_published s);
     transition_complete_wait token cause s
   }"

definition finish_wait ::
  "wait_token \<Rightarrow> 'a system_scheme \<Rightarrow> ((finish_error + wait_cause) \<times> 'a system_scheme) option" where
  "finish_wait token s = do {
     panic_if (\<not> sched_published s);
     (r, S) \<leftarrow> transition_finish_wait token (sched s);
     Some (r, s\<lparr>sched := S\<rparr>)
   }"

definition cancel_wait :: "prepared_wait \<Rightarrow> 'a system_scheme \<Rightarrow> (cancel_result \<times> 'a system_scheme) option" where
  "cancel_wait prepared s = do {
     panic_if (\<not> sched_published s);
     (r, S) \<leftarrow> transition_cancel_wait prepared (sched s);
     Some (r, s\<lparr>sched := S\<rparr>)
   }"

text \<open>The output record a blocking call keeps on the caller's stack.\<close>

record wait_output =
  out_token :: "wait_token option"
  out_early :: "wait_cause option"

definition wait_output_new :: wait_output where
  "wait_output_new = \<lparr>out_token = None, out_early = None\<rparr>"

definition record_token :: "wait_token \<Rightarrow> wait_output \<Rightarrow> wait_output" where
  "record_token token out = out\<lparr>out_token := Some token\<rparr>"

definition record_early :: "wait_cause \<Rightarrow> wait_output \<Rightarrow> wait_output" where
  "record_early cause out = out\<lparr>out_early := Some cause\<rparr>"

text \<open>Nothing registered gives no completion; otherwise the early cause or the finished wait's.\<close>

definition take_completion ::
  "wait_output \<Rightarrow> 'a system_scheme \<Rightarrow> ((wait_token \<times> wait_cause) option \<times> wait_output \<times> 'a system_scheme) option" where
  "take_completion out s =
     (case out_token out of
        None \<Rightarrow> Some (None, out, s)
      | Some token \<Rightarrow>
          (case out_early out of
             Some cause \<Rightarrow> Some (Some (token, cause), wait_output_new, s)
           | None \<Rightarrow> do {
               (r, s) \<leftarrow> finish_wait token s;
               case r of
                 Inr cause \<Rightarrow> Some (Some (token, cause), wait_output_new, s)
               | Inl _ \<Rightarrow> None
             }))"

definition on_sleep_sync ::
  "trap_frame \<Rightarrow> u64 \<Rightarrow> wait_output \<Rightarrow> 'a system_scheme \<Rightarrow> (wait_output \<times> trap_frame \<times> 'a system_scheme) option" where
  "on_sleep_sync live until out s = do {
     (prepared, s) \<leftarrow> prepare_wait s;
     let token = pw_token prepared;
     let out = record_token token out;
     s \<leftarrow> schedule_event until (wait_deadline token) s;
     (r, live, s) \<leftarrow> commit_wait live prepared s;
     case r of
       CommitBlocked _ \<Rightarrow> Some (out, live, s)
     | CommittedEarly cause \<Rightarrow> Some (record_early cause out, live, s)
     | CommittedStale \<Rightarrow> None
   }"

definition sleep_user_until_counter ::
  "trap_frame \<Rightarrow> u64 \<Rightarrow> 'a system_scheme \<Rightarrow> (bool \<times> trap_frame \<times> 'a system_scheme) option" where
  "sleep_user_until_counter live until s = do {
     c \<leftarrow> current_cpu s;
     panic_if (\<not> sched_published s);
     (prepared, s) \<leftarrow> transition_prepare_automatic_wait c s;
     let token = pw_token prepared;
     s \<leftarrow> publish_sleep until token s;
     (r, live, s) \<leftarrow> commit_prepared_sleep c live prepared s;
     case r of
       CommitBlocked _ \<Rightarrow> Some (True, live, s)
     | CommittedEarly _ \<Rightarrow> do {
         s \<leftarrow> cancel_event (wait_deadline token) s;
         s \<leftarrow> ensure_quantum_event c s;
         Some (False, live, s)
       }
     | CommittedStale \<Rightarrow> None
   }"

section \<open>Thread creation\<close>

datatype thread_affinity = CurrentCpu | OnCpu cpu_id

record thread_attrs =
  attr_joinable :: bool
  attr_affinity :: thread_affinity

definition attrs_joinable :: thread_attrs where
  "attrs_joinable = \<lparr>attr_joinable = True, attr_affinity = CurrentCpu\<rparr>"

definition attrs_detached :: thread_attrs where
  "attrs_detached = \<lparr>attr_joinable = False, attr_affinity = CurrentCpu\<rparr>"

definition with_affinity :: "cpu_id \<Rightarrow> thread_attrs \<Rightarrow> thread_attrs" where
  "with_affinity cpu a = a\<lparr>attr_affinity := OnCpu cpu\<rparr>"

datatype spawn_error =
    NoThreadSlots | NoStackSlots | SpawnNotInitialized | InvalidCpuAffinity | CpuOffline
  | UserThreadMustBeJoinable

definition resolve_affinity :: "cpu_id \<Rightarrow> thread_affinity \<Rightarrow> 'a system_scheme \<Rightarrow> spawn_error + cpu_id" where
  "resolve_affinity c affinity s =
     (let target = (case affinity of CurrentCpu \<Rightarrow> c | OnCpu cpu \<Rightarrow> cpu)
      in if KERNEL_CPU_CAPACITY \<le> target \<or> cpus_registered s \<le> target then Inl InvalidCpuAffinity
         else if \<not> online (cpus (sched s) target) then Inl CpuOffline
         else Inr target)"

definition spawn_thread ::
  "usize \<Rightarrow> cpu_id \<Rightarrow> usize \<Rightarrow> usize \<Rightarrow> thread_attrs \<Rightarrow> 'a system_scheme \<Rightarrow>
     ((spawn_error + thread_id) \<times> 'a system_scheme) option" where
  "spawn_thread bootstrap_pc c entry arg attrs s = do {
     s \<leftarrow> transition_finalize_retired c s;
     case resolve_affinity c (attr_affinity attrs) s of
       Inl err \<Rightarrow> Some (Inl err, s)
     | Inr target \<Rightarrow>
         (case take_free_slot (sched s) of
            (None, S) \<Rightarrow> Some (Inl NoThreadSlots, s\<lparr>sched := S\<rparr>)
          | (Some i, S) \<Rightarrow> do {
              top \<leftarrow> stack_top i S;
              let ctx = saved_context_kernel_entry top entry arg bootstrap_pc;
              (tid, s) \<leftarrow> transition_publish_runtime c target i ctx None (attr_joinable attrs) (s\<lparr>sched := S\<rparr>);
              Some (Inr tid, s)
            })
   }"

definition thread_spawn ::
  "usize \<Rightarrow> usize \<Rightarrow> usize \<Rightarrow> thread_attrs \<Rightarrow> 'a system_scheme \<Rightarrow>
     ((spawn_error + thread_id) \<times> 'a system_scheme) option" where
  "thread_spawn bootstrap_pc entry arg attrs s = do {
     c \<leftarrow> current_cpu s;
     if \<not> sched_published s then Some (Inl SpawnNotInitialized, s)
     else spawn_thread bootstrap_pc c entry arg attrs s
   }"

text \<open>The common part of the two user spawns; \<open>ctx\<close> builds the frame from the kernel stack top.\<close>

definition spawn_user_with ::
  "(usize \<Rightarrow> trap_frame) \<Rightarrow> cpu_id \<Rightarrow> address_space_id \<Rightarrow> owned_user_stack \<Rightarrow> thread_attrs \<Rightarrow>
     (thread_id \<Rightarrow> cpu_id \<Rightarrow> address_space_id \<Rightarrow> 'a system_scheme \<Rightarrow> 'a system_scheme option) \<Rightarrow>
     'a system_scheme \<Rightarrow> (((spawn_error \<times> owned_user_stack) + thread_id) \<times> 'a system_scheme) option" where
  "spawn_user_with ctx c aspace stack attrs on_pre_ready s =
     (case resolve_affinity c (attr_affinity attrs) s of
        Inl err \<Rightarrow> Some (Inl (err, stack), s)
      | Inr target \<Rightarrow>
          if \<not> attr_joinable attrs then Some (Inl (UserThreadMustBeJoinable, stack), s)
          else (case take_free_slot (sched s) of
             (None, S) \<Rightarrow> Some (Inl (NoThreadSlots, stack), s\<lparr>sched := S\<rparr>)
           | (Some i, S) \<Rightarrow> do {
               top \<leftarrow> stack_top i S;
               (tid, s) \<leftarrow> transition_publish_runtime_with_pre_ready c target i (ctx top)
                  (Some \<lparr>res_address_space = aspace, res_stack = stack\<rparr>) (attr_joinable attrs) on_pre_ready
                  (s\<lparr>sched := S\<rparr>);
               Some (Inr tid, s)
             }))"

definition spawn_user_thread ::
  "cpu_id \<Rightarrow> address_space_id \<Rightarrow> owned_user_stack \<Rightarrow> usize \<Rightarrow> usize \<Rightarrow> usize \<Rightarrow> thread_attrs \<Rightarrow>
     (thread_id \<Rightarrow> cpu_id \<Rightarrow> address_space_id \<Rightarrow> 'a system_scheme \<Rightarrow> 'a system_scheme option) \<Rightarrow>
     'a system_scheme \<Rightarrow> (((spawn_error \<times> owned_user_stack) + thread_id) \<times> 'a system_scheme) option" where
  "spawn_user_thread c aspace stack user_entry user_sp arg0 attrs on_pre_ready s =
     spawn_user_with (\<lambda>top. saved_context_user_entry user_entry user_sp top arg0) c aspace stack attrs on_pre_ready s"

definition spawn_user_thread_from_context ::
  "cpu_id \<Rightarrow> address_space_id \<Rightarrow> owned_user_stack \<Rightarrow> trap_frame \<Rightarrow> thread_attrs \<Rightarrow>
     (thread_id \<Rightarrow> cpu_id \<Rightarrow> address_space_id \<Rightarrow> 'a system_scheme \<Rightarrow> 'a system_scheme option) \<Rightarrow>
     'a system_scheme \<Rightarrow> (((spawn_error \<times> owned_user_stack) + thread_id) \<times> 'a system_scheme) option" where
  "spawn_user_thread_from_context c aspace stack live attrs on_pre_ready s =
     spawn_user_with (saved_context_fork_child live) c aspace stack attrs on_pre_ready s"

definition thread_spawn_user ::
  "address_space_id \<Rightarrow> owned_user_stack \<Rightarrow> usize \<Rightarrow> usize \<Rightarrow> usize \<Rightarrow> thread_attrs \<Rightarrow>
     (thread_id \<Rightarrow> cpu_id \<Rightarrow> address_space_id \<Rightarrow> 'a system_scheme \<Rightarrow> 'a system_scheme option) \<Rightarrow>
     'a system_scheme \<Rightarrow> (((spawn_error \<times> owned_user_stack) + thread_id) \<times> 'a system_scheme) option" where
  "thread_spawn_user aspace stack user_entry user_sp arg0 attrs on_pre_ready s = do {
     c \<leftarrow> current_cpu s;
     if \<not> sched_published s then Some (Inl (SpawnNotInitialized, stack), s)
     else spawn_user_thread c aspace stack user_entry user_sp arg0 attrs on_pre_ready s
   }"

definition thread_spawn_user_from_context ::
  "address_space_id \<Rightarrow> owned_user_stack \<Rightarrow> trap_frame \<Rightarrow> thread_attrs \<Rightarrow>
     (thread_id \<Rightarrow> cpu_id \<Rightarrow> address_space_id \<Rightarrow> 'a system_scheme \<Rightarrow> 'a system_scheme option) \<Rightarrow>
     'a system_scheme \<Rightarrow> (((spawn_error \<times> owned_user_stack) + thread_id) \<times> 'a system_scheme) option" where
  "thread_spawn_user_from_context aspace stack live attrs on_pre_ready s = do {
     c \<leftarrow> current_cpu s;
     if \<not> sched_published s then Some (Inl (SpawnNotInitialized, stack), s)
     else spawn_user_thread_from_context c aspace stack live attrs on_pre_ready s
   }"

section \<open>Exit, join and exec\<close>

definition exit_current :: "cpu_id \<Rightarrow> trap_frame \<Rightarrow> usize \<Rightarrow> 'a system_scheme \<Rightarrow> (trap_frame \<times> 'a system_scheme) option" where
  "exit_current c live code s = do {
     s \<leftarrow> transition_finalize_retired c s;
     (outcome, s) \<leftarrow> transition_exit_current c code s;
     case outcome of
       ContinueCurrent \<Rightarrow> None
     | Switch exited next \<Rightarrow> do {
         aspace \<leftarrow> thread_address_space (tid_index exited) (sched s);
         s \<leftarrow> (if aspace \<noteq> None \<and> idle (cpus (sched s) c) = Some next then clear_current_space s else Some s);
         saved \<leftarrow> saved_context_of next (sched s);
         s \<leftarrow> activate_thread_address_space c next s;
         s \<leftarrow> finish_block_current c exited s;
         Some (restore_into saved live, s)
       }
   }"

definition on_thread_exit_sync :: "trap_frame \<Rightarrow> usize \<Rightarrow> 'a system_scheme \<Rightarrow> (trap_frame \<times> 'a system_scheme) option" where
  "on_thread_exit_sync live code s = do {
     c \<leftarrow> current_cpu s;
     assert_preemption_enabled_on c s;
     panic_if (\<not> sched_published s);
     exit_current c live code s
   }"

text \<open>The immediate answers of a join, in the order the code tests them.\<close>

definition join_refusal :: "cpu_id \<Rightarrow> thread_id \<Rightarrow> thread_id \<Rightarrow> scheduler \<Rightarrow> join_error option option" where
  "join_refusal c cur target s =
     (if idle (cpus s c) = Some cur then Some (Some NotJoinable)
      else if \<not> thread_matches target s then Some (Some InvalidThread)
      else do {
        th \<leftarrow> thread_at (tid_index target) s;
        Some (if idle (cpus s (home_cpu th)) = Some target then Some NotJoinable
              else if tid_index target = tid_index cur then Some SelfJoin
              else if \<not> joinable th then Some NotJoinable
              else if joiner th \<noteq> None then Some JoinInProgress
              else None)
      })"

definition join_exited :: "thread_id \<Rightarrow> thread_id \<Rightarrow> thread \<Rightarrow> 'a system_scheme \<Rightarrow> 'a system_scheme option" where
  "join_exited cur target th s = do {
     code \<leftarrow> exit_code th;
     (reaped, S) \<leftarrow> transition_reap_exited target (sched s);
     S \<leftarrow> set_reaped_user cur reaped S;
     S \<leftarrow> set_join_result (tid_index cur) (Inr code) S;
     Some (s\<lparr>sched := S\<rparr>)
   }"

definition join_block ::
  "cpu_id \<Rightarrow> trap_frame \<Rightarrow> thread_id \<Rightarrow> wait_output \<Rightarrow> 'a system_scheme \<Rightarrow>
     (wait_output \<times> trap_frame \<times> 'a system_scheme) option" where
  "join_block c live target out s = do {
     assert_preemption_enabled_on c s;
     (prepared, s) \<leftarrow> transition_prepare_wait c s;
     let token = pw_token prepared;
     let out = record_token token out;
     S \<leftarrow> update_thread (tid_index target) (\<lambda>th. th\<lparr>joiner := Some token\<rparr>) (sched s);
     (r, live, s) \<leftarrow> commit_prepared_wait c live prepared (s\<lparr>sched := S\<rparr>);
     case r of
       CommitBlocked _ \<Rightarrow> Some (out, live, s)
     | CommittedEarly cause \<Rightarrow> Some (record_early cause out, live, s)
     | CommittedStale \<Rightarrow> None
   }"

definition join_thread ::
  "cpu_id \<Rightarrow> trap_frame \<Rightarrow> thread_id \<Rightarrow> wait_output \<Rightarrow> 'a system_scheme \<Rightarrow>
     (wait_output \<times> trap_frame \<times> 'a system_scheme) option" where
  "join_thread c live target out s = do {
     s \<leftarrow> transition_finalize_retired c s;
     cur \<leftarrow> running_thread c s;
     me \<leftarrow> thread_at (tid_index cur) (sched s);
     panic_if (last_join_result me \<noteq> None \<or> reaped_user me \<noteq> None);
     refusal \<leftarrow> join_refusal c cur target (sched s);
     case refusal of
       Some err \<Rightarrow> do {
         S \<leftarrow> set_join_result (tid_index cur) (Inl err) (sched s);
         Some (out, live, s\<lparr>sched := S\<rparr>)
       }
     | None \<Rightarrow> do {
         th \<leftarrow> thread_at (tid_index target) (sched s);
         retiring \<leftarrow> thread_is_retiring target (sched s);
         if tstate th = Exited \<and> \<not> retiring then do {
           s \<leftarrow> join_exited cur target th s;
           Some (out, live, s)
         }
         else join_block c live target out s
       }
   }"

definition on_thread_join_sync ::
  "trap_frame \<Rightarrow> thread_id \<Rightarrow> wait_output \<Rightarrow> 'a system_scheme \<Rightarrow> (wait_output \<times> trap_frame \<times> 'a system_scheme) option" where
  "on_thread_join_sync live target out s = do {
     c \<leftarrow> current_cpu s;
     panic_if (\<not> sched_published s);
     join_thread c live target out s
   }"

definition take_current_join_result ::
  "cpu_id \<Rightarrow> 'a system_scheme \<Rightarrow> (((join_error + usize) \<times> user_resources option) option \<times> 'a system_scheme) option" where
  "take_current_join_result c s = do {
     cur \<leftarrow> running_thread c s;
     th \<leftarrow> thread_at (tid_index cur) (sched s);
     S \<leftarrow> update_thread (tid_index cur) (\<lambda>th. th\<lparr>last_join_result := None\<rparr>) (sched s);
     case last_join_result th of
       None \<Rightarrow> Some (None, s\<lparr>sched := S\<rparr>)
     | Some r \<Rightarrow> do {
         S \<leftarrow> update_thread (tid_index cur) (\<lambda>th. th\<lparr>reaped_user := None\<rparr>) S;
         Some (Some (r, reaped_user th), s\<lparr>sched := S\<rparr>)
       }
   }"

definition take_current_join_result_irqsave ::
  "'a system_scheme \<Rightarrow> (((join_error + usize) \<times> user_resources option) \<times> 'a system_scheme) option" where
  "take_current_join_result_irqsave s = do {
     c \<leftarrow> current_cpu s;
     panic_if (\<not> sched_published s);
     (r, s) \<leftarrow> take_current_join_result c s;
     Some (case r of Some x \<Rightarrow> x | None \<Rightarrow> (Inl InvalidThread, None), s)
   }"

definition replace_current_user_resources ::
  "address_space_id \<Rightarrow> owned_user_stack \<Rightarrow> 'a system_scheme \<Rightarrow>
     ((owned_user_stack + user_resources) \<times> 'a system_scheme) option" where
  "replace_current_user_resources aspace stack s = do {
     c \<leftarrow> current_cpu s;
     if \<not> sched_published s then Some (Inl stack, s)
     else case running_thread c s of
         None \<Rightarrow> Some (Inl stack, s)
       | Some cur \<Rightarrow> do {
           old \<leftarrow> thread_address_space (tid_index cur) (sched s);
           home \<leftarrow> thread_home_cpu (tid_index cur) (sched s);
           if old = None \<or> owner_cpu aspace \<noteq> home then Some (Inl stack, s)
           else do {
             let (r, spaces) = activate_user_address_space (arch_activate s) (current_cpu s) aspace (user_spaces s);
             let s = s\<lparr>user_spaces := spaces\<rparr>;
             if isl r then Some (Inl stack, s)
             else do {
               (res, S) \<leftarrow> replace_current_user_payload c \<lparr>res_address_space = aspace, res_stack = stack\<rparr> (sched s);
               case res of
                 Inr prev \<Rightarrow> Some (Inr prev, s\<lparr>sched := S\<rparr>)
               | Inl _ \<Rightarrow> None
             }
           }
         }
   }"

section \<open>Bootstrap\<close>

definition required_bootstrap_slots :: "usize \<Rightarrow> usize \<Rightarrow> sched_error + usize" where
  "required_bootstrap_slots static_count expected =
     (case checked_add_usize static_count expected of Some n \<Rightarrow> Inr n | None \<Rightarrow> Inl ThreadCapacityTooSmall)"

fun append_bootstrap_all ::
  "(usize \<Rightarrow> kernel_stack) \<Rightarrow> usize \<Rightarrow> cpu_id \<Rightarrow> (usize \<times> usize) list \<Rightarrow> 'a system_scheme \<Rightarrow> 'a system_scheme option" where
  "append_bootstrap_all alloc pc c [] s = Some s"
| "append_bootstrap_all alloc pc c ((entry, arg) # ts) s = do {
     (_, s) \<leftarrow> transition_append_bootstrap alloc pc c entry arg False s;
     append_bootstrap_all alloc pc c ts s
   }"

text \<open>
  \<open>expected\<close> is the number of CPUs the platform announced; the scheduler is built before it
  is published, so a failure leaves the slot empty.
\<close>

definition bootstrap_new ::
  "(usize \<Rightarrow> kernel_stack) \<Rightarrow> usize \<Rightarrow> usize \<Rightarrow> cpu_id \<Rightarrow> usize \<Rightarrow> usize \<Rightarrow> (usize \<times> usize) list \<Rightarrow> u64 \<Rightarrow> usize \<Rightarrow>
     'a system_scheme \<Rightarrow> ((sched_error + unit) \<times> 'a system_scheme) option" where
  "bootstrap_new alloc pc expected c idle_entry idle_arg threads quantum capacity s =
     (case required_bootstrap_slots (length threads) expected of
        Inl err \<Rightarrow> Some (Inl err, s)
      | Inr n \<Rightarrow>
          if capacity < n then Some (Inl ThreadCapacityTooSmall, s)
          else do {
            S \<leftarrow> transition_new capacity quantum;
            (_, s) \<leftarrow> transition_append_bootstrap alloc pc c idle_entry idle_arg True (s\<lparr>sched := S\<rparr>);
            s \<leftarrow> append_bootstrap_all alloc pc c threads s;
            let S = transition_fill_free_slots alloc capacity (sched s);
            (r, S) \<leftarrow> transition_initial_dispatch c S;
            Some (r, s\<lparr>sched := S\<rparr>)
          })"

definition sched_bootstrap ::
  "(usize \<Rightarrow> kernel_stack) \<Rightarrow> usize \<Rightarrow> usize \<Rightarrow> usize \<Rightarrow> usize \<Rightarrow> (usize \<times> usize) list \<Rightarrow> u64 \<Rightarrow> usize \<Rightarrow>
     'a system_scheme \<Rightarrow> ((sched_error + unit) \<times> 'a system_scheme) option" where
  "sched_bootstrap alloc pc expected idle_entry idle_arg threads quantum capacity s =
     (if sched_published s then Some (Inl AlreadyBootstrapped, s)
      else do {
        c \<leftarrow> current_cpu s;
        (r, s') \<leftarrow> bootstrap_new alloc pc expected c idle_entry idle_arg threads quantum capacity s;
        case r of
          Inl err \<Rightarrow> Some (Inl err, s)
        | Inr _ \<Rightarrow> do {
            assert_pre_scheduler_state_quiescent c s';
            Some (Inr (), s'\<lparr>sched_published := True\<rparr>)
          }
      })"

definition initialize_current_cpu ::
  "usize \<Rightarrow> usize \<Rightarrow> usize \<Rightarrow> 'a system_scheme \<Rightarrow> (bool \<times> 'a system_scheme) option" where
  "initialize_current_cpu pc idle_entry idle_arg s = do {
     c \<leftarrow> current_cpu s;
     if c = 0 \<or> cpus_registered s \<le> c then Some (False, s)
     else do {
       assert_pre_scheduler_state_quiescent c s;
       if \<not> sched_published s then Some (False, s)
       else do {
         (r, s) \<leftarrow> transition_initialize_idle_current pc c idle_entry idle_arg s;
         Some (\<not> isl r, s)
       }
     }
   }"

end
