(* ===== verification/Sched_Inv.thy ===== *)
theory Sched_Inv
  imports Sched_Ops
begin

text \<open>
  The scheduler's invariant. Threads are seen through \<open>lookup\<close>, the generation-checked access
  to the table, and through the placement \<open>placed\<close> of a thread (its home CPU and state). The
  invariant of one CPU, \<open>cpu_ok\<close>, ties the CPU's current, idle and retired identities and
  its two queues to the placement; each transition changes the placement of one or two threads
  of one CPU, and the lemmas of the section on placements say what becomes of \<open>cpu_ok\<close>.
\<close>

section \<open>Lookup\<close>

definition lookup :: "scheduler \<Rightarrow> thread_id \<Rightarrow> thread option" where
  "lookup S x = table_get x (lifecycle S)"

definition upd_thread :: "thread_id \<Rightarrow> (thread \<Rightarrow> thread) \<Rightarrow> scheduler \<Rightarrow> scheduler" where
  "upd_thread x f S =
     (let t = lifecycle S; slot = slots t ! tid_index x
      in S\<lparr>lifecycle := t\<lparr>slots := (slots t)[tid_index x := slot\<lparr>slot_thread := map_option f (slot_thread slot)\<rparr>]\<rparr>\<rparr>)"

lemma thread_matches_lookup: "thread_matches x S \<longleftrightarrow> lookup S x \<noteq> None"
  by (simp add: thread_matches_def lookup_def)

lemma lookup_Some:
  "lookup S x = Some th \<longleftrightarrow>
    tid_index x < length (slots (lifecycle S)) \<and>
    generation (slots (lifecycle S) ! tid_index x) = tid_generation x \<and>
    slot_thread (slots (lifecycle S) ! tid_index x) = Some th"
  by (auto simp: lookup_def table_get_def idx_def bind_eq_Some_conv)

lemma lookup_thread_at: "lookup S x = Some th \<Longrightarrow> thread_at (tid_index x) S = Some th"
  by (simp add: lookup_Some thread_at_def)

lemma lookup_index_inj:
  "lookup S x = Some a \<Longrightarrow> lookup S y = Some b \<Longrightarrow> tid_index x = tid_index y \<Longrightarrow> x = y"
  by (cases x; cases y) (auto simp: lookup_Some)

lemma lookup_index_less: "lookup S x = Some th \<Longrightarrow> tid_index x < length (slots (lifecycle S))"
  by (simp add: lookup_Some)

lemma update_thread_lookup:
  "lookup S x = Some th \<Longrightarrow> update_thread (tid_index x) f S = Some (upd_thread x f S)"
  by (simp add: lookup_Some update_thread_def upd_thread_def Let_def)

lemma lookup_upd_thread:
  "lookup S x = Some th \<Longrightarrow> lookup (upd_thread x f S) y = (if y = x then Some (f th) else lookup S y)"
proof (cases "tid_index y = tid_index x")
  case True
  assume x: "lookup S x = Some th"
  show ?thesis
  proof (cases "y = x")
    case True
    then show ?thesis using x by (simp add: lookup_Some upd_thread_def Let_def)
  next
    case False
    then have "tid_generation y \<noteq> tid_generation x" using \<open>tid_index y = tid_index x\<close>
      by (cases x; cases y) auto
    then have "lookup S y = None" "lookup (upd_thread x f S) y = None"
      using x \<open>tid_index y = tid_index x\<close>
      by (auto simp: lookup_Some lookup_def table_get_def upd_thread_def Let_def idx_def)
    with False show ?thesis by simp
  qed
next
  case False
  then show ?thesis
    by (auto simp: lookup_def table_get_def upd_thread_def Let_def idx_def)
qed

lemma lookup_upd_thread_fun:
  "lookup S x = Some th \<Longrightarrow> lookup (upd_thread x f S) = (lookup S)(x \<mapsto> f th)"
  by (rule ext) (simp add: lookup_upd_thread)

lemma upd_thread_frame [simp]:
  "cpus (upd_thread x f S) = cpus S" "remote_ready (upd_thread x f S) = remote_ready S"
  "scheduler_ipi_pending (upd_thread x f S) = scheduler_ipi_pending S"
  "rr_quantum_ms (upd_thread x f S) = rr_quantum_ms S" "queue_room (upd_thread x f S) = queue_room S"
  "free_slots (lifecycle (upd_thread x f S)) = free_slots (lifecycle S)"
  "length (slots (lifecycle (upd_thread x f S))) = length (slots (lifecycle S))"
  by (simp_all add: upd_thread_def Let_def)

lemma upd_cpu_frame [simp]:
  "lifecycle (upd_cpu c f S) = lifecycle S" "remote_ready (upd_cpu c f S) = remote_ready S"
  "scheduler_ipi_pending (upd_cpu c f S) = scheduler_ipi_pending S"
  "rr_quantum_ms (upd_cpu c f S) = rr_quantum_ms S" "queue_room (upd_cpu c f S) = queue_room S"
  "cpus (upd_cpu c f S) = (cpus S)(c := f (cpus S c))"
  "lookup (upd_cpu c f S) x = lookup S x"
  by (simp_all add: upd_cpu_def lookup_def)

lemma lookup_frame [simp]:
  "lookup (S\<lparr>remote_ready := r\<rparr>) x = lookup S x"
  "lookup (S\<lparr>scheduler_ipi_pending := p\<rparr>) x = lookup S x"
  "lookup (S\<lparr>cpus := k\<rparr>) x = lookup S x"
  by (simp_all add: lookup_def)

section \<open>Placements\<close>

type_synonym placement = "thread_id \<Rightarrow> (cpu_id \<times> thread_state) option"

definition placed :: "scheduler \<Rightarrow> placement" where
  "placed S x = map_option (\<lambda>th. (home_cpu th, tstate th)) (lookup S x)"

lemma placed_Some: "placed S x = Some (c, st) \<longleftrightarrow> (\<exists>th. lookup S x = Some th \<and> home_cpu th = c \<and> tstate th = st)"
  by (auto simp: placed_def)

text \<open>
  The invariant of CPU \<open>c\<close>, given the placement \<open>r\<close>, the CPU's state \<open>k\<close>, its ingress
  \<open>rem\<close> and its notification flag: both queues together hold each ready thread of the CPU
  exactly once, except the idle thread; the current identity is the running thread of the CPU; the
  retired identity is an exited thread; published work has a notification pending; and a CPU
  without an idle thread has no thread.
\<close>

definition cpu_ok :: "placement \<Rightarrow> cpu_id \<Rightarrow> cpu_sched \<Rightarrow> thread_id list \<Rightarrow> bool \<Rightarrow> bool" where
  "cpu_ok r c k rem pend \<longleftrightarrow>
     distinct (ready_queue k @ rem) \<and>
     (\<forall>x. x \<in> set (ready_queue k) \<union> set rem \<longleftrightarrow> r x = Some (c, Ready) \<and> idle k \<noteq> Some x) \<and>
     (\<forall>x. current k = Some x \<longleftrightarrow> r x = Some (c, Running)) \<and>
     (\<forall>x. idle k = Some x \<longrightarrow> r x = Some (c, Ready) \<or> r x = Some (c, Running)) \<and>
     (\<forall>x. retired k = Some x \<longrightarrow> r x = Some (c, Exited)) \<and>
     (initialized k \<longleftrightarrow> current k \<noteq> None) \<and> (initialized k \<longrightarrow> idle k \<noteq> None) \<and>
     (online k \<longrightarrow> initialized k) \<and> (rem \<noteq> [] \<longrightarrow> pend) \<and> (retired k \<noteq> None \<longrightarrow> pend) \<and>
     (\<forall>x st. r x = Some (c, st) \<longrightarrow> idle k \<noteq> None)"

lemma cpu_okD:
  assumes "cpu_ok r c k rem pend"
  shows "distinct (ready_queue k @ rem)"
    "x \<in> set (ready_queue k) \<union> set rem \<longleftrightarrow> r x = Some (c, Ready) \<and> idle k \<noteq> Some x"
    "current k = Some x \<longleftrightarrow> r x = Some (c, Running)"
    "idle k = Some x \<Longrightarrow> r x = Some (c, Ready) \<or> r x = Some (c, Running)"
    "retired k = Some x \<Longrightarrow> r x = Some (c, Exited)"
    "initialized k \<longleftrightarrow> current k \<noteq> None" "current k \<noteq> None \<Longrightarrow> idle k \<noteq> None"
    "online k \<Longrightarrow> current k \<noteq> None" "rem \<noteq> [] \<Longrightarrow> pend" "retired k \<noteq> None \<Longrightarrow> pend"
    "r x = Some (c, st) \<Longrightarrow> idle k \<noteq> None"
  using assms unfolding cpu_ok_def by blast+

lemma cpu_okI:
  assumes "distinct (ready_queue k @ rem)"
    "\<And>x. x \<in> set (ready_queue k) \<union> set rem \<longleftrightarrow> r x = Some (c, Ready) \<and> idle k \<noteq> Some x"
    "\<And>x. current k = Some x \<longleftrightarrow> r x = Some (c, Running)"
    "\<And>x. idle k = Some x \<Longrightarrow> r x = Some (c, Ready) \<or> r x = Some (c, Running)"
    "\<And>x. retired k = Some x \<Longrightarrow> r x = Some (c, Exited)"
    "initialized k \<longleftrightarrow> current k \<noteq> None" "current k \<noteq> None \<Longrightarrow> idle k \<noteq> None"
    "online k \<Longrightarrow> current k \<noteq> None" "rem \<noteq> [] \<Longrightarrow> pend" "retired k \<noteq> None \<Longrightarrow> pend"
    "\<And>x st. r x = Some (c, st) \<Longrightarrow> idle k \<noteq> None"
  shows "cpu_ok r c k rem pend"
  unfolding cpu_ok_def using assms by blast

text \<open>Another CPU sees no difference when a placement changes among threads of other CPUs.\<close>

definition same_on :: "cpu_id \<Rightarrow> placement \<Rightarrow> placement \<Rightarrow> bool" where
  "same_on c r r' \<longleftrightarrow> (\<forall>x st. r x = Some (c, st) \<longleftrightarrow> r' x = Some (c, st))"

lemma cpu_ok_same_on:
  assumes "cpu_ok r c k rem pend" "same_on c r r'"
  shows "cpu_ok r' c k rem pend"
proof -
  have eq: "r' x = Some (c, st) \<longleftrightarrow> r x = Some (c, st)" for x st
    using assms(2) by (simp add: same_on_def)
  show ?thesis using assms(1) unfolding cpu_ok_def eq .
qed

lemma same_on_refl [simp]: "same_on c r r"
  by (simp add: same_on_def)

lemma same_on_upd:
  "(\<forall>st. r x \<noteq> Some (c, st)) \<Longrightarrow> (\<forall>st. v \<noteq> Some (c, st)) \<Longrightarrow> same_on c r (r(x := v))"
  by (auto simp: same_on_def)

lemma same_on_trans: "same_on c r r1 \<Longrightarrow> same_on c r1 r2 \<Longrightarrow> same_on c r r2"
  by (simp add: same_on_def)

text \<open>A thread becomes ready and joins the local queue.\<close>

lemma cpu_ok_enqueue:
  assumes "cpu_ok r c k rem pend" "r x = None \<or> r x = Some (c, Blocked)" "idle k \<noteq> None"
  shows "cpu_ok (r(x \<mapsto> (c, Ready))) c (k\<lparr>ready_queue := ready_queue k @ [x]\<rparr>) rem pend"
proof -
  note d = cpu_okD [OF assms(1)]
  have x: "x \<notin> set (ready_queue k) \<union> set rem" "current k \<noteq> Some x" "idle k \<noteq> Some x" "retired k \<noteq> Some x"
    using d(2-5) [of x] assms(2) by auto
  then show ?thesis using assms d by (intro cpu_okI) (auto split: if_splits)
qed

text \<open>A thread becomes ready and joins the ingress.\<close>

lemma cpu_ok_ingress:
  assumes "cpu_ok r c k rem pend" "r x = None \<or> r x = Some (c, Blocked)" "idle k \<noteq> None"
  shows "cpu_ok (r(x \<mapsto> (c, Ready))) c k (rem @ [x]) True"
proof -
  note d = cpu_okD [OF assms(1)]
  have x: "x \<notin> set (ready_queue k) \<union> set rem" "current k \<noteq> Some x" "idle k \<noteq> Some x" "retired k \<noteq> Some x"
    using d(2-5) [of x] assms(2) by auto
  then show ?thesis using assms d by (intro cpu_okI) (auto split: if_splits)
qed

text \<open>The front of the ingress moves to the back of the local queue.\<close>

lemma cpu_ok_drain_one:
  "cpu_ok r c k (x # rem) pend \<Longrightarrow> cpu_ok r c (k\<lparr>ready_queue := ready_queue k @ [x]\<rparr>) rem pend"
  unfolding cpu_ok_def by auto

text \<open>The current thread goes to the back of the queue, or is the idle thread, and the front runs.\<close>

lemma cpu_ok_switch:
  assumes "cpu_ok r c k rem pend" "current k = Some from" "ready_queue k = to # rest"
  shows "cpu_ok (r(from \<mapsto> (c, Ready), to \<mapsto> (c, Running))) c
    (k\<lparr>ready_queue := (if idle k = Some from then rest else rest @ [from]), current := Some to\<rparr>) rem pend"
proof -
  note d = cpu_okD [OF assms(1)]
  have ne: "from \<noteq> to" "idle k \<noteq> Some to" "retired k \<noteq> Some from" "retired k \<noteq> Some to"
    using d(2) [of to] d(3) [of "from"] d(5) [of "from"] d(5) [of to] assms(2,3) by auto
  have run: "r x = Some (c, Running) \<longleftrightarrow> x = from" for x using d(3) [of x] assms(2) by auto
  have mem: "x \<in> set rest \<union> set rem \<longleftrightarrow> x \<noteq> to \<and> r x = Some (c, Ready) \<and> idle k \<noteq> Some x" for x
    using d(2) [of x] d(1) assms(3) by auto
  have idl: "idle k = Some x \<Longrightarrow> x = from \<or> r x = Some (c, Ready)" for x using d(4) [of x] run by auto
  have dist: "distinct (rest @ rem)" using d(1) assms(3) by auto
  have frm: "from \<notin> set rest" "from \<notin> set rem" using mem [of "from"] run [of "from"] by auto
  show ?thesis
    using ne run mem idl frm dist d(5-11) assms(2,3) by (intro cpu_okI) (auto split: if_splits)
qed

text \<open>The current thread leaves the CPU and the front of the queue, else the idle thread, runs.\<close>

lemma cpu_ok_leave:
  assumes "cpu_ok r c k rem pend" "current k = Some from" "idle k \<noteq> Some from"
    "st = Blocked \<or> st = Exited"
    "case ready_queue k of to' # rest' \<Rightarrow> to = to' \<and> rest = rest' | [] \<Rightarrow> idle k = Some to \<and> rest = []"
  shows "cpu_ok (r(from \<mapsto> (c, st), to \<mapsto> (c, Running))) c (k\<lparr>ready_queue := rest, current := Some to\<rparr>) rem pend"
proof -
  note d = cpu_okD [OF assms(1)]
  have ne: "from \<noteq> to" "retired k \<noteq> Some from" "retired k \<noteq> Some to" "r to = Some (c, Ready)"
    using d(2) [of to] d(3) [of "from"] d(3) [of to] d(4) [of to] d(5) [of "from"] d(5) [of to] assms(2,3,5)
    by (auto split: list.splits)
  have run: "r x = Some (c, Running) \<longleftrightarrow> x = from" for x using d(3) [of x] assms(2) by auto
  have mem: "x \<in> set rest \<union> set rem \<longleftrightarrow> x \<noteq> to \<and> r x = Some (c, Ready) \<and> idle k \<noteq> Some x" for x
    using d(2) [of x] d(2) [of to] d(1) assms(5) by (auto split: list.splits)
  have idl: "idle k = Some x \<Longrightarrow> x \<noteq> from \<and> r x = Some (c, Ready)" for x
    using d(4) [of x] run assms(3) by auto
  have dist: "distinct (rest @ rem)" using d(1) assms(5) by (auto split: list.splits)
  have frm: "r from \<noteq> Some (c, Ready)" using run [of "from"] by auto
  show ?thesis
    using ne run mem idl frm dist d(5-11) assms(2-4) by (intro cpu_okI) (auto split: if_splits)
qed

text \<open>A blocked thread replaces the running idle thread without entering the queue.\<close>

lemma cpu_ok_direct_wake:
  assumes "cpu_ok r c k rem pend" "current k = Some from" "idle k = Some from" "r to = Some (c, Blocked)"
  shows "cpu_ok (r(from \<mapsto> (c, Ready), to \<mapsto> (c, Running))) c (k\<lparr>current := Some to\<rparr>) rem pend"
proof -
  note d = cpu_okD [OF assms(1)]
  have ne: "from \<noteq> to" "retired k \<noteq> Some from" "retired k \<noteq> Some to" "r from = Some (c, Running)"
    using d(3) [of "from"] d(5) [of "from"] d(5) [of to] assms(2,4) by auto
  have run: "r x = Some (c, Running) \<longleftrightarrow> x = from" for x using d(3) [of x] assms(2) by auto
  show ?thesis
    using ne run d(1) d(2) d(5-11) assms(2-4) by (intro cpu_okI) (auto split: if_splits)
qed

lemma cpu_ok_retire:
  assumes "cpu_ok r c k rem pend" "r x = Some (c, Exited)"
  shows "cpu_ok r c (k\<lparr>retired := Some x\<rparr>) rem True"
  using cpu_okD [OF assms(1)] assms(2) by (intro cpu_okI) simp_all

lemma cpu_ok_unretire:
  assumes "cpu_ok r c k rem pend"
  shows "cpu_ok r c (k\<lparr>retired := None\<rparr>) rem pend"
  using cpu_okD [OF assms] by (intro cpu_okI) simp_all

text \<open>An exited thread that is not retired on the CPU can leave the table.\<close>

lemma cpu_ok_remove:
  assumes "cpu_ok r c k rem pend" "r x = Some (c', Exited)" "retired k \<noteq> Some x"
  shows "cpu_ok (r(x := None)) c k rem pend"
proof -
  note d = cpu_okD [OF assms(1)]
  have x: "x \<notin> set (ready_queue k) \<union> set rem" "current k \<noteq> Some x" "idle k \<noteq> Some x"
    using d(2) [of x] d(3) [of x] d(4) [of x] assms(2) by auto
  show ?thesis
  proof (rule cpu_okI)
    show "distinct (ready_queue k @ rem)" by (rule d(1))
    show "y \<in> set (ready_queue k) \<union> set rem \<longleftrightarrow> (r(x := None)) y = Some (c, Ready) \<and> idle k \<noteq> Some y" for y
      using d(2) [of y] x by (cases "y = x") auto
    show "current k = Some y \<longleftrightarrow> (r(x := None)) y = Some (c, Running)" for y
      using d(3) [of y] x by (cases "y = x") auto
    show "idle k = Some y \<Longrightarrow> (r(x := None)) y = Some (c, Ready) \<or> (r(x := None)) y = Some (c, Running)" for y
      using d(4) [of y] x by (cases "y = x") auto
    show "retired k = Some y \<Longrightarrow> (r(x := None)) y = Some (c, Exited)" for y
      using d(5) [of y] assms(3) by (cases "y = x") auto
    show "(r(x := None)) y = Some (c, st) \<Longrightarrow> idle k \<noteq> None" for y st
      using d(11) [of y st] by (cases "y = x") auto
  qed (use d(6-10) in blast)+
qed

lemma cpu_ok_clear_pending:
  assumes "cpu_ok r c k [] pend" "retired k = None"
  shows "cpu_ok r c k [] pend'"
  using cpu_okD [OF assms(1)] assms(2) by (intro cpu_okI) simp_all

lemma cpu_ok_pending:
  assumes "cpu_ok r c k rem pend"
  shows "cpu_ok r c k rem True"
  using cpu_okD [OF assms] by (intro cpu_okI) simp_all

section \<open>The invariant\<close>

definition cpu_inv :: "scheduler \<Rightarrow> cpu_id \<Rightarrow> bool" where
  "cpu_inv S c \<longleftrightarrow> cpu_ok (placed S) c (cpus S c) (remote_ready S c) (scheduler_ipi_pending S c)"

text \<open>
  The table: a slot has a parked stack exactly when it has no thread, and the free list names
  the free slots once each, except the slots \<open>R\<close> reserved by a publication in progress.
\<close>

definition table_ok :: "usize set \<Rightarrow> scheduler \<Rightarrow> bool" where
  "table_ok R S \<longleftrightarrow>
     (let t = lifecycle S in
      length (slots t) \<le> KERNEL_THREAD_CAPACITY \<and> length (slots t) \<le> queue_room S + 1 \<and>
      (\<forall>i<length (slots t). slot_thread (slots t ! i) = None \<longleftrightarrow> slot_stack (slots t ! i) \<noteq> None) \<and>
      distinct (free_slots t) \<and> R \<inter> set (free_slots t) = {} \<and>
      R \<union> set (free_slots t) = {i. i < length (slots t) \<and> slot_thread (slots t ! i) = None})"

text \<open>The phase of a thread's wait agrees with its state.\<close>

definition phase_ok :: "thread_state \<Rightarrow> wait_metadata \<Rightarrow> bool" where
  "phase_ok st w \<longleftrightarrow>
     (case active w of
        None \<Rightarrow> st \<noteq> Blocked
      | Some a \<Rightarrow> (case aw_phase a of
            Prepared \<Rightarrow> st = Running
          | PhaseBlocked \<Rightarrow> st = Blocked
          | Completed cause \<Rightarrow> st = Ready \<or> st = Running))"

definition thread_ok :: "thread_id \<Rightarrow> thread \<Rightarrow> bool" where
  "thread_ok x th \<longleftrightarrow>
     phase_ok (tstate th) (wait_md th) \<and> wait_wf (wait_md th) \<and>
     (\<forall>a. active (wait_md th) = Some a \<longrightarrow> wt_thread (aw_token a) = x \<and> wt_cpu (aw_token a) = home_cpu th) \<and>
     home_cpu th < KERNEL_CPU_CAPACITY \<and>
     (\<forall>u. user_res th = Some u \<longrightarrow> joinable th \<and> owner_cpu (res_address_space u) = home_cpu th) \<and>
     (tstate th = Exited \<longrightarrow> exit_code th \<noteq> None)"

text \<open>
  A thread that another one joins: the registered token is the joiner's blocked explicit wait, the
  joiner has no reaped resources yet, and an exited target is still retired on its CPU. Inside the
  joining transition itself, the threads of \<open>P\<close> may still be only prepared.
\<close>

definition waits_as :: "thread_id set \<Rightarrow> thread \<Rightarrow> wait_token \<Rightarrow> bool" where
  "waits_as P jt tok \<longleftrightarrow> reaped_user jt = None \<and>
     (\<exists>a. active (wait_md jt) = Some a \<and> aw_token a = tok \<and> aw_consumption a = Explicit \<and>
        (aw_phase a = PhaseBlocked \<or> aw_phase a = Prepared \<and> wt_thread tok \<in> P))"

definition join_ok :: "thread_id set \<Rightarrow> (thread_id \<Rightarrow> thread option) \<Rightarrow> (cpu_id \<Rightarrow> thread_id option) \<Rightarrow> bool" where
  "join_ok P L ret \<longleftrightarrow>
     (\<forall>t th tok. L t = Some th \<longrightarrow> joiner th = Some tok \<longrightarrow>
        joinable th \<and> (tstate th = Exited \<longrightarrow> ret (home_cpu th) = Some t) \<and>
        (\<exists>jt. L (wt_thread tok) = Some jt \<and> waits_as P jt tok)) \<and>
     (\<forall>t th t' th' tok. L t = Some th \<longrightarrow> joiner th = Some tok \<longrightarrow> L t' = Some th' \<longrightarrow> joiner th' = Some tok \<longrightarrow> t = t')"

definition retired_on :: "scheduler \<Rightarrow> cpu_id \<Rightarrow> thread_id option" where
  "retired_on S c = retired (cpus S c)"

text \<open>A token on which some thread is joined.\<close>

definition joiner_token :: "scheduler \<Rightarrow> wait_token \<Rightarrow> bool" where
  "joiner_token S tok \<longleftrightarrow> (\<exists>t th. lookup S t = Some th \<and> joiner th = Some tok)"

definition idle_ok :: "scheduler \<Rightarrow> bool" where
  "idle_ok S \<longleftrightarrow>
     (\<forall>c x th. idle (cpus S c) = Some x \<longrightarrow> lookup S x = Some th \<longrightarrow> user_res th = None \<and> \<not> joinable th)"

definition sched_inv_at :: "thread_id set \<Rightarrow> usize set \<Rightarrow> scheduler \<Rightarrow> bool" where
  "sched_inv_at P R S \<longleftrightarrow>
     table_ok R S \<and> (\<forall>c. cpu_inv S c) \<and> (\<forall>x th. lookup S x = Some th \<longrightarrow> thread_ok x th) \<and>
     join_ok P (lookup S) (retired_on S) \<and> idle_ok S"

definition sched_inv :: "scheduler \<Rightarrow> bool" where
  "sched_inv S \<longleftrightarrow> sched_inv_at {} {} S"

lemma sched_inv_atD:
  assumes "sched_inv_at P R S"
  shows "table_ok R S" "cpu_inv S c" "lookup S x = Some th \<Longrightarrow> thread_ok x th"
    "join_ok P (lookup S) (retired_on S)" "idle_ok S"
  using assms by (simp_all add: sched_inv_at_def)

lemma sched_inv_atI:
  assumes "table_ok R S" "\<And>c. cpu_inv S c" "\<And>x th. lookup S x = Some th \<Longrightarrow> thread_ok x th"
    "join_ok P (lookup S) (retired_on S)" "idle_ok S"
  shows "sched_inv_at P R S"
  using assms by (simp add: sched_inv_at_def)

text \<open>Reading a CPU's identities off the invariant.\<close>

lemma cpu_inv_current:
  assumes "cpu_inv S c" "current (cpus S c) = Some x"
  obtains th where "lookup S x = Some th" "home_cpu th = c" "tstate th = Running" "idle (cpus S c) \<noteq> None"
  using cpu_okD(3) [OF assms(1) [unfolded cpu_inv_def], of x] cpu_okD(7) [OF assms(1) [unfolded cpu_inv_def]] assms(2)
  by (auto simp: placed_Some)

lemma cpu_inv_idle:
  assumes "cpu_inv S c" "idle (cpus S c) = Some x"
  obtains th where "lookup S x = Some th" "home_cpu th = c" "tstate th = Ready \<or> tstate th = Running"
  using cpu_okD(4) [OF assms(1) [unfolded cpu_inv_def], of x] assms(2) by (auto simp: placed_Some)

lemma cpu_inv_retired:
  assumes "cpu_inv S c" "retired (cpus S c) = Some x"
  obtains th where "lookup S x = Some th" "home_cpu th = c" "tstate th = Exited"
  using cpu_okD(5) [OF assms(1) [unfolded cpu_inv_def], of x] assms(2) by (auto simp: placed_Some)

lemma cpu_inv_queued:
  assumes "cpu_inv S c" "x \<in> set (ready_queue (cpus S c)) \<union> set (remote_ready S c)"
  obtains th where "lookup S x = Some th" "home_cpu th = c" "tstate th = Ready" "idle (cpus S c) \<noteq> Some x"
  using cpu_okD(2) [OF assms(1) [unfolded cpu_inv_def], of x] assms(2) by (auto simp: placed_Some)

lemma cpu_inv_not_queued:
  assumes "cpu_inv S c" "lookup S x = Some th" "home_cpu th \<noteq> c \<or> tstate th \<noteq> Ready \<or> idle (cpus S c) = Some x"
  shows "x \<notin> set (ready_queue (cpus S c)) \<union> set (remote_ready S c)"
  using cpu_okD(2) [OF assms(1) [unfolded cpu_inv_def], of x] assms(2,3) by (auto simp: placed_Some)

text \<open>
  A queue never fills: its entries have different slots, none of them the idle thread's.
\<close>

lemma queue_below_room:
  assumes inv: "cpu_inv S c" "table_ok R S" and idle: "idle (cpus S c) = Some w"
    and x: "lookup S x = Some th" "x \<notin> set (ready_queue (cpus S c)) \<union> set (remote_ready S c)" "x \<noteq> w"
  shows "length (ready_queue (cpus S c)) + length (remote_ready S c) < queue_room S"
proof -
  let ?q = "ready_queue (cpus S c) @ remote_ready S c"
  obtain wt where w: "lookup S w = Some wt" using cpu_inv_idle [OF inv(1) idle] .
  have q: "\<exists>t. lookup S y = Some t \<and> y \<noteq> w" if "y \<in> set ?q" for y
    using cpu_inv_queued [OF inv(1), of y] that idle by (metis set_append)
  have live: "\<exists>t. lookup S y = Some t" if "y \<in> set (x # w # ?q)" for y
    using that x(1) w q by (auto simp only: set_simps insert_iff)
  have "w \<notin> set ?q" using q by blast
  then have "distinct (x # w # ?q)" using x cpu_okD(1) [OF inv(1) [unfolded cpu_inv_def]] by auto
  moreover have "inj_on tid_index (set (x # w # ?q))"
    by (rule inj_onI) (metis live lookup_index_inj)
  ultimately have "distinct (map tid_index (x # w # ?q))" by (simp only: distinct_map)
  moreover have "set (map tid_index (x # w # ?q)) \<subseteq> {..<length (slots (lifecycle S))}"
    using live lookup_index_less by (simp only: set_map) blast
  ultimately have "length (map tid_index (x # w # ?q)) \<le> length (slots (lifecycle S))"
    by (rule distinct_subset_length)
  then show ?thesis using inv(2) by (simp add: table_ok_def Let_def)
qed


section \<open>The checker accepts the invariant\<close>

lemma count_list_distinct: "distinct xs \<Longrightarrow> count_list xs x = (if x \<in> set xs then 1 else 0)"
  by (induction xs) auto

lemma queued_count_inv:
  assumes "cpu_inv S c"
  shows "queued_count x c S = (if placed S x = Some (c, Ready) \<and> idle (cpus S c) \<noteq> Some x then 1 else 0)"
proof -
  note d = cpu_okD [OF assms [unfolded cpu_inv_def]]
  have "queued_count x c S = count_list (ready_queue (cpus S c) @ remote_ready S c) x"
    by (simp add: queued_count_def)
  also have "\<dots> = (if x \<in> set (ready_queue (cpus S c)) \<union> set (remote_ready S c) then 1 else 0)"
    using count_list_distinct [OF d(1), of x] by simp
  finally show ?thesis by (simp only: d(2))
qed

lemma queue_within_room:
  assumes inv: "cpu_inv S c" "table_ok R S"
  shows "length (ready_queue (cpus S c)) + length (remote_ready S c) \<le> queue_room S"
proof (cases "ready_queue (cpus S c) @ remote_ready S c")
  case (Cons x q)
  note d = cpu_okD [OF inv(1) [unfolded cpu_inv_def]]
  have "x \<in> set (ready_queue (cpus S c)) \<union> set (remote_ready S c)" using Cons by (metis list.set_intros(1) set_append)
  then obtain w where w: "idle (cpus S c) = Some w" using d(2) [of x] d(11) [of x] by blast
  obtain wt where wt: "lookup S w = Some wt" using cpu_inv_idle [OF inv(1) w] .
  have live: "\<exists>t. lookup S y = Some t \<and> y \<noteq> w" if "y \<in> set (x # q)" for y
    using cpu_inv_queued [OF inv(1), of y] that w Cons by (metis set_append)
  then have "inj_on tid_index (insert w (set (x # q)))"
    using wt by (intro inj_onI) (metis insert_iff lookup_index_inj)
  moreover have "distinct (w # x # q)" using d(1) live Cons by auto
  ultimately have "distinct (map tid_index (w # x # q))" by (simp only: distinct_map set_simps)
  moreover have "set (map tid_index (w # x # q)) \<subseteq> {..<length (slots (lifecycle S))}"
    using live wt lookup_index_less by auto
  ultimately have "length (map tid_index (w # x # q)) \<le> length (slots (lifecycle S))"
    by (rule distinct_subset_length)
  moreover have "length (ready_queue (cpus S c)) + length (remote_ready S c) = length (x # q)"
    by (metis Cons length_append)
  ultimately show ?thesis using inv(2) by (simp add: table_ok_def Let_def)
qed simp

lemma validate_cpu_inv:
  assumes "sched_inv_at P R S"
  shows "validate_cpu S c"
proof -
  note inv = sched_inv_atD [OF assms]
  note d = cpu_okD [OF inv(2) [of c, unfolded cpu_inv_def]]
  have ret: "\<exists>th. lookup S x = Some th \<and> home_cpu th = c \<and> tstate th = Exited \<and> current (cpus S c) \<noteq> Some x"
    if "retired (cpus S c) = Some x" for x
    using d(5) [OF that] d(3) [of x] by (auto simp: placed_Some)
  show ?thesis
    using queue_within_room [OF inv(2) [of c] inv(1)] d(8) d(6) d(9) ret
    by (auto simp: validate_cpu_def Let_def thread_matches_lookup lookup_thread_at split: option.splits)
qed

lemma validate_ready_inv: "sched_inv_at P R S \<Longrightarrow> validate_ready S c"
  unfolding validate_ready_def
proof (rule ballI)
  fix q assume "sched_inv_at P R S" "q \<in> set (ready_queue (cpus S c))"
  then obtain th where "lookup S q = Some th" "home_cpu th = c" "tstate th = Ready" "idle (cpus S c) \<noteq> Some q"
    using cpu_inv_queued [OF sched_inv_atD(2), of P R S q c] by auto
  then show "thread_matches q S \<and> idle (cpus S c) \<noteq> Some q \<and>
      (case thread_at (tid_index q) S of None \<Rightarrow> False | Some th \<Rightarrow> tstate th = Ready \<and> home_cpu th = c)"
    by (simp add: thread_matches_lookup lookup_thread_at)
qed

lemma validate_current_inv:
  assumes "sched_inv_at P R S"
  shows "validate_current S c"
proof -
  note inv = sched_inv_atD(2) [OF assms, of c]
  note d = cpu_okD [OF inv [unfolded cpu_inv_def]]
  show ?thesis
  proof (cases "current (cpus S c)")
    case None
    then show ?thesis using d(6,8) by (auto simp: validate_current_def Let_def)
  next
    case (Some x)
    obtain th where th: "lookup S x = Some th" "home_cpu th = c" "tstate th = Running"
      using cpu_inv_current [OF inv Some] .
    obtain w where w: "idle (cpus S c) = Some w" using d(7) Some by auto
    obtain wt where "lookup S w = Some wt" "home_cpu wt = c" using cpu_inv_idle [OF inv w] .
    then show ?thesis using Some th w d(6) by (simp add: validate_current_def Let_def lookup_thread_at)
  qed
qed

lemma validate_slot_inv:
  assumes "sched_inv_at P R S" "i < length (slots (lifecycle S))"
  shows "validate_slot S i"
proof -
  note inv = sched_inv_atD [OF assms(1)]
  let ?slot = "slots (lifecycle S) ! i"
  let ?tid = "ThreadId i (generation ?slot)"
  show ?thesis
  proof (cases "slot_thread ?slot")
    case None
    have "tid_index q \<noteq> i" if q: "q \<in> set (ready_queue (cpus S c)) \<union> set (remote_ready S c)" for c q
      using cpu_inv_queued [OF inv(2) q] None by (metis lookup_Some option.distinct(1))
    moreover have "slot_stack ?slot \<noteq> None" using inv(1) assms(2) None by (auto simp: table_ok_def Let_def)
    ultimately show ?thesis using None by (simp add: validate_slot_def)
  next
    case (Some th)
    have L: "lookup S ?tid = Some th" using Some assms(2) by (simp add: lookup_Some)
    note ok = inv(3) [OF L, unfolded thread_ok_def]
    have "slot_stack ?slot = None" using inv(1) assms(2) Some by (auto simp: table_ok_def Let_def)
    moreover have "queued_count ?tid (home_cpu th) S =
        (if tstate th = Ready \<and> idle (cpus S (home_cpu th)) \<noteq> Some ?tid then 1 else 0)"
      using queued_count_inv [OF inv(2)] L by (simp add: placed_def)
    moreover have "tstate th = Running \<Longrightarrow> current (cpus S (home_cpu th)) = Some ?tid"
      using cpu_okD(3) [OF inv(2) [of "home_cpu th", unfolded cpu_inv_def], of ?tid] L by (simp add: placed_def)
    moreover have "tstate th = Blocked \<longleftrightarrow> wait_is_blocked (wait_md th)"
      "wait_is_prepared (wait_md th) \<longrightarrow> tstate th = Running" "tstate th = Exited \<longrightarrow> wait_is_none (wait_md th)"
      "wait_is_completed (wait_md th) \<longrightarrow> tstate th = Ready \<or> tstate th = Running"
      using ok by (auto simp: phase_ok_def wait_query_defs split: wait_splits)
    ultimately show ?thesis using ok Some
      by (cases "tstate th") (auto simp: validate_slot_def Let_def split: option.splits)
  qed
qed

text \<open>The running threads correspond to the initialized CPUs, through the current identities.\<close>

lemma running_slots_count:
  assumes "sched_inv_at P R S"
  shows "length (running_slots S) = length (filter (\<lambda>c. initialized (cpus S c)) [0..<KERNEL_CPU_CAPACITY])"
proof -
  note inv = sched_inv_atD [OF assms]
  note d = cpu_okD [OF inv(2) [unfolded cpu_inv_def]]
  let ?cur = "\<lambda>c. tid_index (the (current (cpus S c)))"
  let ?init = "{c. c < KERNEL_CPU_CAPACITY \<and> initialized (cpus S c)}"
  let ?run = "{i. i < length (slots (lifecycle S)) \<and>
    (case slot_thread (slots (lifecycle S) ! i) of Some th \<Rightarrow> tstate th = Running | None \<Rightarrow> False)}"
  have cur: "\<exists>x th. current (cpus S c) = Some x \<and> lookup S x = Some th \<and> home_cpu th = c \<and> tstate th = Running"
    if "initialized (cpus S c)" for c
    using d(6) [of c] that cpu_inv_current [OF inv(2), of c] by (cases "current (cpus S c)") (simp, metis)
  have inj: "inj_on ?cur ?init"
  proof (rule inj_onI)
    fix c c' assume "c \<in> ?init" "c' \<in> ?init" "?cur c = ?cur c'"
    then show "c = c'" using cur [of c] cur [of c'] lookup_index_inj by fastforce
  qed
  have img: "?cur ` ?init = ?run"
  proof (intro set_eqI iffI)
    fix i assume "i \<in> ?cur ` ?init"
    then obtain c where c: "i = ?cur c" "initialized (cpus S c)" by auto
    from cur [OF c(2)] c(1) show "i \<in> ?run" by (auto simp: lookup_Some)
  next
    fix i assume i: "i \<in> ?run"
    then obtain th where th: "slot_thread (slots (lifecycle S) ! i) = Some th" "tstate th = Running"
      by (auto split: option.splits)
    let ?x = "ThreadId i (generation (slots (lifecycle S) ! i))"
    have L: "lookup S ?x = Some th" using i th by (simp add: lookup_Some)
    then have "current (cpus S (home_cpu th)) = Some ?x" using d(3) th by (simp add: placed_def)
    moreover have "home_cpu th < KERNEL_CPU_CAPACITY" using inv(3) [OF L] by (simp add: thread_ok_def)
    ultimately show "i \<in> ?cur ` ?init" using d(6) [of "home_cpu th"] by force
  qed
  have "card ?init = card ?run" using card_image [OF inj] by (simp only: img)
  moreover have "length (running_slots S) = card ?run"
    by (simp add: running_slots_def length_filter_conv_card)
  moreover have "length (filter (\<lambda>c. initialized (cpus S c)) [0..<KERNEL_CPU_CAPACITY]) = card ?init"
    by (simp add: length_filter_conv_card cong: conj_cong)
  ultimately show ?thesis by simp
qed

lemma sched_inv_validates: "sched_inv_at P R S \<Longrightarrow> validate_invariants S"
  by (simp add: validate_invariants_def validate_cpu_inv validate_slot_inv validate_ready_inv
      validate_current_inv running_slots_count)

end
