(* ===== verification/Sched_Pure.thy ===== *)
theory Sched_Pure
  imports Sched_Inv
begin

text \<open>
  What the scheduler's own operations do to a state that satisfies the invariant: none of their
  panics is reachable, and the result is an explicit composition of \<open>upd_thread\<close>, \<open>upd_cpu\<close>
  and the queue updates, for which the invariant is re-established.
\<close>

section \<open>Preservation under the elementary updates\<close>

lemma table_ok_upd_thread [simp]:
  assumes "lookup S x = Some th"
  shows "table_ok R (upd_thread x f S) \<longleftrightarrow> table_ok R S"
proof -
  let ?s = "slots (lifecycle S)" and ?s' = "slots (lifecycle (upd_thread x f S))"
  have "slot_thread (?s' ! i) = None \<longleftrightarrow> slot_thread (?s ! i) = None" if "i < length ?s" for i
    using that lookup_index_less [OF assms] by (auto simp: upd_thread_def Let_def nth_list_update)
  moreover have "slot_stack (?s' ! i) = slot_stack (?s ! i)" if "i < length ?s" for i
    using that lookup_index_less [OF assms] by (auto simp: upd_thread_def Let_def nth_list_update)
  ultimately show ?thesis unfolding table_ok_def Let_def
    by (simp add: set_eq_iff cong: conj_cong)
qed

lemma table_ok_frame [simp]:
  "table_ok R (upd_cpu c f S) \<longleftrightarrow> table_ok R S"
  "table_ok R (S\<lparr>remote_ready := r\<rparr>) \<longleftrightarrow> table_ok R S"
  "table_ok R (S\<lparr>scheduler_ipi_pending := p\<rparr>) \<longleftrightarrow> table_ok R S"
  by (simp_all add: table_ok_def)

lemma placed_upd_thread:
  "lookup S x = Some th \<Longrightarrow> placed (upd_thread x f S) = (placed S)(x \<mapsto> (home_cpu (f th), tstate (f th)))"
  by (rule ext) (simp add: placed_def lookup_upd_thread)

lemma placed_frame [simp]:
  "placed (upd_cpu c f S) = placed S"
  "placed (S\<lparr>remote_ready := r\<rparr>) = placed S"
  "placed (S\<lparr>scheduler_ipi_pending := p\<rparr>) = placed S"
  by (simp_all add: placed_def fun_eq_iff)

lemma lookup_fun_frame [simp]:
  "lookup (upd_cpu c f S) = lookup S"
  "lookup (S\<lparr>remote_ready := r\<rparr>) = lookup S"
  "lookup (S\<lparr>scheduler_ipi_pending := p\<rparr>) = lookup S"
  by (simp_all add: fun_eq_iff)

lemma placed_same [simp]:
  "lookup S x = Some th \<Longrightarrow> home_cpu (f th) = home_cpu th \<Longrightarrow> tstate (f th) = tstate th \<Longrightarrow>
   placed (upd_thread x f S) = placed S"
  by (rule ext) (simp add: placed_def lookup_upd_thread)

lemma idle_ok_upd_thread:
  assumes "idle_ok S" "lookup S x = Some th" "user_res (f th) = user_res th \<or> user_res th \<noteq> None" "joinable (f th) = joinable th"
  shows "idle_ok (upd_thread x f S)"
  using assms by (auto simp: idle_ok_def lookup_upd_thread)

lemma idle_ok_upd_cpu:
  assumes "idle_ok S" "idle (f (cpus S c)) = idle (cpus S c)"
  shows "idle_ok (upd_cpu c f S)"
  using assms by (auto simp: idle_ok_def)

lemma idle_ok_frame [simp]:
  "idle_ok (S\<lparr>remote_ready := r\<rparr>) \<longleftrightarrow> idle_ok S"
  "idle_ok (S\<lparr>scheduler_ipi_pending := p\<rparr>) \<longleftrightarrow> idle_ok S"
  by (simp_all add: idle_ok_def)

lemma retired_on_frame [simp]:
  "retired_on (upd_thread x f S) = retired_on S"
  "retired_on (S\<lparr>remote_ready := r\<rparr>) = retired_on S"
  "retired_on (S\<lparr>scheduler_ipi_pending := p\<rparr>) = retired_on S"
  by (simp_all add: retired_on_def fun_eq_iff)

lemma retired_on_upd_cpu:
  "retired (f (cpus S c)) = retired (cpus S c) \<Longrightarrow> retired_on (upd_cpu c f S) = retired_on S"
  by (simp add: retired_on_def fun_eq_iff)

lemma thread_ok_tstate:
  "thread_ok x th \<Longrightarrow> phase_ok st (wait_md th) \<Longrightarrow> st \<noteq> Exited \<Longrightarrow> thread_ok x (th\<lparr>tstate := st\<rparr>)"
  by (simp add: thread_ok_def)

text \<open>A joined thread and its joiner.\<close>

lemma join_okD:
  assumes "join_ok P L ret" "L t = Some th" "joiner th = Some tok"
  shows "joinable th" "tstate th = Exited \<Longrightarrow> ret (home_cpu th) = Some t"
    "\<exists>jt. L (wt_thread tok) = Some jt \<and> waits_as P jt tok"
    "L t' = Some th' \<Longrightarrow> joiner th' = Some tok \<Longrightarrow> t = t'"
  using assms unfolding join_ok_def by blast+

lemma join_okI:
  assumes "\<And>t th tok. L t = Some th \<Longrightarrow> joiner th = Some tok \<Longrightarrow>
      joinable th \<and> (tstate th = Exited \<longrightarrow> ret (home_cpu th) = Some t) \<and>
      (\<exists>jt. L (wt_thread tok) = Some jt \<and> waits_as P jt tok)"
    and "\<And>t th t' th' tok. L t = Some th \<Longrightarrow> joiner th = Some tok \<Longrightarrow> L t' = Some th' \<Longrightarrow> joiner th' = Some tok \<Longrightarrow> t = t'"
  shows "join_ok P L ret"
  using assms unfolding join_ok_def by blast

text \<open>An update of one thread that keeps its joiner and, if it is itself waiting as a joiner, its wait.\<close>

lemma join_ok_upd:
  assumes ok: "join_ok P L ret" and x: "L x = Some th"
    and keep: "joiner th' = joiner th" "joinable th' = joinable th" "home_cpu th' = home_cpu th"
    and ex: "tstate th' = Exited \<Longrightarrow> tstate th = Exited \<or> joiner th = None \<or> ret (home_cpu th) = Some x"
    and wait: "\<And>tok t tht. wt_thread tok = x \<Longrightarrow> waits_as P th tok \<Longrightarrow> L t = Some tht \<Longrightarrow> joiner tht = Some tok \<Longrightarrow> waits_as P th' tok"
  shows "join_ok P (L(x \<mapsto> th')) ret"
proof -
  have orig: "\<exists>a. L t = Some a \<and> joiner a = Some tok"
    if "(L(x \<mapsto> th')) t = Some tht" "joiner tht = Some tok" for t tht tok
    using that x keep(1) by (cases "t = x") auto
  show ?thesis
  proof (rule join_okI)
    fix t tht tok assume t: "(L(x \<mapsto> th')) t = Some tht" "joiner tht = Some tok"
    obtain tht0 where t0: "L t = Some tht0" "joiner tht0 = Some tok" "joinable tht0 = joinable tht"
      "home_cpu tht0 = home_cpu tht" and t0x: "t = x \<and> tht = th' \<and> tht0 = th \<or> tht = tht0"
      using t x keep by (cases "t = x") auto
    note d = join_okD [OF ok t0(1,2)]
    obtain jt where jt: "L (wt_thread tok) = Some jt" "waits_as P jt tok" using d(3) by blast
    have "\<exists>jt. (L(x \<mapsto> th')) (wt_thread tok) = Some jt \<and> waits_as P jt tok"
      using jt wait [OF _ _ t0(1,2)] x by (cases "wt_thread tok = x") auto
    moreover have "tstate tht = Exited \<longrightarrow> ret (home_cpu tht) = Some t"
      using t0x
    proof
      assume *: "t = x \<and> tht = th' \<and> tht0 = th"
      then show ?thesis using d(2) ex t0(2,4) by auto
    next
      assume "tht = tht0"
      then show ?thesis using d(2) by simp
    qed
    ultimately show "joinable tht \<and> (tstate tht = Exited \<longrightarrow> ret (home_cpu tht) = Some t) \<and>
      (\<exists>jt. (L(x \<mapsto> th')) (wt_thread tok) = Some jt \<and> waits_as P jt tok)" using d(1) t0(3) by simp
  next
    fix t tht t' tht' tok
    assume "(L(x \<mapsto> th')) t = Some tht" "joiner tht = Some tok" "(L(x \<mapsto> th')) t' = Some tht'" "joiner tht' = Some tok"
    then obtain a b where "L t = Some a" "joiner a = Some tok" "L t' = Some b" "joiner b = Some tok"
      using orig by metis
    then show "t = t'" by (rule join_okD(4) [OF ok])
  qed
qed

text \<open>Only the state of a thread changes, and not to exited.\<close>

lemma join_ok_tstate:
  assumes "join_ok P L ret" "L x = Some th" "st \<noteq> Exited"
  shows "join_ok P (L(x \<mapsto> th\<lparr>tstate := st\<rparr>)) ret"
  using assms(3) by (intro join_ok_upd [OF assms(1,2)]) (auto simp: waits_as_def)

section \<open>Elementary operations\<close>

definition requeue :: "cpu_id \<Rightarrow> thread_id \<Rightarrow> scheduler \<Rightarrow> scheduler" where
  "requeue c x S =
     (let S = upd_thread x (\<lambda>th. th\<lparr>tstate := Ready\<rparr>) S
      in if idle (cpus S c) = Some x then S
         else upd_cpu c (\<lambda>k. k\<lparr>ready_queue := ready_queue k @ [x]\<rparr>) S)"

definition run_next :: "cpu_id \<Rightarrow> thread_id \<Rightarrow> scheduler \<Rightarrow> scheduler" where
  "run_next c x S = upd_cpu c (\<lambda>k. k\<lparr>current := Some x\<rparr>) (upd_thread x (\<lambda>th. th\<lparr>tstate := Running\<rparr>) S)"

definition drop_front :: "cpu_id \<Rightarrow> scheduler \<Rightarrow> scheduler" where
  "drop_front c S = upd_cpu c (\<lambda>k. k\<lparr>ready_queue := tl (ready_queue k)\<rparr>) S"

text \<open>The queues of a CPU are sound while a thread is between two states.\<close>

definition queues_ok :: "scheduler \<Rightarrow> cpu_id \<Rightarrow> bool" where
  "queues_ok S c \<longleftrightarrow> distinct (ready_queue (cpus S c) @ remote_ready S c) \<and>
     (\<exists>w. idle (cpus S c) = Some w \<and> lookup S w \<noteq> None \<and>
       (\<forall>y\<in>set (ready_queue (cpus S c)) \<union> set (remote_ready S c). lookup S y \<noteq> None \<and> y \<noteq> w))"

lemma queues_okI:
  assumes "cpu_inv S c" "idle (cpus S c) = Some w"
  shows "queues_ok S c"
proof -
  obtain wt where "lookup S w = Some wt" using cpu_inv_idle [OF assms] .
  moreover have "lookup S y \<noteq> None \<and> y \<noteq> w" if "y \<in> set (ready_queue (cpus S c)) \<union> set (remote_ready S c)" for y
    using cpu_inv_queued [OF assms(1) that] assms(2) by auto
  ultimately show ?thesis
    using assms(2) cpu_okD(1) [OF assms(1) [unfolded cpu_inv_def]] unfolding queues_ok_def by auto
qed

lemma queues_ok_upd_thread [simp]:
  assumes "lookup S x = Some th"
  shows "queues_ok (upd_thread x f S) c \<longleftrightarrow> queues_ok S c"
proof -
  have "lookup (upd_thread x f S) y \<noteq> None \<longleftrightarrow> lookup S y \<noteq> None" for y
    using assms by (simp add: lookup_upd_thread)
  then show ?thesis by (simp only: queues_ok_def upd_thread_frame)
qed

lemma queues_ok_room:
  assumes q: "queues_ok S c" "table_ok R S"
    and x: "lookup S x \<noteq> None" "x \<notin> set (ready_queue (cpus S c)) \<union> set (remote_ready S c)" "idle (cpus S c) \<noteq> Some x"
  shows "length (ready_queue (cpus S c)) + length (remote_ready S c) < queue_room S"
proof -
  let ?q = "ready_queue (cpus S c) @ remote_ready S c"
  obtain w where w: "idle (cpus S c) = Some w" "lookup S w \<noteq> None" "distinct ?q"
    "\<And>y. y \<in> set ?q \<Longrightarrow> lookup S y \<noteq> None \<and> y \<noteq> w" using q(1) by (auto simp: queues_ok_def)
  have live: "lookup S y \<noteq> None" if "y \<in> set (x # w # ?q)" for y
    using that x(1) w(2,4) by (auto simp only: set_simps insert_iff)
  have "inj_on tid_index (set (x # w # ?q))"
    by (rule inj_onI) (metis live lookup_index_inj not_None_eq)
  moreover have "distinct (x # w # ?q)" using x w by auto
  ultimately have "distinct (map tid_index (x # w # ?q))" by (simp only: distinct_map)
  moreover have "set (map tid_index (x # w # ?q)) \<subseteq> {..<length (slots (lifecycle S))}"
    using live lookup_index_less by (simp only: set_map) blast
  ultimately have "length (map tid_index (x # w # ?q)) \<le> length (slots (lifecycle S))"
    by (rule distinct_subset_length)
  then show ?thesis using q(2) by (simp add: table_ok_def Let_def)
qed

lemma ready_push_back_ok:
  assumes q: "queues_ok S c" "table_ok R S"
    and x: "lookup S x = Some th" "home_cpu th = c" "x \<notin> set (ready_queue (cpus S c)) \<union> set (remote_ready S c)"
      "idle (cpus S c) \<noteq> Some x"
  shows "ready_push_back c x S = Some (upd_cpu c (\<lambda>k. k\<lparr>ready_queue := ready_queue k @ [x]\<rparr>) S)"
proof -
  have "length (ready_queue (cpus S c)) \<noteq> queue_room S" using queues_ok_room [OF q _ x(3,4)] x(1) by simp
  moreover have "\<not> list_ex (\<lambda>y. tid_index y = tid_index x) (ready_queue (cpus S c))"
  proof -
    have "tid_index y \<noteq> tid_index x" if "y \<in> set (ready_queue (cpus S c))" for y
      using that q(1) x(1,3) lookup_index_inj [OF _ x(1), of y] by (auto simp: queues_ok_def)
    then show ?thesis by (auto simp: list_ex_iff)
  qed
  ultimately show ?thesis using x
    by (simp add: ready_push_back_def thread_home_cpu_def lookup_thread_at)
qed

lemma make_running_ok:
  assumes "lookup S x = Some th" "tstate th = Ready" "home_cpu th = c"
  shows "make_running c x S = Some (run_next c x S)"
  using assms
  by (simp add: make_running_def run_next_def thread_matches_lookup lookup_thread_at update_thread_lookup)

lemma ready_pop_front_ok:
  assumes "cpu_inv S c" "ready_queue (cpus S c) = x # rest"
  shows "ready_pop_front c S = Some (Some x, drop_front c S)"
proof -
  have "x \<in> set (ready_queue (cpus S c)) \<union> set (remote_ready S c)" using assms(2) by simp
  then obtain th where th: "lookup S x = Some th" "home_cpu th = c" "tstate th = Ready" "idle (cpus S c) \<noteq> Some x"
    by (rule cpu_inv_queued [OF assms(1)])
  let ?S = "upd_cpu c (\<lambda>k. k\<lparr>ready_queue := rest\<rparr>) S"
  have "lookup ?S x = Some th" using th by simp
  then have "thread_at (tid_index x) ?S = Some th" "thread_matches x ?S"
    by (simp_all add: lookup_thread_at thread_matches_lookup)
  then have "ready_pop_front c S = Some (Some x, ?S)" using assms(2) th by (simp add: ready_pop_front_def)
  moreover have "?S = drop_front c S" using assms(2) by (simp add: drop_front_def upd_cpu_def)
  ultimately show ?thesis by simp
qed

lemma assert_current_running_ok:
  assumes "cpu_inv S c" "current (cpus S c) = Some x"
  shows "assert_current_running x S = Some ()"
proof -
  obtain th where "lookup S x = Some th" "home_cpu th = c" "tstate th = Running"
    using cpu_inv_current [OF assms] .
  then show ?thesis using assms(2)
    by (simp add: assert_current_running_def thread_home_cpu_def thread_state_of_def lookup_thread_at thread_matches_lookup)
qed

lemma make_ready_and_queue_ok:
  assumes q: "queues_ok (sched s) c" "table_ok R (sched s)"
    and x: "lookup (sched s) x = Some th" "home_cpu th = c"
      "x \<notin> set (ready_queue (cpus (sched s) c)) \<union> set (remote_ready (sched s) c)"
  shows "make_ready_and_queue c x notify s =
    (if idle (cpus (sched s) c) \<noteq> Some x \<and> notify \<and> ready_queue (cpus (sched s) c) = []
     then note_runnable_peer_available c (s\<lparr>sched := requeue c x (sched s)\<rparr>)
     else Some (s\<lparr>sched := requeue c x (sched s)\<rparr>))"
proof -
  let ?S = "upd_thread x (\<lambda>th. th\<lparr>tstate := Ready\<rparr>) (sched s)"
  have x': "lookup ?S x = Some (th\<lparr>tstate := Ready\<rparr>)" using x(1) by (simp add: lookup_upd_thread)
  have "idle (cpus (sched s) c) \<noteq> Some x \<Longrightarrow>
    ready_push_back c x ?S = Some (upd_cpu c (\<lambda>k. k\<lparr>ready_queue := ready_queue k @ [x]\<rparr>) ?S)"
    by (rule ready_push_back_ok [OF _ _ x']) (use q x in simp_all)
  then show ?thesis using x(1)
    by (simp add: make_ready_and_queue_def requeue_def thread_matches_lookup update_thread_lookup Let_def)
qed

section \<open>Sequence numbers and joiners\<close>

text \<open>
  A slot's wait sequence only grows, across the threads that occupy it; a transition other than
  a join registers no joiner.
\<close>

definition slot_seq :: "scheduler \<Rightarrow> usize \<Rightarrow> u64" where
  "slot_seq S i =
     (let slot = slots (lifecycle S) ! i
      in case slot_thread slot of Some th \<Rightarrow> next_sequence (wait_md th) | None \<Rightarrow> next_wait_sequence slot)"

definition grows :: "scheduler \<Rightarrow> scheduler \<Rightarrow> bool" where
  "grows S S' \<longleftrightarrow> length (slots (lifecycle S')) = length (slots (lifecycle S)) \<and>
     (\<forall>i<length (slots (lifecycle S)). slot_seq S i \<le> slot_seq S' i) \<and>
     rr_quantum_ms S' = rr_quantum_ms S \<and> queue_room S' = queue_room S"

lemma grows_refl [simp]: "grows S S"
  by (simp add: grows_def)

lemma grows_trans [trans]: "grows S S1 \<Longrightarrow> grows S1 S2 \<Longrightarrow> grows S S2"
  by (auto simp: grows_def intro: order_trans)

lemma slot_seq_frame [simp]:
  "slot_seq (upd_cpu c f S) = slot_seq S"
  "slot_seq (S\<lparr>remote_ready := r\<rparr>) = slot_seq S"
  "slot_seq (S\<lparr>scheduler_ipi_pending := p\<rparr>) = slot_seq S"
  by (simp_all add: slot_seq_def fun_eq_iff)

lemma grows_frame [simp]:
  "grows S (upd_cpu c f S)" "grows S (S\<lparr>remote_ready := r\<rparr>)" "grows S (S\<lparr>scheduler_ipi_pending := p\<rparr>)"
  by (simp_all add: grows_def)

lemma slot_seq_lookup: "lookup S x = Some th \<Longrightarrow> slot_seq S (tid_index x) = next_sequence (wait_md th)"
  by (simp add: lookup_Some slot_seq_def)

lemma slot_seq_upd_thread:
  assumes "lookup S x = Some th"
  shows "slot_seq (upd_thread x f S) i = (if i = tid_index x then next_sequence (wait_md (f th)) else slot_seq S i)"
  using assms by (cases "i = tid_index x") (auto simp: lookup_Some slot_seq_def upd_thread_def Let_def split: option.splits)

lemma grows_upd_thread:
  assumes "lookup S x = Some th" "next_sequence (wait_md th) \<le> next_sequence (wait_md (f th))"
  shows "grows S (upd_thread x f S)"
  using assms slot_seq_lookup [OF assms(1)] by (simp add: grows_def slot_seq_upd_thread)

lemma joiner_token_frame [simp]:
  "joiner_token (upd_cpu c f S) = joiner_token S"
  "joiner_token (S\<lparr>remote_ready := r\<rparr>) = joiner_token S"
  "joiner_token (S\<lparr>scheduler_ipi_pending := p\<rparr>) = joiner_token S"
  by (simp_all add: joiner_token_def fun_eq_iff)

lemma joiner_token_upd_thread:
  assumes "lookup S x = Some th" "joiner (f th) = joiner th"
  shows "joiner_token (upd_thread x f S) = joiner_token S"
proof
  fix tok
  have "(\<exists>b. lookup (upd_thread x f S) t = Some b \<and> joiner b = Some tok) \<longleftrightarrow>
      (\<exists>b. lookup S t = Some b \<and> joiner b = Some tok)" for t
    using assms by (cases "t = x") (simp_all add: lookup_upd_thread)
  then show "joiner_token (upd_thread x f S) tok = joiner_token S tok" by (simp add: joiner_token_def)
qed

lemma requeue_frame [simp]:
  assumes "lookup S x = Some th"
  shows "grows S (requeue c x S)" "joiner_token (requeue c x S) = joiner_token S"
    "remote_ready (requeue c x S) = remote_ready S"
    "scheduler_ipi_pending (requeue c x S) = scheduler_ipi_pending S"
    "lookup (requeue c x S) = (lookup S)(x \<mapsto> th\<lparr>tstate := Ready\<rparr>)"
    "table_ok R (requeue c x S) \<longleftrightarrow> table_ok R S" "retired_on (requeue c x S) = retired_on S"
    "cpus (requeue c x S) = (cpus S)(c := (cpus S c)\<lparr>ready_queue :=
       ready_queue (cpus S c) @ (if idle (cpus S c) = Some x then [] else [x])\<rparr>)"
proof -
  let ?S = "upd_thread x (\<lambda>th. th\<lparr>tstate := Ready\<rparr>) S"
  have "grows S ?S" using assms by (simp add: grows_upd_thread)
  then show "grows S (requeue c x S)"
    using grows_trans [of S ?S "upd_cpu c (\<lambda>k. k\<lparr>ready_queue := ready_queue k @ [x]\<rparr>) ?S"]
    by (simp add: requeue_def Let_def)
qed (use assms in \<open>simp_all add: requeue_def Let_def joiner_token_upd_thread lookup_upd_thread_fun retired_on_upd_cpu\<close>)

lemma run_next_frame [simp]:
  assumes "lookup S x = Some th"
  shows "grows S (run_next c x S)" "joiner_token (run_next c x S) = joiner_token S"
    "remote_ready (run_next c x S) = remote_ready S"
    "scheduler_ipi_pending (run_next c x S) = scheduler_ipi_pending S"
    "lookup (run_next c x S) = (lookup S)(x \<mapsto> th\<lparr>tstate := Running\<rparr>)"
    "table_ok R (run_next c x S) \<longleftrightarrow> table_ok R S" "retired_on (run_next c x S) = retired_on S"
    "cpus (run_next c x S) = (cpus S)(c := (cpus S c)\<lparr>current := Some x\<rparr>)"
proof -
  let ?S = "upd_thread x (\<lambda>th. th\<lparr>tstate := Running\<rparr>) S"
  have "grows S ?S" using assms by (simp add: grows_upd_thread)
  then show "grows S (run_next c x S)"
    using grows_trans [of S ?S "upd_cpu c (\<lambda>k. k\<lparr>current := Some x\<rparr>) ?S"] by (simp add: run_next_def)
qed (use assms in \<open>simp_all add: run_next_def joiner_token_upd_thread lookup_upd_thread_fun retired_on_upd_cpu\<close>)

lemma drop_front_frame [simp]:
  "grows S (drop_front c S)" "joiner_token (drop_front c S) = joiner_token S"
  "remote_ready (drop_front c S) = remote_ready S"
  "scheduler_ipi_pending (drop_front c S) = scheduler_ipi_pending S"
  "lookup (drop_front c S) = lookup S" "table_ok R (drop_front c S) \<longleftrightarrow> table_ok R S"
  "retired_on (drop_front c S) = retired_on S"
  "cpus (drop_front c S) = (cpus S)(c := (cpus S c)\<lparr>ready_queue := tl (ready_queue (cpus S c))\<rparr>)"
  by (simp_all add: drop_front_def retired_on_upd_cpu)

section \<open>Local transitions\<close>

lemma placed_fun: "placed S = (\<lambda>x. map_option (\<lambda>th. (home_cpu th, tstate th)) (lookup S x))"
  by (simp add: placed_def fun_eq_iff)

text \<open>
  A transition on CPU \<open>c\<close> keeps the invariant when it keeps what other CPUs see and the changed
  threads are well formed.
\<close>

lemma inv_local:
  assumes inv: "sched_inv_at P R S" and t: "table_ok R' S'"
    and other: "\<And>c'. c' \<noteq> c \<Longrightarrow> cpus S' c' = cpus S c'" "\<And>c'. c' \<noteq> c \<Longrightarrow> remote_ready S' c' = remote_ready S c'"
      "\<And>c'. c' \<noteq> c \<Longrightarrow> scheduler_ipi_pending S' c' = scheduler_ipi_pending S c'"
      "\<And>c'. c' \<noteq> c \<Longrightarrow> same_on c' (placed S) (placed S')"
    and cpu: "cpu_inv S' c"
    and threads: "\<And>x th. lookup S' x = Some th \<Longrightarrow> lookup S x = Some th \<or> thread_ok x th"
    and join: "join_ok P' (lookup S') (retired_on S')" and idle: "idle_ok S'"
  shows "sched_inv_at P' R' S'"
proof (rule sched_inv_atI [OF t _ _ join idle])
  show "cpu_inv S' c'" for c'
  proof (cases "c' = c")
    case False
    then show ?thesis using cpu_ok_same_on [OF sched_inv_atD(2) [OF inv, of c', unfolded cpu_inv_def]] other
      by (simp add: cpu_inv_def)
  qed (use cpu in simp)
  show "thread_ok x th" if "lookup S' x = Some th" for x th
    using threads [OF that] sched_inv_atD(3) [OF inv, of x th] by blast
qed

text \<open>The placement after updates of threads of one CPU.\<close>

lemma placed_upd1:
  "lookup S' = (lookup S)(x \<mapsto> a) \<Longrightarrow> placed S' = (placed S)(x \<mapsto> (home_cpu a, tstate a))"
  by (simp add: placed_fun fun_eq_iff)

lemma placed_upd2:
  "lookup S' = (lookup S)(x \<mapsto> a, y \<mapsto> b) \<Longrightarrow>
   placed S' = (placed S)(x \<mapsto> (home_cpu a, tstate a), y \<mapsto> (home_cpu b, tstate b))"
  by (simp add: placed_fun fun_eq_iff)

lemma same_on_upd1:
  assumes "lookup S x = Some a0" "home_cpu a0 = c" "c' \<noteq> c"
  shows "same_on c' (placed S) ((placed S)(x \<mapsto> (c, st)))"
  using assms by (auto simp: same_on_def placed_def)

lemma same_on_upd2:
  assumes "lookup S x = Some a0" "home_cpu a0 = c" "lookup S y = Some b0" "home_cpu b0 = c" "c' \<noteq> c"
  shows "same_on c' (placed S) ((placed S)(x \<mapsto> (c, st), y \<mapsto> (c, st')))"
  using assms by (auto simp: same_on_def placed_def)

end
