(* ===== verification/Sched_Machine.thy ===== *)
theory Sched_Machine
  imports Sched_Ops
begin

text \<open>
  The machine as the scheduler sees it: which events are queued on a CPU, and what the time and
  preemption calls change. A call that only touches the clock, the timers and the deadline
  queues relates its states by \<open>time_only\<close>; the parts of the machine no scheduler operation
  changes are compared by \<open>same_machine\<close>.
\<close>

section \<open>Unchanged parts\<close>

definition same_machine :: "'a system_scheme \<Rightarrow> 'a system_scheme \<Rightarrow> bool" where
  "same_machine s s' \<longleftrightarrow>
     executing s' = executing s \<and> cpus_registered s' = cpus_registered s \<and> clock s' = clock s \<and>
     counter_freq s' = counter_freq s \<and> ipi_ok s' = ipi_ok s \<and> arch_activate s' = arch_activate s \<and>
     arch_clear s' = arch_clear s \<and> sched_published s' = sched_published s \<and> system.more s' = system.more s \<and>
     (\<forall>c. disable_depth (cpu_preemption s' c) = disable_depth (cpu_preemption s c))"

lemma same_machine_refl [simp]: "same_machine s s"
  by (simp add: same_machine_def)

lemma same_machine_trans [trans]: "same_machine s s1 \<Longrightarrow> same_machine s1 s2 \<Longrightarrow> same_machine s s2"
  by (simp add: same_machine_def)

lemma same_machine_frame [simp]:
  "same_machine s (s\<lparr>sched := S\<rparr>)" "same_machine s (s\<lparr>user_spaces := u\<rparr>)" "same_machine s (s\<lparr>ipi_sent := l\<rparr>)"
  "same_machine s (s\<lparr>clock_reads := n\<rparr>)" "same_machine s (s\<lparr>hw_timer := h\<rparr>)" "same_machine s (s\<lparr>cpu_time := t\<rparr>)"
  by (simp_all add: same_machine_def)

lemma same_machine_cpu: "same_machine s s' \<Longrightarrow> current_cpu s' = current_cpu s"
  by (simp add: same_machine_def current_cpu_def)

lemma same_machine_enabled:
  "same_machine s s' \<Longrightarrow> assert_preemption_enabled_on c s' = assert_preemption_enabled_on c s"
  by (simp add: same_machine_def assert_preemption_enabled_on_def current_cpu_def assert_enabled_def)

lemma same_machine_disabled: "same_machine s s' \<Longrightarrow> is_disabled s' = is_disabled s"
  by (simp add: same_machine_def is_disabled_def current_cpu_def preempt_is_disabled_def)

definition time_only :: "'a system_scheme \<Rightarrow> 'a system_scheme \<Rightarrow> bool" where
  "time_only s s' \<longleftrightarrow> (\<exists>n h t. s' = s\<lparr>clock_reads := n, hw_timer := h, cpu_time := t\<rparr>)"

lemma time_only_trans [trans]:
  assumes "time_only s s1" "time_only s1 s2"
  shows "time_only s s2"
proof -
  from assms obtain n h t n' h' t' where "s1 = s\<lparr>clock_reads := n, hw_timer := h, cpu_time := t\<rparr>"
    "s2 = s1\<lparr>clock_reads := n', hw_timer := h', cpu_time := t'\<rparr>" by (auto simp: time_only_def)
  then have "s2 = s\<lparr>clock_reads := n', hw_timer := h', cpu_time := t'\<rparr>" by simp
  then show ?thesis by (auto simp: time_only_def)
qed

lemma time_only_refl [simp]: "time_only s s"
proof -
  have "s = s\<lparr>clock_reads := clock_reads s, hw_timer := hw_timer s, cpu_time := cpu_time s\<rparr>" by simp
  then show ?thesis unfolding time_only_def by blast
qed

lemma time_onlyI:
  "time_only s (s\<lparr>hw_timer := h, cpu_time := t\<rparr>)" "time_only s (s\<lparr>clock_reads := n\<rparr>)"
  "time_only s (s\<lparr>clock_reads := n, cpu_time := t\<rparr>)"
proof -
  have "s\<lparr>hw_timer := h, cpu_time := t\<rparr> = s\<lparr>clock_reads := clock_reads s, hw_timer := h, cpu_time := t\<rparr>"
    "s\<lparr>clock_reads := n\<rparr> = s\<lparr>clock_reads := n, hw_timer := hw_timer s, cpu_time := cpu_time s\<rparr>"
    "s\<lparr>clock_reads := n, cpu_time := t\<rparr> = s\<lparr>clock_reads := n, hw_timer := hw_timer s, cpu_time := t\<rparr>" by simp_all
  then show "time_only s (s\<lparr>hw_timer := h, cpu_time := t\<rparr>)" "time_only s (s\<lparr>clock_reads := n\<rparr>)"
    "time_only s (s\<lparr>clock_reads := n, cpu_time := t\<rparr>)" unfolding time_only_def by blast+
qed

lemma time_onlyD:
  assumes "time_only s s'"
  shows "same_machine s s'" "sched s' = sched s" "user_spaces s' = user_spaces s" "ipi_sent s' = ipi_sent s"
    "cpu_preemption s' = cpu_preemption s"
  using assms by (auto simp: time_only_def same_machine_def)

section \<open>Queued events\<close>

definition events :: "'a machine_scheme \<Rightarrow> cpu_id \<Rightarrow> timed_event set" where
  "events m c = (case time_abs m c of Some (tm, _, _) \<Rightarrow> dom tm | None \<Rightarrow> {})"

definition dispatching :: "'a machine_scheme \<Rightarrow> cpu_id \<Rightarrow> bool" where
  "dispatching m c = (case time_abs m c of Some (_, b, _) \<Rightarrow> b | None \<Rightarrow> False)"

text \<open>Every registered CPU has a sound deadline queue, with the reserved room for three events a thread.\<close>

definition queue_size :: usize where
  "queue_size = KERNEL_THREAD_CAPACITY * TIMED_EVENT_CAPACITY_PER_THREAD"

definition queues_sound :: "'a machine_scheme \<Rightarrow> bool" where
  "queues_sound m \<longleftrightarrow> time_inv m \<and>
     (\<forall>c<cpus_registered m. \<exists>tm b cap. time_abs m c = Some (tm, b, cap) \<and> cap = queue_size)"

lemma queues_soundD:
  assumes "queues_sound m" "c < cpus_registered m"
  obtains tm b cap where "time_inv m" "time_abs m c = Some (tm, b, cap)" "cap = queue_size"
    "events m c = dom tm" "dispatching m c = b"
  using assms by (fastforce simp: queues_sound_def events_def dispatching_def)

lemma time_abs_frame [simp]:
  "time_abs (m\<lparr>clock_reads := n\<rparr>) = time_abs m" "time_abs (m\<lparr>cpu_preemption := p\<rparr>) = time_abs m"
  "time_abs (m\<lparr>user_spaces := u\<rparr>) = time_abs m" "time_abs (m\<lparr>ipi_sent := l\<rparr>) = time_abs m"
  "time_abs (s\<lparr>sched := S\<rparr>) = time_abs s"
  by (simp_all add: time_abs_def fun_eq_iff)

lemma time_inv_frame [simp]:
  "time_inv (m\<lparr>clock_reads := n\<rparr>) = time_inv m" "time_inv (m\<lparr>cpu_preemption := p\<rparr>) = time_inv m"
  "time_inv (m\<lparr>user_spaces := u\<rparr>) = time_inv m" "time_inv (m\<lparr>ipi_sent := l\<rparr>) = time_inv m"
  "time_inv (s\<lparr>sched := S\<rparr>) = time_inv s"
  by (simp_all add: time_inv_def)

lemma current_cpu_frame [simp]:
  "current_cpu (m\<lparr>clock_reads := n\<rparr>) = current_cpu m" "current_cpu (m\<lparr>cpu_preemption := p\<rparr>) = current_cpu m"
  "current_cpu (m\<lparr>user_spaces := u\<rparr>) = current_cpu m" "current_cpu (m\<lparr>ipi_sent := l\<rparr>) = current_cpu m"
  "current_cpu (s\<lparr>sched := S\<rparr>) = current_cpu s"
  by (simp_all add: current_cpu_def)

lemma events_frame [simp]:
  "events (m\<lparr>clock_reads := n\<rparr>) = events m" "events (m\<lparr>cpu_preemption := p\<rparr>) = events m"
  "events (m\<lparr>user_spaces := u\<rparr>) = events m" "events (m\<lparr>ipi_sent := l\<rparr>) = events m"
  "events (s\<lparr>sched := S\<rparr>) = events s"
  by (simp_all add: events_def fun_eq_iff)

lemma dispatching_frame [simp]:
  "dispatching (m\<lparr>clock_reads := n\<rparr>) = dispatching m" "dispatching (m\<lparr>cpu_preemption := p\<rparr>) = dispatching m"
  "dispatching (m\<lparr>user_spaces := u\<rparr>) = dispatching m" "dispatching (m\<lparr>ipi_sent := l\<rparr>) = dispatching m"
  "dispatching (s\<lparr>sched := S\<rparr>) = dispatching s"
  by (simp_all add: dispatching_def fun_eq_iff)

lemma queues_sound_frame [simp]:
  "queues_sound (m\<lparr>clock_reads := n\<rparr>) = queues_sound m" "queues_sound (m\<lparr>cpu_preemption := p\<rparr>) = queues_sound m"
  "queues_sound (m\<lparr>user_spaces := u\<rparr>) = queues_sound m" "queues_sound (m\<lparr>ipi_sent := l\<rparr>) = queues_sound m"
  "queues_sound (s\<lparr>sched := S\<rparr>) = queues_sound s"
  by (simp_all add: queues_sound_def)

lemma queues_sound_upd:
  assumes "queues_sound m" "time_inv m'" "cpus_registered m' = cpus_registered m"
    "time_abs m' = (time_abs m)(c \<mapsto> (tm', b, cap))" "time_abs m c = Some (tm, b0, cap)"
  shows "queues_sound m'" "events m' = (events m)(c := dom tm')" "dispatching m' = (dispatching m)(c := b)"
  using assms by (auto simp: queues_sound_def events_def dispatching_def fun_eq_iff split: if_splits)

lemma schedule_event_view:
  fixes s :: "'a system_scheme"
  assumes snd: "queues_sound s" and cpu: "current_cpu s = Some c" "event_cpu ev = c"
    and room: "ev \<in> events s c \<or> card (events s c) < queue_size"
  shows "\<exists>s'. schedule_event d ev s = Some s' \<and> time_only s s' \<and> queues_sound s' \<and>
    events s' = (events s)(c := insert ev (events s c)) \<and> dispatching s' = dispatching s"
proof -
  have c: "c < cpus_registered s" using cpu(1) by (auto simp: current_cpu_def split: if_splits)
  obtain tm b cap where q: "time_inv s" "time_abs s c = Some (tm, b, cap)" "cap = queue_size"
    "events s c = dom tm" "dispatching s c = b" by (rule queues_soundD [OF snd c])
  have "ev \<in> dom tm \<or> card (dom tm) < cap" using room q(3,4) by auto
  from schedule_event_ok [OF q(1) cpu q(2) this, of d] obtain h t where
    h: "schedule_event d ev s = Some (s\<lparr>hw_timer := h, cpu_time := t\<rparr>)" "time_inv (s\<lparr>hw_timer := h, cpu_time := t\<rparr>)"
    "time_abs (s\<lparr>hw_timer := h, cpu_time := t\<rparr>) = (time_abs s)(c \<mapsto> (tm(ev \<mapsto> d), b, cap))" by blast
  have "cpus_registered (s\<lparr>hw_timer := h, cpu_time := t\<rparr>) = cpus_registered s" by simp
  from queues_sound_upd [OF snd h(2) this h(3) q(2)] show ?thesis
    using h(1) time_onlyI(1) q(4,5) by (intro exI [of _ "s\<lparr>hw_timer := h, cpu_time := t\<rparr>"]) (auto simp: fun_eq_iff)
qed

lemma publish_sleep_view:
  fixes s :: "'a system_scheme"
  assumes snd: "queues_sound s" and cpu: "current_cpu s = Some c" "wt_cpu tok = c"
    and room: "finite (events s c)" "card (events s c) < queue_size"
  shows "\<exists>s'. publish_sleep d tok s = Some s' \<and> time_only s s' \<and> queues_sound s' \<and>
    events s' = (events s)(c := insert (wait_deadline tok) (events s c - {quantum_expired c (wt_thread tok)})) \<and>
    dispatching s' = dispatching s"
proof -
  let ?q = "quantum_expired c (wt_thread tok)" and ?w = "wait_deadline tok"
  have c: "c < cpus_registered s" using cpu(1) by (auto simp: current_cpu_def split: if_splits)
  obtain tm b cap where q: "time_inv s" "time_abs s c = Some (tm, b, cap)" "cap = queue_size"
    "events s c = dom tm" "dispatching s c = b" by (rule queues_soundD [OF snd c])
  have "dom (tm(?q := None)) = dom tm - {?q}" by auto
  then have "card (dom (tm(?q := None))) < cap"
    using room q(3,4) card_Diff1_le [of "dom tm" ?q] by (simp add: order_le_less_trans)
  then have "?w \<in> dom tm \<or> card (dom (tm(?q := None))) < cap" ..
  from publish_sleep_ok [OF q(1) cpu q(2) this, of d] obtain h t where
    h: "publish_sleep d tok s = Some (s\<lparr>hw_timer := h, cpu_time := t\<rparr>)" "time_inv (s\<lparr>hw_timer := h, cpu_time := t\<rparr>)"
    "time_abs (s\<lparr>hw_timer := h, cpu_time := t\<rparr>) = (time_abs s)(c \<mapsto> (tm(?q := None, ?w \<mapsto> d), b, cap))" by blast
  have "cpus_registered (s\<lparr>hw_timer := h, cpu_time := t\<rparr>) = cpus_registered s" by simp
  from queues_sound_upd [OF snd h(2) this h(3) q(2)] show ?thesis
    using h(1) time_onlyI(1) q(4,5) by (intro exI [of _ "s\<lparr>hw_timer := h, cpu_time := t\<rparr>"]) (auto simp: fun_eq_iff)
qed

lemma cancel_event_view:
  fixes s :: "'a system_scheme"
  assumes snd: "queues_sound s" and cpu: "current_cpu s = Some c'" "event_cpu ev = c" "c < cpus_registered s"
  shows "\<exists>s'. cancel_event ev s = Some s' \<and> time_only s s' \<and> queues_sound s' \<and>
    events s' = (events s)(c := events s c - {ev}) \<and> dispatching s' = dispatching s"
proof -
  obtain tm b cap where q: "time_inv s" "time_abs s c = Some (tm, b, cap)" "cap = queue_size"
    "events s c = dom tm" "dispatching s c = b" by (rule queues_soundD [OF snd cpu(3)])
  from cancel_event_ok [OF q(1) cpu(1,2) q(2)] obtain h t where
    h: "cancel_event ev s = Some (s\<lparr>hw_timer := h, cpu_time := t\<rparr>)" "time_inv (s\<lparr>hw_timer := h, cpu_time := t\<rparr>)"
    "time_abs (s\<lparr>hw_timer := h, cpu_time := t\<rparr>) = (time_abs s)(c \<mapsto> (tm(ev := None), b, cap))" by blast
  have "cpus_registered (s\<lparr>hw_timer := h, cpu_time := t\<rparr>) = cpus_registered s" by simp
  from queues_sound_upd [OF snd h(2) this h(3) q(2)] show ?thesis
    using h(1) time_onlyI(1) q(4,5) by (intro exI [of _ "s\<lparr>hw_timer := h, cpu_time := t\<rparr>"]) (auto simp: fun_eq_iff)
qed

text \<open>The two critical sections of the timer interrupt.\<close>

lemma timer_begin_view:
  fixes s :: "'a system_scheme"
  assumes snd: "queues_sound s" and c: "c < cpus_registered s" and nd: "\<not> dispatching s c"
  shows "\<exists>now x s' evs. timer_interrupt_begin c s = Some (Some (now, x), s') \<and> time_only s s' \<and> queues_sound s' \<and>
    events s' = (events s)(c := events s c - set evs) \<and> dispatching s' = (dispatching s)(c := True) \<and>
    holds_events x evs \<and> set evs \<subseteq> events s c \<and> queue_size \<le> length (expired_entries x)"
proof -
  obtain tm b cap where q: "time_inv s" "time_abs s c = Some (tm, b, cap)" "cap = queue_size"
    "events s c = dom tm" "dispatching s c = b" by (rule queues_soundD [OF snd c])
  let ?now = "clock s (clock_reads s)"
  have "time_abs s c = Some (tm, False, queue_size)" using q nd by simp
  from timer_interrupt_begin_ok [OF q(1) this] obtain x t evs where
    h: "timer_interrupt_begin c s = Some (Some (?now, x), s\<lparr>clock_reads := clock_reads s + 1, cpu_time := t\<rparr>)"
    "time_inv (s\<lparr>clock_reads := clock_reads s + 1, cpu_time := t\<rparr>)"
    "time_abs (s\<lparr>clock_reads := clock_reads s + 1, cpu_time := t\<rparr>) = (time_abs s)(c \<mapsto> (tm |` (- due tm ?now), True, cap))"
    "holds_events x evs" "set evs = due tm ?now" "queue_size \<le> length (expired_entries x)" using q(3) by blast
  let ?s = "s\<lparr>clock_reads := clock_reads s + 1, cpu_time := t\<rparr>"
  have "cpus_registered ?s = cpus_registered s" by simp
  note v = queues_sound_upd [OF snd h(2) this h(3) q(2)]
  have "due tm ?now \<subseteq> dom tm" by (auto simp: due_def split: option.splits)
  then have "set evs \<subseteq> events s c" "dom (tm |` (- due tm ?now)) = events s c - set evs" using h(5) q(4) by auto
  then show ?thesis using h v time_onlyI(3) by (intro exI [of _ ?now] exI [of _ x] exI [of _ ?s] exI [of _ evs]) simp
qed

lemma timer_end_view:
  fixes s :: "'a system_scheme"
  assumes snd: "queues_sound s" and cpu: "current_cpu s = Some c" and dis: "dispatching s c"
    and buf: "queue_size \<le> length (expired_entries x)"
    and ens: "\<And>d ev. ensure u = Some (d, ev) \<Longrightarrow> event_cpu ev = c \<and> card (events s c - set_option (obsolete u)) < queue_size"
  shows "\<exists>s'. timer_interrupt_end c u x s = Some s' \<and> time_only s s' \<and> queues_sound s' \<and>
    events s' = (events s)(c := (events s c - set_option (obsolete u)) \<union> snd ` set_option (ensure u)) \<and>
    dispatching s' = (dispatching s)(c := False)"
proof -
  have c: "c < cpus_registered s" "executing s = c" using cpu by (auto simp: current_cpu_def split: if_splits)
  obtain tm b cap where q: "time_inv s" "time_abs s c = Some (tm, b, cap)" "cap = queue_size"
    "events s c = dom tm" "dispatching s c = b" by (rule queues_soundD [OF snd c(1)])
  let ?tm = "case obsolete u of Some ev \<Rightarrow> tm(ev := None) | None \<Rightarrow> tm"
  have dom: "dom ?tm = events s c - set_option (obsolete u)" using q(4) by (auto split: option.split)
  have abs: "time_abs s c = Some (tm, True, queue_size)" using q dis by simp
  have "quantum_fits u c ?tm queue_size" unfolding quantum_fits_def dom using ens by blast
  from timer_interrupt_end_ok [OF q(1) c(2) abs buf this] obtain h t where
    h: "timer_interrupt_end c u x s = Some (s\<lparr>hw_timer := h, cpu_time := t\<rparr>)" "time_inv (s\<lparr>hw_timer := h, cpu_time := t\<rparr>)"
    "time_abs (s\<lparr>hw_timer := h, cpu_time := t\<rparr>) = (time_abs s)(c \<mapsto> (apply_quantum u tm, False, cap))" using q(3) by blast
  have "cpus_registered (s\<lparr>hw_timer := h, cpu_time := t\<rparr>) = cpus_registered s" by simp
  note v = queues_sound_upd [OF snd h(2) this h(3) q(2)]
  have "dom (apply_quantum u tm) = (events s c - set_option (obsolete u)) \<union> snd ` set_option (ensure u)"
    using q(4) by (auto simp: apply_quantum_def Let_def split: option.splits if_splits)
  then show ?thesis using h(1) v time_onlyI(1) by (intro exI [of _ "s\<lparr>hw_timer := h, cpu_time := t\<rparr>"]) simp
qed

lemma event_pending_view:
  fixes s :: "'a system_scheme"
  assumes "queues_sound s" "event_cpu ev < cpus_registered s"
  shows "event_pending ev s = Some (ev \<in> events s (event_cpu ev))"
proof -
  obtain tm b cap where q: "time_inv s" "time_abs s (event_cpu ev) = Some (tm, b, cap)"
    "events s (event_cpu ev) = dom tm" by (rule queues_soundD [OF assms])
  then show ?thesis by (simp add: event_pending_ok)
qed

section \<open>Quanta and reschedule requests\<close>

lemma quantum_expired_cpu [simp]: "event_cpu (quantum_expired c t) = c"
  by (simp add: quantum_expired_def)

definition quantum_needed :: "cpu_id \<Rightarrow> scheduler \<Rightarrow> timed_event set" where
  "quantum_needed c S =
     (case current (cpus S c) of Some t \<Rightarrow> if ready_queue (cpus S c) = [] then {} else {quantum_expired c t} | None \<Rightarrow> {})"

lemma ensure_quantum_view:
  fixes s :: "'a system_scheme"
  assumes snd: "queues_sound s" and cpu: "current_cpu s = Some c" and room: "card (events s c) < queue_size"
  shows "\<exists>s'. ensure_quantum_event c s = Some s' \<and> time_only s s' \<and> queues_sound s' \<and>
    events s' = (events s)(c := quantum_needed c (sched s) \<union> events s c) \<and> dispatching s' = dispatching s"
proof -
  have c: "c < cpus_registered s" using cpu by (auto simp: current_cpu_def split: if_splits)
  show ?thesis
  proof (cases "current (cpus (sched s) c)")
    case None
    then show ?thesis using snd by (simp add: ensure_quantum_event_def quantum_needed_def)
  next
    case (Some t)
    let ?ev = "quantum_expired c t"
    have pend: "event_pending ?ev s = Some (?ev \<in> events s c)" using event_pending_view [OF snd, of ?ev] c by simp
    show ?thesis
    proof (cases "ready_queue (cpus (sched s) c) = [] \<or> ?ev \<in> events s c")
      case True
      then have "ensure_quantum_event c s = Some s"
        using Some pend by (auto simp: ensure_quantum_event_def has_runnable_peer_def)
      then show ?thesis using snd Some True by (auto simp: quantum_needed_def fun_eq_iff)
    next
      case False
      let ?s = "s\<lparr>clock_reads := clock_reads s + 1\<rparr>"
      let ?d = "clock s (clock_reads s) + ms_to_counts (counter_freq s) (rr_quantum_ms (sched s))"
      have "current_cpu ?s = Some c" "queues_sound ?s" "card (events ?s c) < queue_size"
        using snd cpu room by simp_all
      then obtain s' where s': "schedule_event ?d ?ev ?s = Some s'" "time_only ?s s'" "queues_sound s'"
        "events s' = (events ?s)(c := insert ?ev (events ?s c))" "dispatching s' = dispatching ?s"
        using schedule_event_view [of ?s c ?ev ?d] by auto
      have "ensure_quantum_event c s = Some s'"
        using Some False pend s'(1) by (simp add: ensure_quantum_event_def has_runnable_peer_def now_counter_def)
      moreover have "time_only s s'" using time_only_trans [OF time_onlyI(2) s'(2)] .
      ultimately show ?thesis using s' Some False by (auto simp: quantum_needed_def)
    qed
  qed
qed

text \<open>A reschedule request only sets the CPU's pending flag.\<close>

lemma request_reschedule_on_ok:
  assumes "current_cpu s = Some c"
  shows "request_reschedule_on c s =
    Some (s\<lparr>cpu_preemption := (cpu_preemption s)(c := (cpu_preemption s c)\<lparr>reschedule_pending := True\<rparr>)\<rparr>)"
  using assms by (simp add: request_reschedule_on_def with_state_def preempt_request_def)

lemma consume_checkpoint_on_ok:
  assumes "current_cpu s = Some c"
  shows "consume_checkpoint_on c b s =
    (let (r, p) = consume_checkpoint b (cpu_preemption s c)
     in Some (r, s\<lparr>cpu_preemption := (cpu_preemption s)(c := p)\<rparr>))"
  using assms by (simp add: consume_checkpoint_on_def with_state_def split: prod.splits)

text \<open>What a scheduler-neutral call leaves alone.\<close>

definition neutral :: "'a system_scheme \<Rightarrow> 'a system_scheme \<Rightarrow> bool" where
  "neutral s s' \<longleftrightarrow> same_machine s s' \<and> sched s' = sched s \<and> user_spaces s' = user_spaces s \<and> ipi_sent s' = ipi_sent s"

lemma neutralD:
  assumes "neutral s s'"
  shows "same_machine s s'" "sched s' = sched s" "user_spaces s' = user_spaces s" "ipi_sent s' = ipi_sent s"
    "current_cpu s' = current_cpu s"
  using assms same_machine_cpu [of s s'] by (simp_all add: neutral_def)

lemma neutral_refl [simp]: "neutral s s"
  by (simp add: neutral_def)

lemma neutral_trans [trans]: "neutral s s1 \<Longrightarrow> neutral s1 s2 \<Longrightarrow> neutral s s2"
  by (auto simp: neutral_def intro: same_machine_trans)

lemma time_only_neutral: "time_only s s' \<Longrightarrow> neutral s s'"
  using time_onlyD [of s s'] by (simp add: neutral_def)

lemma neutral_preemption:
  "disable_depth p = disable_depth (cpu_preemption s c) \<Longrightarrow> neutral s (s\<lparr>cpu_preemption := (cpu_preemption s)(c := p)\<rparr>)"
  by (simp add: neutral_def same_machine_def)

lemma request_reschedule_on_view:
  assumes "current_cpu s = Some c"
  shows "\<exists>s'. request_reschedule_on c s = Some s' \<and> neutral s s' \<and> queues_sound s' = queues_sound s \<and>
    events s' = events s \<and> dispatching s' = dispatching s \<and> reschedule_pending (cpu_preemption s' c)"
  by (rule exI, rule conjI, rule request_reschedule_on_ok [OF assms]) (simp add: neutral_preemption)

lemma consume_checkpoint_on_view:
  assumes "current_cpu s = Some c"
  shows "\<exists>r s'. consume_checkpoint_on c b s = Some (r, s') \<and> neutral s s' \<and> queues_sound s' = queues_sound s \<and>
    events s' = events s \<and> dispatching s' = dispatching s \<and>
    (r \<longleftrightarrow> b \<and> disable_depth (cpu_preemption s c) = 0 \<and> reschedule_pending (cpu_preemption s c))"
proof -
  obtain r p where r: "consume_checkpoint b (cpu_preemption s c) = (r, p)" by fastforce
  then have p: "disable_depth p = disable_depth (cpu_preemption s c)"
    and "r \<longleftrightarrow> b \<and> disable_depth (cpu_preemption s c) = 0 \<and> reschedule_pending (cpu_preemption s c)"
    by (auto simp: consume_checkpoint_def split: if_splits)
  then show ?thesis using r
    by (intro exI [of _ r] exI [of _ "s\<lparr>cpu_preemption := (cpu_preemption s)(c := p)\<rparr>"])
      (simp add: consume_checkpoint_on_ok [OF assms] neutral_preemption)
qed

lemma note_peer_view:
  fixes s :: "'a system_scheme"
  assumes snd: "queues_sound s" and cpu: "current_cpu s = Some c" and room: "card (events s c) < queue_size"
  shows "\<exists>s'. note_runnable_peer_available c s = Some s' \<and> neutral s s' \<and> queues_sound s' \<and>
    events s' = (events s)(c := quantum_needed c (sched s) \<union> events s c) \<and> dispatching s' = dispatching s"
proof (cases "quantum_needed c (sched s) = {}")
  case True
  then have "note_runnable_peer_available c s = Some s"
    by (auto simp: note_runnable_peer_available_def has_runnable_peer_def quantum_needed_def split: option.splits if_splits)
  then show ?thesis using snd True by simp
next
  case False
  then have guard: "current (cpus (sched s) c) \<noteq> None \<and> has_runnable_peer c (sched s)"
    by (auto simp: has_runnable_peer_def quantum_needed_def split: option.splits if_splits)
  obtain s1 where s1: "request_reschedule_on c s = Some s1" "neutral s s1" "queues_sound s1" "events s1 = events s"
    "dispatching s1 = dispatching s" using request_reschedule_on_view [OF cpu] snd by blast
  have "current_cpu s1 = Some c" "sched s1 = sched s"
    using neutralD [OF s1(2)] cpu by simp_all
  then obtain s2 where s2: "ensure_quantum_event c s1 = Some s2" "time_only s1 s2" "queues_sound s2"
    "events s2 = (events s)(c := quantum_needed c (sched s) \<union> events s c)" "dispatching s2 = dispatching s"
    using ensure_quantum_view [OF s1(3), of c] room s1(4,5) by metis
  have "neutral s s2" using neutral_trans [OF s1(2) time_only_neutral [OF s2(2)]] .
  then show ?thesis using s1(1) s2 guard by (simp add: note_runnable_peer_available_def)
qed

end
