(* ===== verification/Sched_Steps.thy ===== *)
theory Sched_Steps
  imports Sched_Pure Sched_Machine
begin

text \<open>
  Each lifecycle transition keeps the invariant and reaches none of its panics. The lemmas come
  in pairs: the \<open>_inv\<close> lemma re-establishes the invariant for the explicit result state, and
  the \<open>_ok\<close> lemma evaluates the transition to that state.
\<close>

section \<open>Switching between ready threads\<close>

definition switched :: "cpu_id \<Rightarrow> thread_id \<Rightarrow> thread_id \<Rightarrow> scheduler \<Rightarrow> scheduler" where
  "switched c x y S = run_next c y (requeue c x (drop_front c S))"

text \<open>The threads a switch involves.\<close>

lemma switch_threads:
  assumes "cpu_inv S c" "current (cpus S c) = Some x" "ready_queue (cpus S c) = y # rest"
  obtains a b where "lookup S x = Some a" "home_cpu a = c" "tstate a = Running"
    "lookup S y = Some b" "home_cpu b = c" "tstate b = Ready" "x \<noteq> y"
proof -
  obtain a where a: "lookup S x = Some a" "home_cpu a = c" "tstate a = Running"
    using cpu_inv_current [OF assms(1,2)] .
  have "y \<in> set (ready_queue (cpus S c)) \<union> set (remote_ready S c)" using assms(3) by simp
  then obtain b where b: "lookup S y = Some b" "home_cpu b = c" "tstate b = Ready"
    using cpu_inv_queued [OF assms(1)] by blast
  then show thesis using that a by fastforce
qed

lemma switched_effect:
  assumes "lookup S x = Some a" "lookup S y = Some b" "x \<noteq> y" "ready_queue (cpus S c) = y # rest"
  shows "lookup (switched c x y S) = (lookup S)(x \<mapsto> a\<lparr>tstate := Ready\<rparr>, y \<mapsto> b\<lparr>tstate := Running\<rparr>)"
    "cpus (switched c x y S) = (cpus S)(c := (cpus S c)\<lparr>ready_queue :=
       (if idle (cpus S c) = Some x then rest else rest @ [x]), current := Some y\<rparr>)"
    "remote_ready (switched c x y S) = remote_ready S"
    "scheduler_ipi_pending (switched c x y S) = scheduler_ipi_pending S"
    "grows S (switched c x y S)" "joiner_token (switched c x y S) = joiner_token S"
    "table_ok R (switched c x y S) \<longleftrightarrow> table_ok R S" "retired_on (switched c x y S) = retired_on S"
proof -
  let ?S1 = "drop_front c S" and ?S2 = "requeue c x (drop_front c S)"
  have 1: "lookup ?S1 x = Some a" using assms by simp
  have 2: "lookup ?S2 y = Some b" using assms requeue_frame(5) [OF 1] by simp
  note r = requeue_frame [OF 1] run_next_frame [OF 2]
  show "grows S (switched c x y S)"
    unfolding switched_def by (rule grows_trans [OF drop_front_frame(1) grows_trans [OF r(1) r(9)]])
qed (use assms in \<open>simp_all add: switched_def\<close>)

lemma phase_ok_preempt:
  "phase_ok Running w \<Longrightarrow> \<not> wait_is_prepared w \<Longrightarrow> phase_ok Ready w"
  by (auto simp: phase_ok_def wait_is_prepared_def split: option.splits wait_phase.splits)

lemma phase_ok_run: "phase_ok Ready w \<Longrightarrow> phase_ok Running w"
  by (auto simp: phase_ok_def split: option.splits wait_phase.splits)

lemma switched_inv:
  assumes inv: "sched_inv_at P R S" and cur: "current (cpus S c) = Some x"
    and ready: "ready_queue (cpus S c) = y # rest"
    and np: "\<And>a. lookup S x = Some a \<Longrightarrow> \<not> wait_is_prepared (wait_md a)"
  shows "sched_inv_at P R (switched c x y S)"
proof -
  note i = sched_inv_atD [OF inv]
  obtain a b where a: "lookup S x = Some a" "home_cpu a = c" "tstate a = Running"
    and b: "lookup S y = Some b" "home_cpu b = c" "tstate b = Ready" and ne: "x \<noteq> y"
    by (rule switch_threads [OF i(2) cur ready])
  note e = switched_effect [OF a(1) b(1) ne ready]
  have place: "placed (switched c x y S) = (placed S)(x \<mapsto> (c, Ready), y \<mapsto> (c, Running))"
    using placed_upd2 [OF e(1)] a b by simp
  show ?thesis
  proof (rule inv_local [OF inv, where c = c])
    show "table_ok R (switched c x y S)" using e(7) i(1) by simp
    show "same_on c' (placed S) (placed (switched c x y S))" if "c' \<noteq> c" for c'
      unfolding place by (rule same_on_upd2 [OF a(1,2) b(1,2) that])
    show "cpu_inv (switched c x y S) c"
      using cpu_ok_switch [OF i(2) [of c, unfolded cpu_inv_def] cur ready] by (simp add: cpu_inv_def place e)
    show "lookup S z = Some th \<or> thread_ok z th" if "lookup (switched c x y S) z = Some th" for z th
    proof -
      have "thread_ok x (a\<lparr>tstate := Ready\<rparr>)"
        using i(3) [OF a(1)] np [OF a(1)] a(3) by (intro thread_ok_tstate) (auto simp: thread_ok_def phase_ok_preempt)
      moreover have "thread_ok y (b\<lparr>tstate := Running\<rparr>)"
        using i(3) [OF b(1)] b(3) by (intro thread_ok_tstate) (auto simp: thread_ok_def phase_ok_run)
      ultimately show ?thesis using that by (auto simp: e(1) split: if_splits)
    qed
    have "join_ok P ((lookup S)(x \<mapsto> a\<lparr>tstate := Ready\<rparr>, y \<mapsto> b\<lparr>tstate := Running\<rparr>)) (retired_on S)"
      using ne b(1) by (intro join_ok_tstate [OF join_ok_tstate [OF i(4) a(1)]]) auto
    then show "join_ok P (lookup (switched c x y S)) (retired_on (switched c x y S))" by (simp add: e)
    show "idle_ok (switched c x y S)" using i(5) a(1) b(1) by (auto simp: idle_ok_def e split: if_splits)
  qed (simp_all add: e)
qed

lemma transition_optional_switch_ok:
  assumes inv: "sched_inv_at P R (sched s)" and cur: "current (cpus (sched s) c) = Some x"
  shows "ready_queue (cpus (sched s) c) = [] \<Longrightarrow> transition_optional_switch c s = Some (ContinueCurrent, s)"
    "ready_queue (cpus (sched s) c) = y # rest \<Longrightarrow>
       transition_optional_switch c s = Some (Switch x y, s\<lparr>sched := switched c x y (sched s)\<rparr>)"
proof -
  let ?S = "sched s"
  note i = sched_inv_atD [OF inv]
  have ar: "assert_current_running x ?S = Some ()" by (rule assert_current_running_ok [OF i(2) cur])
  show "ready_queue (cpus ?S c) = [] \<Longrightarrow> transition_optional_switch c s = Some (ContinueCurrent, s)"
    by (simp add: transition_optional_switch_def cur ar ready_pop_front_def)
  assume ready: "ready_queue (cpus ?S c) = y # rest"
  obtain a b where a: "lookup ?S x = Some a" "home_cpu a = c" "tstate a = Running"
    and b: "lookup ?S y = Some b" "home_cpu b = c" "tstate b = Ready" and ne: "x \<noteq> y"
    by (rule switch_threads [OF i(2) cur ready])
  obtain w where w: "idle (cpus ?S c) = Some w" using cpu_inv_current [OF i(2) cur] by blast
  let ?S1 = "drop_front c ?S"
  have q: "queues_ok ?S1 c"
    using queues_okI [OF i(2) w] ready by (auto simp: queues_ok_def)
  have "x \<notin> set (ready_queue (cpus ?S c)) \<union> set (remote_ready ?S c)"
    using cpu_inv_not_queued [OF i(2) a(1), of c] a(3) by simp
  then have nq: "x \<notin> set (ready_queue (cpus ?S1 c)) \<union> set (remote_ready ?S1 c)" using ready by simp
  have mk: "make_ready_and_queue c x False (s\<lparr>sched := ?S1\<rparr>) = Some (s\<lparr>sched := requeue c x ?S1\<rparr>)"
    using make_ready_and_queue_ok [of "s\<lparr>sched := ?S1\<rparr>" c R x a False] q nq a i(1) by simp
  have "make_running c y (requeue c x ?S1) = Some (switched c x y ?S)"
    unfolding switched_def by (rule make_running_ok [where th = b]) (use a b ne in \<open>simp_all\<close>)
  then show "transition_optional_switch c s = Some (Switch x y, s\<lparr>sched := switched c x y ?S\<rparr>)"
    by (simp add: transition_optional_switch_def cur ar ready_pop_front_ok [OF i(2) ready] mk)
qed

section \<open>Leaving the CPU\<close>

text \<open>The thread that runs when the current one blocks or exits.\<close>

definition next_thread :: "cpu_id \<Rightarrow> scheduler \<Rightarrow> thread_id" where
  "next_thread c S = (case ready_queue (cpus S c) of [] \<Rightarrow> the (idle (cpus S c)) | y # _ \<Rightarrow> y)"

lemma drop_front_empty: "ready_queue (cpus S c) = [] \<Longrightarrow> drop_front c S = S"
proof -
  assume "ready_queue (cpus S c) = []"
  then have "(cpus S c)\<lparr>ready_queue := tl (ready_queue (cpus S c))\<rparr> = cpus S c" by simp
  then show ?thesis by (simp add: drop_front_def upd_cpu_def)
qed

lemma pop_front_or_idle_ok:
  assumes "cpu_inv S c" "idle (cpus S c) \<noteq> None"
  shows "pop_front_or_idle c S = Some (next_thread c S, drop_front c S)"
proof (cases "ready_queue (cpus S c)")
  case Nil
  then show ?thesis using assms(2) drop_front_empty [OF Nil]
    by (auto simp: pop_front_or_idle_def ready_pop_front_def next_thread_def idle_thread_def)
next
  case (Cons y rest)
  then show ?thesis using ready_pop_front_ok [OF assms(1) Cons]
    by (simp add: pop_front_or_idle_def next_thread_def)
qed

lemma next_thread_upd_thread: "next_thread c (upd_thread x f S) = next_thread c S"
  unfolding next_thread_def upd_thread_frame ..

lemma next_thread_ready:
  assumes "cpu_inv S c" "current (cpus S c) = Some x" "idle (cpus S c) \<noteq> Some x"
  obtains b where "lookup S (next_thread c S) = Some b" "home_cpu b = c" "tstate b = Ready" "next_thread c S \<noteq> x"
proof -
  obtain a w where a: "lookup S x = Some a" "tstate a = Running" and w: "idle (cpus S c) = Some w"
    using cpu_inv_current [OF assms(1,2)] by blast
  obtain wt where wt: "lookup S w = Some wt" "home_cpu wt = c" "tstate wt = Ready \<or> tstate wt = Running"
    using cpu_inv_idle [OF assms(1) w] .
  show thesis
  proof (cases "ready_queue (cpus S c)")
    case Nil
    have "tstate wt \<noteq> Running"
      using cpu_okD(3) [OF assms(1) [unfolded cpu_inv_def], of w] assms(2,3) wt w by (auto simp: placed_def)
    then show thesis using that wt w Nil assms(3) by (auto simp: next_thread_def)
  next
    case (Cons y rest)
    then have "y \<in> set (ready_queue (cpus S c)) \<union> set (remote_ready S c)" by simp
    then obtain b where "lookup S y = Some b" "home_cpu b = c" "tstate b = Ready"
      using cpu_inv_queued [OF assms(1)] by blast
    then show thesis using that a Cons by (fastforce simp: next_thread_def)
  qed
qed

text \<open>
  The current thread \<open>x\<close> becomes \<open>a'\<close>, blocked or exited, and the next thread runs; an exit
  also retires \<open>x\<close> and notifies the CPU.
\<close>

lemma leave_inv:
  assumes inv: "sched_inv_at P R S" and cur: "current (cpus S c) = Some x" and ni: "idle (cpus S c) \<noteq> Some x"
    and a: "lookup S x = Some a" and a': "home_cpu a' = c" "thread_ok x a'" "user_res a' = user_res a" "joinable a' = joinable a"
      "tstate a' = Blocked \<or> tstate a' = Exited"
    and b: "lookup S (next_thread c S) = Some b"
    and join: "join_ok P' ((lookup S)(x \<mapsto> a')) (retired_on S')"
    and eff: "table_ok R S'" "lookup S' = (lookup S)(x \<mapsto> a', next_thread c S \<mapsto> b\<lparr>tstate := Running\<rparr>)"
      "cpus S' = (cpus S)(c := (cpus S c)\<lparr>ready_queue := tl (ready_queue (cpus S c)),
          current := Some (next_thread c S), retired := rt\<rparr>)"
      "remote_ready S' = remote_ready S" "scheduler_ipi_pending S' = (scheduler_ipi_pending S)(c := pend)"
    and ret: "tstate a' = Blocked \<and> rt = retired (cpus S c) \<and> pend = scheduler_ipi_pending S c \<or>
      tstate a' = Exited \<and> rt = Some x \<and> pend"
  shows "sched_inv_at P' R S'"
proof -
  note i = sched_inv_atD [OF inv]
  let ?y = "next_thread c S" and ?k = "cpus S c"
  obtain b' where b': "lookup S ?y = Some b'" "home_cpu b' = c" "tstate b' = Ready" "?y \<noteq> x"
    by (rule next_thread_ready [OF i(2) cur ni])
  then have bb: "home_cpu b = c" "tstate b = Ready" using b by simp_all
  have ah: "home_cpu a = c" using cpu_inv_current [OF i(2) cur] a by auto
  let ?r = "(placed S)(x \<mapsto> (c, tstate a'), ?y \<mapsto> (c, Running))"
  have place: "placed S' = ?r" using placed_upd2 [OF eff(2)] a' bb by simp
  have idl: "idle ?k \<noteq> None" using cpu_inv_current [OF i(2) cur] by blast
  have base: "cpu_ok ?r c (?k\<lparr>ready_queue := tl (ready_queue ?k), current := Some ?y\<rparr>) (remote_ready S c) (scheduler_ipi_pending S c)"
    using idl by (intro cpu_ok_leave [OF i(2) [of c, unfolded cpu_inv_def] cur ni a'(5)])
      (auto simp: next_thread_def split: list.splits)
  have cpu: "cpu_ok ?r c (?k\<lparr>ready_queue := tl (ready_queue ?k), current := Some ?y, retired := rt\<rparr>) (remote_ready S c) pend"
    using ret
  proof
    assume "tstate a' = Blocked \<and> rt = retired ?k \<and> pend = scheduler_ipi_pending S c"
    then show ?thesis using base by simp
  next
    assume "tstate a' = Exited \<and> rt = Some x \<and> pend"
    then show ?thesis using cpu_ok_retire [OF base, of x] b'(4) by simp
  qed
  show ?thesis
  proof (rule inv_local [OF inv, where c = c])
    show "same_on c' (placed S) (placed S')" if "c' \<noteq> c" for c'
      unfolding place by (rule same_on_upd2 [OF a ah b bb(1) that])
    show "cpu_inv S' c" using cpu by (simp add: cpu_inv_def place eff)
    show "lookup S z = Some th \<or> thread_ok z th" if "lookup S' z = Some th" for z th
    proof -
      have "thread_ok ?y (b\<lparr>tstate := Running\<rparr>)"
        using i(3) [OF b] bb by (intro thread_ok_tstate) (auto simp: thread_ok_def phase_ok_run)
      then show ?thesis using that a'(2) by (auto simp: eff(2) split: if_splits)
    qed
    show "join_ok P' (lookup S') (retired_on S')"
      unfolding eff(2) using b b'(4) by (intro join_ok_tstate [OF join]) auto
    show "idle_ok S'" using i(5) a a'(3,4) b by (auto simp: idle_ok_def eff split: if_splits)
  qed (simp_all add: eff)
qed

section \<open>Committing a wait\<close>

lemma join_ok_weaken:
  assumes "join_ok P L ret"
    and "\<And>t th tok jt. L t = Some th \<Longrightarrow> joiner th = Some tok \<Longrightarrow> L (wt_thread tok) = Some jt \<Longrightarrow> waits_as P jt tok \<Longrightarrow> waits_as Q jt tok"
  shows "join_ok Q L ret"
proof (rule join_okI)
  fix t th tok assume t: "L t = Some th" "joiner th = Some tok"
  note d = join_okD [OF assms(1) t]
  then show "joinable th \<and> (tstate th = Exited \<longrightarrow> ret (home_cpu th) = Some t) \<and>
      (\<exists>jt. L (wt_thread tok) = Some jt \<and> waits_as Q jt tok)" using assms(2) [OF t] by blast
next
  fix t th t' th' tok
  assume "L t = Some th" "joiner th = Some tok" "L t' = Some th'" "joiner th' = Some tok"
  then show "t = t'" by (rule join_okD(4) [OF assms(1)])
qed

lemma waits_as_mono: "waits_as P jt tok \<Longrightarrow> P \<subseteq> Q \<Longrightarrow> waits_as Q jt tok"
  unfolding waits_as_def by blast

text \<open>Only the wait metadata of a thread changes.\<close>

abbreviation set_wait :: "thread_id \<Rightarrow> wait_metadata \<Rightarrow> scheduler \<Rightarrow> scheduler" where
  "set_wait x w \<equiv> upd_thread x (\<lambda>th. th\<lparr>wait_md := w\<rparr>)"

lemma set_wait_inv:
  assumes inv: "sched_inv_at P R S" and a: "lookup S x = Some a"
    and ok: "thread_ok x (a\<lparr>wait_md := w\<rparr>)"
    and join: "join_ok Q ((lookup S)(x \<mapsto> a\<lparr>wait_md := w\<rparr>)) (retired_on S)"
  shows "sched_inv_at Q R (set_wait x w S)"
proof -
  note i = sched_inv_atD [OF inv]
  have place: "placed (set_wait x w S) = placed S" using a by simp
  show ?thesis
  proof (rule sched_inv_atI)
    show "table_ok R (set_wait x w S)" using i(1) a by simp
    show "cpu_inv (set_wait x w S) c" for c using i(2) [of c] by (simp only: cpu_inv_def place upd_thread_frame)
    show "thread_ok z th" if "lookup (set_wait x w S) z = Some th" for z th
      using that i(3) ok a by (auto simp: lookup_upd_thread split: if_splits)
    show "join_ok Q (lookup (set_wait x w S)) (retired_on (set_wait x w S))"
      using join by (simp add: lookup_upd_thread_fun [OF a])
    show "idle_ok (set_wait x w S)" by (rule idle_ok_upd_thread [OF i(5) a]) simp_all
  qed
qed

text \<open>The wait is dropped, after an early completion or a cancellation.\<close>

lemma drop_wait_inv:
  assumes inv: "sched_inv_at P R S" and a: "lookup S x = Some a" "tstate a \<noteq> Blocked"
    and nojoin: "\<And>tok. waits_as P a tok \<Longrightarrow> \<not> joiner_token S tok" and P: "P \<subseteq> {x}"
  shows "sched_inv_at {} R (set_wait x ((wait_md a)\<lparr>active := None\<rparr>) S)"
proof (rule set_wait_inv [OF inv a(1)])
  note i = sched_inv_atD [OF inv]
  let ?a = "a\<lparr>wait_md := (wait_md a)\<lparr>active := None\<rparr>\<rparr>"
  show "thread_ok x ?a" using i(3) [OF a(1)] a(2) by (auto simp: thread_ok_def phase_ok_def wait_wf_def)
  have "join_ok P ((lookup S)(x \<mapsto> ?a)) (retired_on S)"
    using nojoin by (intro join_ok_upd [OF i(4) a(1)]) (auto simp: joiner_token_def)
  then show "join_ok {} ((lookup S)(x \<mapsto> ?a)) (retired_on S)"
    by (rule join_ok_weaken) (use P in \<open>auto simp: waits_as_def split: if_splits\<close>)
qed

definition committed :: "cpu_id \<Rightarrow> thread_id \<Rightarrow> wait_metadata \<Rightarrow> scheduler \<Rightarrow> scheduler" where
  "committed c x w S =
     run_next c (next_thread c S) (upd_thread x (\<lambda>th. th\<lparr>tstate := Blocked\<rparr>) (drop_front c (set_wait x w S)))"

lemma committed_effect:
  assumes a: "lookup S x = Some a" and b: "lookup S (next_thread c S) = Some b" and ne: "next_thread c S \<noteq> x"
    and seq: "next_sequence (wait_md a) \<le> next_sequence w"
  shows "lookup (committed c x w S) =
      (lookup S)(x \<mapsto> a\<lparr>wait_md := w, tstate := Blocked\<rparr>, next_thread c S \<mapsto> b\<lparr>tstate := Running\<rparr>)"
    "cpus (committed c x w S) = (cpus S)(c := (cpus S c)\<lparr>ready_queue := tl (ready_queue (cpus S c)),
       current := Some (next_thread c S)\<rparr>)"
    "remote_ready (committed c x w S) = remote_ready S"
    "scheduler_ipi_pending (committed c x w S) = scheduler_ipi_pending S"
    "grows S (committed c x w S)" "joiner_token (committed c x w S) = joiner_token S"
    "table_ok R (committed c x w S) \<longleftrightarrow> table_ok R S" "retired_on (committed c x w S) = retired_on S"
proof -
  let ?S1 = "set_wait x w S" let ?S2 = "drop_front c ?S1"
  let ?S3 = "upd_thread x (\<lambda>th. th\<lparr>tstate := Blocked\<rparr>) ?S2"
  have 1: "lookup ?S2 x = Some (a\<lparr>wait_md := w\<rparr>)" using a by (simp add: lookup_upd_thread)
  have 2: "lookup ?S3 (next_thread c S) = Some b" using b ne 1 a by (simp add: lookup_upd_thread)
  have 3: "lookup ?S3 = (lookup S)(x \<mapsto> a\<lparr>wait_md := w, tstate := Blocked\<rparr>)"
    using 1 a by (simp add: lookup_upd_thread_fun)
  note r = run_next_frame [OF 2]
  have "grows S ?S1" using grows_upd_thread [OF a, of "\<lambda>th. th\<lparr>wait_md := w\<rparr>"] seq by simp
  also have "grows ?S1 ?S2" by simp
  also have "grows ?S2 ?S3" using 1 by (simp add: grows_upd_thread)
  also have "grows ?S3 (committed c x w S)" unfolding committed_def by (rule r(1))
  finally show "grows S (committed c x w S)" .
  have "joiner_token ?S3 = joiner_token ?S2" by (rule joiner_token_upd_thread [OF 1]) simp
  then show "joiner_token (committed c x w S) = joiner_token S"
    unfolding committed_def using r(2) a by (simp add: joiner_token_upd_thread)
  show "lookup (committed c x w S) =
      (lookup S)(x \<mapsto> a\<lparr>wait_md := w, tstate := Blocked\<rparr>, next_thread c S \<mapsto> b\<lparr>tstate := Running\<rparr>)"
    unfolding committed_def r(5) 3 ..
  show "table_ok R (committed c x w S) \<longleftrightarrow> table_ok R S" unfolding committed_def r(6) using 1 a by simp
qed (use assms in \<open>simp_all add: committed_def run_next_def retired_on_upd_cpu\<close>)

text \<open>A prepared wait of the current thread blocks it.\<close>

definition blocked_wait :: "wait_metadata \<Rightarrow> wait_metadata" where
  "blocked_wait w = w\<lparr>active := map_option (\<lambda>a. a\<lparr>aw_phase := PhaseBlocked\<rparr>) (active w)\<rparr>"

lemma committed_inv:
  assumes inv: "sched_inv_at P R S" and P: "P \<subseteq> {x}" and cur: "current (cpus S c) = Some x"
    and ni: "idle (cpus S c) \<noteq> Some x" and a: "lookup S x = Some a"
    and act: "active (wait_md a) = Some a0" "aw_phase a0 = Prepared"
  shows "sched_inv_at {} R (committed c x (blocked_wait (wait_md a)) S)"
proof -
  note i = sched_inv_atD [OF inv]
  let ?w = "blocked_wait (wait_md a)" and ?y = "next_thread c S"
  let ?a = "a\<lparr>wait_md := ?w, tstate := Blocked\<rparr>"
  obtain b where b: "lookup S ?y = Some b" "home_cpu b = c" "tstate b = Ready" "?y \<noteq> x"
    by (rule next_thread_ready [OF i(2) cur ni])
  have ah: "home_cpu a = c" using cpu_inv_current [OF i(2) cur] a by auto
  note e = committed_effect [OF a b(1,4), of ?w]
  have "join_ok P ((lookup S)(x \<mapsto> ?a)) (retired_on S)"
    using act by (intro join_ok_upd [OF i(4) a]) (auto simp: waits_as_def blocked_wait_def)
  then have join: "join_ok {} ((lookup S)(x \<mapsto> ?a)) (retired_on S)"
    by (rule join_ok_weaken) (use P act in \<open>auto simp: waits_as_def blocked_wait_def split: if_splits\<close>)
  have ok: "thread_ok x ?a"
    using i(3) [OF a] act by (auto simp: thread_ok_def phase_ok_def wait_wf_def blocked_wait_def)
  show ?thesis
    by (rule leave_inv [OF inv cur ni a _ ok _ _ _ b(1), where rt = "retired (cpus S c)" and pend = "scheduler_ipi_pending S c"])
      (use join ah e i(1) in \<open>simp_all add: blocked_wait_def\<close>)
qed

lemma transition_commit_wait_ok:
  assumes inv: "sched_inv_at P R (sched s)" and pre: "assert_preemption_enabled_on c s = Some ()"
    and cur: "current (cpus (sched s) c) = Some x" and ni: "idle (cpus (sched s) c) \<noteq> Some x"
    and a: "lookup (sched s) x = Some a"
    and act: "active (wait_md a) = Some a0" "aw_token a0 = pw_token p" "aw_consumption a0 = pw_consumption p"
  shows "aw_phase a0 = Prepared \<Longrightarrow> transition_commit_wait c p s =
      Some ((CommitBlock (pw_token p), Some (Switch x (next_thread c (sched s)))),
            s\<lparr>sched := committed c x (blocked_wait (wait_md a)) (sched s)\<rparr>)"
    "aw_phase a0 = Completed cause \<Longrightarrow> transition_commit_wait c p s =
      Some ((CommitEarly cause, None), s\<lparr>sched := set_wait x ((wait_md a)\<lparr>active := None\<rparr>) (sched s)\<rparr>)"
proof -
  let ?S = "sched s"
  note i = sched_inv_atD [OF inv]
  obtain w where w: "idle (cpus ?S c) = Some w" using cpu_inv_current [OF i(2) cur] by blast
  have start: "transition_commit_wait c p s = (let (commit, w) = wait_commit p (wait_md a) in
      case commit of
         CommitBlock t \<Rightarrow> do {
           (to, S) \<leftarrow> pop_front_or_idle c (set_wait x w ?S);
           S \<leftarrow> update_thread (tid_index x) (\<lambda>th. th\<lparr>tstate := Blocked\<rparr>) S;
           S \<leftarrow> make_running c to S;
           Some ((commit, Some (Switch x to)), s\<lparr>sched := S\<rparr>)
         }
       | _ \<Rightarrow> Some ((commit, None), s\<lparr>sched := set_wait x w ?S\<rparr>))"
    using pre cur w ni assert_current_running_ok [OF i(2) cur]
    by (simp add: transition_commit_wait_def idle_thread_def lookup_thread_at [OF a] update_thread_lookup [OF a] split: prod.splits)
  {
    assume ph: "aw_phase a0 = Completed cause"
    then have "wait_commit p (wait_md a) = (CommitEarly cause, (wait_md a)\<lparr>active := None\<rparr>)"
      using act by (simp add: wait_commit_def)
    then show "transition_commit_wait c p s =
      Some ((CommitEarly cause, None), s\<lparr>sched := set_wait x ((wait_md a)\<lparr>active := None\<rparr>) ?S\<rparr>)"
      unfolding start by simp
  }
  assume ph: "aw_phase a0 = Prepared"
  let ?w = "blocked_wait (wait_md a)" and ?y = "next_thread c ?S"
  let ?S1 = "set_wait x ?w ?S"
  have wc: "wait_commit p (wait_md a) = (CommitBlock (pw_token p), ?w)"
    using act ph by (simp add: wait_commit_def blocked_wait_def)
  have "placed ?S1 = placed ?S" using a by simp
  then have "cpu_inv ?S1 c" using i(2) [of c] by (simp only: cpu_inv_def upd_thread_frame)
  then have pop: "pop_front_or_idle c ?S1 = Some (?y, drop_front c ?S1)"
    using pop_front_or_idle_ok [of ?S1 c] w by (simp add: next_thread_upd_thread)
  have x1: "lookup (drop_front c ?S1) x = Some (a\<lparr>wait_md := ?w\<rparr>)" using a by (simp add: lookup_upd_thread)
  obtain b where b: "lookup ?S ?y = Some b" "home_cpu b = c" "tstate b = Ready" "?y \<noteq> x"
    by (rule next_thread_ready [OF i(2) cur ni])
  have run: "make_running c ?y (upd_thread x (\<lambda>th. th\<lparr>tstate := Blocked\<rparr>) (drop_front c ?S1)) = Some (committed c x ?w ?S)"
    unfolding committed_def
    by (rule make_running_ok [where th = b]) (use b x1 a in \<open>simp_all add: lookup_upd_thread\<close>)
  show "transition_commit_wait c p s =
      Some ((CommitBlock (pw_token p), Some (Switch x ?y)), s\<lparr>sched := committed c x ?w ?S\<rparr>)"
    unfolding start wc by (simp add: pop update_thread_lookup [OF x1] run)
qed

section \<open>Preparing, finishing and cancelling a wait\<close>

lemma set_wait_frame:
  assumes "lookup S x = Some a" "next_sequence (wait_md a) \<le> next_sequence w"
  shows "grows S (set_wait x w S)" "joiner_token (set_wait x w S) = joiner_token S"
    "lookup (set_wait x w S) = (lookup S)(x \<mapsto> a\<lparr>wait_md := w\<rparr>)" "placed (set_wait x w S) = placed S"
  using assms by (simp_all add: grows_upd_thread joiner_token_upd_thread lookup_upd_thread_fun)

text \<open>A preparation succeeds when no wait is active and the sequence is not exhausted.\<close>

definition sequence_left :: "wait_metadata \<Rightarrow> bool" where
  "sequence_left w \<longleftrightarrow> unat (next_sequence w) + 1 < 2 ^ 64"

definition prepared_md :: "thread_id \<Rightarrow> cpu_id \<Rightarrow> wait_consumption \<Rightarrow> wait_metadata \<Rightarrow> wait_metadata" where
  "prepared_md x c k w =
     \<lparr>next_sequence = next_sequence w + 1,
      active = Some \<lparr>aw_token = WaitToken x c (next_sequence w + 1), aw_phase = Prepared, aw_consumption = k\<rparr>\<rparr>"

lemma prepare_with_consumption_ok:
  assumes "active w = None" "sequence_left w"
  shows "prepare_with_consumption x c k w =
    Some (PreparedWait (WaitToken x c (next_sequence w + 1)) k, prepared_md x c k w)"
  using assms by (cases w) (simp add: prepare_with_consumption_def checked_add_u64_def sequence_left_def prepared_md_def Let_def)

lemma sequence_left_less: "sequence_left w \<Longrightarrow> next_sequence w < next_sequence w + 1"
  using checked_add_u64_one_less [of "next_sequence w"]
  by (simp add: sequence_left_def checked_add_u64_def)

lemma prepared_inv:
  assumes inv: "sched_inv_at P R S" and a: "lookup S x = Some a" "home_cpu a = c" "tstate a = Running"
    and w: "active (wait_md a) = None"
  shows "sched_inv_at P R (set_wait x (prepared_md x c k (wait_md a)) S)"
proof (rule set_wait_inv [OF inv a(1)])
  note i = sched_inv_atD [OF inv]
  let ?a = "a\<lparr>wait_md := prepared_md x c k (wait_md a)\<rparr>"
  show "thread_ok x ?a"
    using i(3) [OF a(1)] a(2,3) by (auto simp: thread_ok_def phase_ok_def wait_wf_def prepared_md_def)
  show "join_ok P ((lookup S)(x \<mapsto> ?a)) (retired_on S)"
    using w by (intro join_ok_upd [OF i(4) a(1)]) (auto simp: waits_as_def)
qed

text \<open>The two preparations of the current thread.\<close>

lemma transition_prepare_ok:
  assumes inv: "sched_inv_at P R (sched s)" and pre: "assert_preemption_enabled_on c s = Some ()"
    and cur: "current (cpus (sched s) c) = Some x" and a: "lookup (sched s) x = Some a"
    and w: "active (wait_md a) = None" "sequence_left (wait_md a)"
  defines "tok \<equiv> WaitToken x c (next_sequence (wait_md a) + 1)"
  shows "transition_prepare_wait c s =
      Some (PreparedWait tok Explicit, s\<lparr>sched := set_wait x (prepared_md x c Explicit (wait_md a)) (sched s)\<rparr>)"
    "transition_prepare_automatic_wait c s =
      Some (PreparedWait tok Automatic, s\<lparr>sched := set_wait x (prepared_md x c Automatic (wait_md a)) (sched s)\<rparr>)"
  using pre cur assert_current_running_ok [OF sched_inv_atD(2) [OF inv] cur] prepare_with_consumption_ok [OF w]
  by (simp_all add: transition_prepare_wait_def transition_prepare_automatic_wait_def wait_prepare_def
      wait_prepare_automatic_def lookup_thread_at [OF a] update_thread_lookup [OF a] tok_def)

text \<open>Writing back the same metadata changes nothing.\<close>

lemma set_wait_same: "lookup S x = Some a \<Longrightarrow> set_wait x (wait_md a) S = S"
  by (cases S; cases "lifecycle S")
     (auto simp: lookup_Some upd_thread_def Let_def intro!: thread_table.equality list_update_same_conv [THEN iffD2])

end
