(* ===== verification/Sched_Wake.thy ===== *)
theory Sched_Wake
  imports Sched_Steps "HOL-Library.Sublist"
begin

text \<open>
  Wakeups: the completion of a wait makes its thread ready on its home CPU, in the local queue
  when that CPU executes the completion and in the ingress otherwise, and a thread leaving a CPU
  for good is finalized by the next scheduler entry on that CPU.
\<close>

section \<open>Completing a wait\<close>

definition ingress :: "cpu_id \<Rightarrow> thread_id \<Rightarrow> scheduler \<Rightarrow> scheduler" where
  "ingress c x S = S\<lparr>remote_ready := (remote_ready S)(c := remote_ready S c @ [x]),
     scheduler_ipi_pending := (scheduler_ipi_pending S)(c := True)\<rparr>"

definition wake_at :: "cpu_id \<Rightarrow> thread_id \<Rightarrow> cpu_id \<Rightarrow> scheduler \<Rightarrow> scheduler" where
  "wake_at c0 x c S =
     (if c = c0 then requeue c x S else ingress c x (upd_thread x (\<lambda>th. th\<lparr>tstate := Ready\<rparr>) S))"

definition completed_wait :: "wait_cause \<Rightarrow> wait_metadata \<Rightarrow> wait_metadata" where
  "completed_wait cause w =
     (case active w of
        Some a \<Rightarrow> (case aw_consumption a of
            Explicit \<Rightarrow> w\<lparr>active := Some (a\<lparr>aw_phase := Completed cause\<rparr>)\<rparr>
          | Automatic \<Rightarrow> w\<lparr>active := None\<rparr>)
      | None \<Rightarrow> w)"

lemma ingress_frame [simp]:
  "lookup (ingress c x S) = lookup S" "cpus (ingress c x S) = cpus S" "grows S (ingress c x S)"
  "joiner_token (ingress c x S) = joiner_token S" "table_ok R (ingress c x S) = table_ok R S"
  "retired_on (ingress c x S) = retired_on S" "placed (ingress c x S) = placed S"
  "remote_ready (ingress c x S) = (remote_ready S)(c := remote_ready S c @ [x])"
  "scheduler_ipi_pending (ingress c x S) = (scheduler_ipi_pending S)(c := True)"
  "queue_room (ingress c x S) = queue_room S" "idle_ok (ingress c x S) = idle_ok S"
proof -
  have "grows S (S\<lparr>remote_ready := (remote_ready S)(c := remote_ready S c @ [x])\<rparr>)" by simp
  then show "grows S (ingress c x S)" unfolding ingress_def by (rule grows_trans) simp
qed (simp_all add: ingress_def)

text \<open>The state after a wakeup of \<open>x\<close>, whose home is \<open>c\<close>, executed on CPU \<open>c0\<close>.\<close>

lemma wake_at_effect:
  assumes "lookup S x = Some a"
  shows "lookup (wake_at c0 x c S) = (lookup S)(x \<mapsto> a\<lparr>tstate := Ready\<rparr>)" "grows S (wake_at c0 x c S)"
    "joiner_token (wake_at c0 x c S) = joiner_token S" "table_ok R (wake_at c0 x c S) = table_ok R S"
    "retired_on (wake_at c0 x c S) = retired_on S"
    "cpus (wake_at c0 x c S) = (if c = c0 then (cpus S)(c := (cpus S c)\<lparr>ready_queue :=
       ready_queue (cpus S c) @ (if idle (cpus S c) = Some x then [] else [x])\<rparr>) else cpus S)"
    "remote_ready (wake_at c0 x c S) = (if c = c0 then remote_ready S else (remote_ready S)(c := remote_ready S c @ [x]))"
    "scheduler_ipi_pending (wake_at c0 x c S) =
       (if c = c0 then scheduler_ipi_pending S else (scheduler_ipi_pending S)(c := True))"
proof -
  let ?S = "upd_thread x (\<lambda>th. th\<lparr>tstate := Ready\<rparr>) S"
  have "grows S ?S" using assms by (simp add: grows_upd_thread)
  then have "grows S (ingress c x ?S)" by (rule grows_trans) simp
  then show "grows S (wake_at c0 x c S)" using assms by (simp add: wake_at_def)
qed (use assms in \<open>simp_all add: wake_at_def lookup_upd_thread_fun joiner_token_upd_thread\<close>)

text \<open>
  A wakeup keeps the invariant; \<open>a\<close> is the thread as it was before, blocked (or not in the table
  yet, for a publication), and \<open>a'\<close> as it is now.
\<close>

lemma wake_inv:
  assumes inv: "sched_inv_at P R S" and idl: "idle (cpus S c) \<noteq> None"
    and before: "lookup S x = None \<or> (\<exists>a. lookup S x = Some a \<and> home_cpu a = c \<and> tstate a = Blocked)"
    and a': "home_cpu a' = c" "tstate a' = Ready" "thread_ok x a'"
    and join: "join_ok P' ((lookup S)(x \<mapsto> a')) (retired_on S)"
    and eff: "table_ok R' S'" "lookup S' = (lookup S)(x \<mapsto> a')"
      "cpus S' = (if c = c0 then (cpus S)(c := (cpus S c)\<lparr>ready_queue := ready_queue (cpus S c) @ [x]\<rparr>) else cpus S)"
      "remote_ready S' = (if c = c0 then remote_ready S else (remote_ready S)(c := remote_ready S c @ [x]))"
      "scheduler_ipi_pending S' = (if c = c0 then scheduler_ipi_pending S else (scheduler_ipi_pending S)(c := True))"
  shows "sched_inv_at P' R' S'"
proof -
  note i = sched_inv_atD [OF inv]
  have place: "placed S' = (placed S)(x \<mapsto> (c, Ready))" using placed_upd1 [OF eff(2)] a' by simp
  have was: "placed S x = None \<or> placed S x = Some (c, Blocked)" using before by (auto simp: placed_def)
  have nidle: "idle (cpus S c') \<noteq> Some x" for c'
  proof
    assume "idle (cpus S c') = Some x"
    then obtain th where "lookup S x = Some th" "tstate th = Ready \<or> tstate th = Running"
      using cpu_inv_idle [OF i(2)] by blast
    then show False using before by auto
  qed
  have ret: "retired_on S' = retired_on S" by (simp add: retired_on_def eff fun_eq_iff)
  show ?thesis
  proof (rule inv_local [OF inv eff(1), where c = c])
    show "same_on c' (placed S) (placed S')" if "c' \<noteq> c" for c'
      unfolding place using was that by (auto simp: same_on_def)
    show "cpu_inv S' c"
      using cpu_ok_enqueue [OF i(2) [of c, unfolded cpu_inv_def] was idl]
        cpu_ok_ingress [OF i(2) [of c, unfolded cpu_inv_def] was idl]
      by (cases "c = c0") (simp_all add: cpu_inv_def place eff)
    show "lookup S z = Some th \<or> thread_ok z th" if "lookup S' z = Some th" for z th
      using that a'(3) by (auto simp: eff(2) split: if_splits)
    show "join_ok P' (lookup S') (retired_on S')" using join by (simp add: eff(2) ret)
    show "idle_ok S'" using i(5) nidle by (auto simp: idle_ok_def eff split: if_splits)
  qed (simp_all add: eff)
qed

section \<open>Completion on a system\<close>

text \<open>
  The executing CPU \<open>c0\<close> can run scheduler code: the deadline queues are sound, every registered
  CPU can be notified, and threads live on registered CPUs.
\<close>

definition homes_ok :: "'a system_scheme \<Rightarrow> bool" where
  "homes_ok s \<longleftrightarrow> (\<forall>x a. lookup (sched s) x = Some a \<longrightarrow> home_cpu a < cpus_registered s)"

definition sys_ready :: "cpu_id \<Rightarrow> 'a system_scheme \<Rightarrow> bool" where
  "sys_ready c0 s \<longleftrightarrow> queues_sound s \<and> current_cpu s = Some c0 \<and> cpus_registered s \<le> KERNEL_CPU_CAPACITY \<and>
     (\<forall>c<cpus_registered s. ipi_ok s c) \<and> homes_ok s"

lemma sys_readyD:
  assumes "sys_ready c0 s"
  shows "queues_sound s" "current_cpu s = Some c0" "c < cpus_registered s \<Longrightarrow> ipi_ok s c"
    "lookup (sched s) x = Some a \<Longrightarrow> home_cpu a < cpus_registered s" "c0 < cpus_registered s"
    "cpus_registered s \<le> KERNEL_CPU_CAPACITY"
  using assms by (auto simp: sys_ready_def homes_ok_def current_cpu_def split: if_splits)

text \<open>A transition adds at most the quantum event that its result needs.\<close>

definition adds_quantum :: "cpu_id \<Rightarrow> 'a system_scheme \<Rightarrow> 'a system_scheme \<Rightarrow> bool" where
  "adds_quantum c s s' \<longleftrightarrow>
     (\<exists>Q. Q \<subseteq> quantum_needed c (sched s') \<and> events s' = (events s)(c := Q \<union> events s c)) \<and>
     dispatching s' = dispatching s \<and> queues_sound s'"

text \<open>If the queue had the quantum event it needed before, it has it afterwards.\<close>

definition keeps_quantum :: "cpu_id \<Rightarrow> 'a system_scheme \<Rightarrow> 'a system_scheme \<Rightarrow> bool" where
  "keeps_quantum c s s' \<longleftrightarrow>
     (quantum_needed c (sched s) \<subseteq> events s c \<longrightarrow> quantum_needed c (sched s') \<subseteq> events s' c)"

lemma request_scheduler_ipi_ok:
  assumes "ipi_ok s c"
  shows "\<exists>l. request_scheduler_ipi c s = Some (s\<lparr>ipi_sent := l,
    sched := (sched s)\<lparr>scheduler_ipi_pending := (scheduler_ipi_pending (sched s))(c := True)\<rparr>\<rparr>)"
proof (cases "scheduler_ipi_pending (sched s) c")
  case True
  then have "(sched s)\<lparr>scheduler_ipi_pending := (scheduler_ipi_pending (sched s))(c := True)\<rparr> = sched s"
    by (simp add: fun_upd_idem)
  then have "request_scheduler_ipi c s = Some (s\<lparr>ipi_sent := ipi_sent s,
    sched := (sched s)\<lparr>scheduler_ipi_pending := (scheduler_ipi_pending (sched s))(c := True)\<rparr>\<rparr>)"
    using True by (simp add: request_scheduler_ipi_def)
  then show ?thesis by blast
next
  case False
  then show ?thesis using assms
    by (intro exI [of _ "ipi_sent s @ [c]"]) (simp add: request_scheduler_ipi_def notify_scheduler_def)
qed

lemma publish_remote_ready_ok:
  assumes q: "queues_ok (sched s) c" "table_ok R (sched s)" and ipi: "ipi_ok s c"
    and x: "lookup (sched s) x \<noteq> None" "x \<notin> set (ready_queue (cpus (sched s) c)) \<union> set (remote_ready (sched s) c)"
      "idle (cpus (sched s) c) \<noteq> Some x"
  shows "\<exists>l. publish_remote_ready x c s = Some (s\<lparr>ipi_sent := l, sched := ingress c x (sched s)\<rparr>)"
proof -
  let ?s = "s\<lparr>sched := (sched s)\<lparr>remote_ready := (remote_ready (sched s))(c := remote_ready (sched s) c @ [x])\<rparr>\<rparr>"
  have "length (remote_ready (sched s) c) \<noteq> queue_room (sched s)" using queues_ok_room [OF q x] by simp
  moreover have "ipi_ok ?s c" using ipi by simp
  ultimately show ?thesis using request_scheduler_ipi_ok [of ?s c] x(2)
    by (simp add: publish_remote_ready_def ingress_def)
qed

lemma quantum_needed_cong:
  "cpus S' c = cpus S c \<Longrightarrow> quantum_needed c S' = quantum_needed c S"
  by (simp add: quantum_needed_def split: option.split)

lemma not_idle:
  assumes "cpu_inv S c" "lookup S x = Some a" "tstate a = Blocked \<or> tstate a = Exited"
  shows "idle (cpus S c) \<noteq> Some x"
proof
  assume "idle (cpus S c) = Some x"
  then obtain th where "lookup S x = Some th" "tstate th = Ready \<or> tstate th = Running"
    using cpu_inv_idle [OF assms(1)] by blast
  then show False using assms(2,3) by auto
qed

text \<open>A blocked wait: the thread becomes ready on its home CPU.\<close>

lemma complete_blocked:
  fixes cause :: wait_cause
  assumes inv: "sched_inv_at P R (sched s)" and rdy: "sys_ready c0 s" and room: "card (events s c0) < queue_size"
    and a: "lookup (sched s) x = Some a" and act: "active (wait_md a) = Some a0" "aw_token a0 = tok" "aw_phase a0 = PhaseBlocked"
  defines "w \<equiv> completed_wait cause (wait_md a)"
  shows "\<exists>s'. complete_wait_transition tok cause notify s = Some (WokeBlocked, s') \<and>
    sched s' = wake_at c0 x (home_cpu a) (set_wait x w (sched s)) \<and> same_machine s s' \<and>
    user_spaces s' = user_spaces s \<and> adds_quantum c0 s s' \<and> (notify \<longrightarrow> keeps_quantum c0 s s') \<and>
    (\<not> notify \<longrightarrow> events s' = events s \<and> (home_cpu a = c0 \<longrightarrow> reschedule_pending (cpu_preemption s' c0)))"
proof -
  let ?S = "sched s" and ?c = "home_cpu a"
  note i = sched_inv_atD [OF inv] and r = sys_readyD [OF rdy]
  have tok: "wt_thread tok = x" and st: "tstate a = Blocked"
    using i(3) [OF a] act by (auto simp: thread_ok_def phase_ok_def)
  have wc: "wait_complete tok cause (wait_md a) = (WokeBlocked, w)"
    using act by (simp add: wait_complete_def w_def completed_wait_def split: wait_consumption.splits)
  let ?S1 = "set_wait x w ?S"
  have x1: "lookup ?S1 x = Some (a\<lparr>wait_md := w\<rparr>)" using a by (simp add: lookup_upd_thread)
  obtain v where v: "idle (cpus ?S ?c) = Some v"
    using cpu_okD(11) [OF i(2) [of ?c, unfolded cpu_inv_def], of x Blocked] a st by (auto simp: placed_def)
  have q1: "queues_ok ?S1 ?c" using queues_okI [OF i(2) v] a by simp
  have t1: "table_ok R ?S1" using i(1) a by simp
  have nq: "x \<notin> set (ready_queue (cpus ?S1 ?c)) \<union> set (remote_ready ?S1 ?c)"
    using cpu_inv_not_queued [OF i(2) a, of ?c] st by simp
  have nidle: "idle (cpus ?S1 ?c) \<noteq> Some x"
    using not_idle [OF i(2) a] st by simp
  have start: "complete_wait_transition tok cause notify s = (
      if ?c = c0 then do {
        s \<leftarrow> make_ready_and_queue c0 x notify (s\<lparr>sched := ?S1\<rparr>);
        if \<not> notify then do { s \<leftarrow> request_reschedule_on c0 s; Some (WokeBlocked, s) } else Some (WokeBlocked, s)
      } else do {
        s' \<leftarrow> publish_remote_ready x ?c (s\<lparr>sched := upd_thread x (\<lambda>th. th\<lparr>tstate := Ready\<rparr>) ?S1\<rparr>);
        Some (WokeBlocked, s')
      })"
    using wc st a tok r(2) by (cases "?c = c0") (simp_all add: complete_wait_transition_def thread_matches_lookup
        lookup_thread_at update_thread_lookup [OF a] update_thread_lookup [OF x1])
  show ?thesis
  proof (cases "?c = c0")
    case False
    let ?S2 = "upd_thread x (\<lambda>th. th\<lparr>tstate := Ready\<rparr>) ?S1"
    have "queues_ok (sched (s\<lparr>sched := ?S2\<rparr>)) ?c" "table_ok R (sched (s\<lparr>sched := ?S2\<rparr>))"
      "ipi_ok (s\<lparr>sched := ?S2\<rparr>) ?c" "lookup (sched (s\<lparr>sched := ?S2\<rparr>)) x \<noteq> None"
      using q1 t1 x1 r(3) r(4) [OF a] by (simp_all add: lookup_upd_thread)
    then obtain l where l: "publish_remote_ready x ?c (s\<lparr>sched := ?S2\<rparr>) = Some (s\<lparr>ipi_sent := l, sched := ingress ?c x ?S2\<rparr>)"
      using publish_remote_ready_ok [of "s\<lparr>sched := ?S2\<rparr>" ?c R x] nq nidle by auto
    have "quantum_needed c0 (ingress ?c x ?S2) = quantum_needed c0 ?S" by (rule quantum_needed_cong) simp
    then show ?thesis unfolding start using False l r(1)
      by (simp add: wake_at_def adds_quantum_def keeps_quantum_def same_machine_def)
         (auto intro!: exI [of _ "{}"] simp: fun_upd_idem)
  next
    case True
    let ?s1 = "s\<lparr>sched := requeue c0 x ?S1\<rparr>"
    have wake: "requeue c0 x ?S1 = wake_at c0 x ?c ?S1" using True by (simp add: wake_at_def)
    have mk: "make_ready_and_queue c0 x notify (s\<lparr>sched := ?S1\<rparr>) =
        (if notify \<and> ready_queue (cpus ?S c0) = [] then note_runnable_peer_available c0 ?s1 else Some ?s1)"
      using make_ready_and_queue_ok [of "s\<lparr>sched := ?S1\<rparr>" c0 R x "a\<lparr>wait_md := w\<rparr>" notify] q1 t1 x1 nq nidle True by simp
    have qn: "quantum_needed c0 (sched ?s1) = quantum_needed c0 ?S" if "ready_queue (cpus ?S c0) \<noteq> []"
      using that x1 nidle True by (simp add: quantum_needed_def split: option.splits)
    show ?thesis
    proof (cases "notify \<and> ready_queue (cpus ?S c0) = []")
      case True
      have "queues_sound ?s1" "current_cpu ?s1 = Some c0" "card (events ?s1 c0) < queue_size" using r(1,2) room by simp_all
      then obtain s2 where s2: "note_runnable_peer_available c0 ?s1 = Some s2" "neutral ?s1 s2" "queues_sound s2"
        "events s2 = (events ?s1)(c0 := quantum_needed c0 (sched ?s1) \<union> events ?s1 c0)" "dispatching s2 = dispatching ?s1"
        using note_peer_view by blast
      note n = neutralD [OF s2(2)]
      have "same_machine s s2" using same_machine_trans [OF _ n(1), of s] by simp
      then show ?thesis unfolding start using \<open>?c = c0\<close> mk True s2 n wake
        by (auto simp: adds_quantum_def keeps_quantum_def)
    next
      case False
      show ?thesis
      proof (cases notify)
        case True
        then show ?thesis unfolding start using \<open>?c = c0\<close> mk False wake r(1) qn
          by (auto simp: adds_quantum_def keeps_quantum_def fun_upd_idem intro!: exI [of _ "{}"])
      next
        case False
        have "current_cpu ?s1 = Some c0" using r(2) by simp
        then obtain s2 where s2: "request_reschedule_on c0 ?s1 = Some s2" "neutral ?s1 s2" "queues_sound s2"
          "events s2 = events s" "dispatching s2 = dispatching s" "reschedule_pending (cpu_preemption s2 c0)"
          using request_reschedule_on_view [of ?s1 c0] r(1) by auto
        note n = neutralD [OF s2(2)]
        have "same_machine s s2" using same_machine_trans [OF _ n(1), of s] by simp
        then show ?thesis unfolding start using \<open>?c = c0\<close> mk False s2 n wake
          by (auto simp: adds_quantum_def fun_upd_idem intro!: exI [of _ "{}"])
      qed
    qed
  qed
qed

lemma set_wait_trans:
  assumes "lookup S x = Some a" "next_sequence (wait_md a) \<le> next_sequence w"
  shows "lookup (wake_at c0 x c (set_wait x w S)) = (lookup S)(x \<mapsto> a\<lparr>wait_md := w, tstate := Ready\<rparr>)"
    "grows S (wake_at c0 x c (set_wait x w S))" "joiner_token (wake_at c0 x c (set_wait x w S)) = joiner_token S"
    "table_ok R (wake_at c0 x c (set_wait x w S)) = table_ok R S" "retired_on (wake_at c0 x c (set_wait x w S)) = retired_on S"
proof -
  note f = set_wait_frame [OF assms]
  have x: "lookup (set_wait x w S) x = Some (a\<lparr>wait_md := w\<rparr>)" by (simp add: f(3))
  note e = wake_at_effect [OF x, where ?c0.0 = c0 and c = c]
  show "grows S (wake_at c0 x c (set_wait x w S))" by (rule grows_trans [OF f(1) e(2)])
qed (use assms(1) wake_at_effect [of "set_wait x w S" x] set_wait_frame [OF assms] in \<open>simp_all add: lookup_upd_thread\<close>)

lemma completed_wait_seq [simp]: "next_sequence (completed_wait cause w) = next_sequence w"
  by (simp add: completed_wait_def split: option.split wait_consumption.split)

text \<open>The invariant after a wakeup of a thread on which nobody's join depends.\<close>

lemma woken_inv:
  assumes inv: "sched_inv_at P R S" and a: "lookup S x = Some a" "tstate a = Blocked"
    and act: "active (wait_md a) = Some a0" "aw_token a0 = tok"
    and nj: "\<not> joiner_token S tok"
  shows "sched_inv_at P R (wake_at c0 x (home_cpu a) (set_wait x (completed_wait cause (wait_md a)) S))"
proof -
  note i = sched_inv_atD [OF inv]
  let ?w = "completed_wait cause (wait_md a)" and ?c = "home_cpu a"
  let ?a = "a\<lparr>wait_md := ?w, tstate := Ready\<rparr>"
  note e = set_wait_trans [OF a(1), where w = ?w and ?c0.0 = c0 and c = ?c, simplified]
  have ok: "thread_ok x ?a"
    using i(3) [OF a(1)] act by (auto simp: thread_ok_def phase_ok_def wait_wf_def completed_wait_def split: wait_consumption.split)
  have idl: "idle (cpus S ?c) \<noteq> None"
    using cpu_okD(11) [OF i(2) [of ?c, unfolded cpu_inv_def], of x Blocked] a by (auto simp: placed_def)
  have x1: "lookup (set_wait x ?w S) x = Some (a\<lparr>wait_md := ?w\<rparr>)" using a by (simp add: lookup_upd_thread)
  show ?thesis
  proof (rule wake_inv [OF inv idl _ _ _ ok, where ?c0.0 = c0])
    show "join_ok P ((lookup S)(x \<mapsto> ?a)) (retired_on S)"
      using nj act by (intro join_ok_upd [OF i(4) a(1)]) (auto simp: waits_as_def joiner_token_def)
  qed (use a e i(1) not_idle [OF i(2) a(1)] wake_at_effect [OF x1] in \<open>simp_all\<close>)
qed

lemma sys_ready_next:
  assumes "sys_ready c0 s" "same_machine s s'" "queues_sound s'" "homes_ok s'"
  shows "sys_ready c0 s'"
proof -
  have "cpus_registered s' = cpus_registered s" "ipi_ok s' = ipi_ok s"
    using assms(2) by (simp_all add: same_machine_def)
  then show ?thesis using assms same_machine_cpu [OF assms(2)] by (simp add: sys_ready_def)
qed

lemma adds_quantum_refl: "queues_sound s \<Longrightarrow> adds_quantum c s s"
  by (auto simp: adds_quantum_def fun_upd_idem intro!: exI [of _ "{}"])

lemma keeps_quantum_refl [simp]: "keeps_quantum c s s"
  by (simp add: keeps_quantum_def)

section \<open>Background work\<close>

text \<open>
  What scheduler code that does not switch leaves alone. A thread keeps its home and its
  resources; it does not exit, come back or start a wait; and a running thread without a wait is
  not touched at all.
\<close>

definition thread_stays :: "thread \<Rightarrow> thread \<Rightarrow> bool" where
  "thread_stays a a' \<longleftrightarrow>
     home_cpu a' = home_cpu a \<and> user_res a' = user_res a \<and> joinable a' = joinable a \<and>
     (tstate a' = Exited \<longleftrightarrow> tstate a = Exited) \<and> (wait_is_prepared (wait_md a') \<longrightarrow> wait_is_prepared (wait_md a)) \<and>
     (tstate a = Running \<longrightarrow> active (wait_md a) = None \<longrightarrow> a' = a)"

definition background_on :: "cpu_id \<Rightarrow> scheduler \<Rightarrow> scheduler \<Rightarrow> bool" where
  "background_on c S S' \<longleftrightarrow>
     grows S S' \<and> (\<forall>tok. joiner_token S' tok \<longrightarrow> joiner_token S tok) \<and>
     (\<forall>x a'. lookup S' x = Some a' \<longrightarrow> (\<exists>a. lookup S x = Some a \<and> thread_stays a a')) \<and>
     (\<forall>x a. lookup S x = Some a \<longrightarrow> tstate a \<noteq> Exited \<longrightarrow> lookup S' x \<noteq> None) \<and>
     (\<forall>c'. c' \<noteq> c \<longrightarrow> cpus S' c' = cpus S c') \<and>
     current (cpus S' c) = current (cpus S c) \<and> idle (cpus S' c) = idle (cpus S c) \<and>
     online (cpus S' c) = online (cpus S c) \<and> prefix (ready_queue (cpus S c)) (ready_queue (cpus S' c))"

lemma thread_stays_refl [simp]: "thread_stays a a"
  by (simp add: thread_stays_def)

lemma thread_stays_trans: "thread_stays a b \<Longrightarrow> thread_stays b d \<Longrightarrow> thread_stays a d"
  unfolding thread_stays_def by auto

lemma background_onD:
  assumes "background_on c S S'"
  shows "grows S S'" "joiner_token S' tok \<Longrightarrow> joiner_token S tok"
    "lookup S' x = Some a' \<Longrightarrow> \<exists>a. lookup S x = Some a \<and> thread_stays a a'"
    "lookup S x = Some a \<Longrightarrow> tstate a \<noteq> Exited \<Longrightarrow> \<exists>a'. lookup S' x = Some a' \<and> thread_stays a a'"
    "c' \<noteq> c \<Longrightarrow> cpus S' c' = cpus S c'" "current (cpus S' c) = current (cpus S c)"
    "idle (cpus S' c) = idle (cpus S c)" "online (cpus S' c) = online (cpus S c)"
    "prefix (ready_queue (cpus S c)) (ready_queue (cpus S' c))"
proof -
  show "\<exists>a'. lookup S' x = Some a' \<and> thread_stays a a'" if x: "lookup S x = Some a" "tstate a \<noteq> Exited"
  proof -
    have "lookup S' x \<noteq> None" using assms x unfolding background_on_def by blast
    then obtain a' where a': "lookup S' x = Some a'" by blast
    then obtain b where "lookup S x = Some b" "thread_stays b a'" using assms unfolding background_on_def by blast
    then show ?thesis using a' x(1) by simp
  qed
qed (use assms in \<open>simp_all add: background_on_def\<close>)

lemma background_on_refl [simp]: "background_on c S S"
  by (simp add: background_on_def)

lemma background_on_trans [trans]:
  assumes "background_on c S S1" "background_on c S1 S2"
  shows "background_on c S S2"
proof -
  note 1 = background_onD [OF assms(1)] and 2 = background_onD [OF assms(2)]
  have a: "\<exists>a. lookup S x = Some a \<and> thread_stays a a2" if "lookup S2 x = Some a2" for x a2
    using 2(3) [OF that] 1(3) thread_stays_trans by blast
  have b: "lookup S2 x \<noteq> None" if x: "lookup S x = Some a" "tstate a \<noteq> Exited" for x a
  proof -
    obtain a1 where "lookup S1 x = Some a1" "thread_stays a a1" using 1(4) [OF x] by blast
    moreover then have "tstate a1 \<noteq> Exited" using x(2) by (simp add: thread_stays_def)
    ultimately show ?thesis using 2(4) by blast
  qed
  show ?thesis unfolding background_on_def
    using grows_trans [OF 1(1) 2(1)] 1(2,5-8) 2(2,5-8) prefix_order.trans [OF 1(9) 2(9)] a b by simp
qed

text \<open>The update of one thread, and of the queue of the executing CPU.\<close>

lemma background_on_upd:
  assumes "lookup S' = (lookup S)(x \<mapsto> a')" "lookup S x = Some a" "thread_stays a a'" "grows S S'"
    "\<And>tok. joiner_token S' tok \<Longrightarrow> joiner_token S tok"
    "\<And>c'. c' \<noteq> c \<Longrightarrow> cpus S' c' = cpus S c'" "current (cpus S' c) = current (cpus S c)"
    "idle (cpus S' c) = idle (cpus S c)" "online (cpus S' c) = online (cpus S c)"
    "prefix (ready_queue (cpus S c)) (ready_queue (cpus S' c))"
  shows "background_on c S S'"
  unfolding background_on_def using assms by (auto split: if_splits)

definition background :: "cpu_id \<Rightarrow> 'a system_scheme \<Rightarrow> 'a system_scheme \<Rightarrow> bool" where
  "background c s s' \<longleftrightarrow> same_machine s s' \<and> background_on c (sched s) (sched s') \<and> user_spaces s' = user_spaces s \<and>
     dispatching s' = dispatching s \<and> (\<forall>c'. c' \<noteq> c \<longrightarrow> events s' c' = events s c')"

lemma backgroundD:
  assumes "background c s s'"
  shows "same_machine s s'" "background_on c (sched s) (sched s')" "user_spaces s' = user_spaces s"
    "dispatching s' = dispatching s" "c' \<noteq> c \<Longrightarrow> events s' c' = events s c'"
  using assms by (simp_all add: background_def)

lemma background_refl [simp]: "background c s s"
  by (simp add: background_def)

lemma background_trans [trans]: "background c s s1 \<Longrightarrow> background c s1 s2 \<Longrightarrow> background c s s2"
  using same_machine_trans background_on_trans unfolding background_def by metis

lemma background_sched: "background_on c (sched s) S \<Longrightarrow> background c s (s\<lparr>sched := S\<rparr>)"
  by (simp add: background_def)

lemma background_homes:
  assumes "homes_ok s" "background c s s'"
  shows "homes_ok s'"
  unfolding homes_ok_def
proof (intro allI impI)
  fix x a' assume "lookup (sched s') x = Some a'"
  then obtain a where "lookup (sched s) x = Some a" "thread_stays a a'"
    using background_onD(3) [OF backgroundD(2) [OF assms(2)]] by blast
  moreover have "cpus_registered s' = cpus_registered s" using backgroundD(1) [OF assms(2)] by (simp add: same_machine_def)
  ultimately show "home_cpu a' < cpus_registered s'" using assms(1) by (auto simp: homes_ok_def thread_stays_def)
qed

lemma background_ready:
  assumes "sys_ready c s" "background c s s'" "queues_sound s'"
  shows "sys_ready c s'"
  using assms background_homes [OF _ assms(2)] backgroundD(1) [OF assms(2)]
  by (intro sys_ready_next [OF assms(1)]) (simp_all add: sys_ready_def)

section \<open>Completion\<close>

lemma complete_prepared:
  assumes inv: "sched_inv_at {} R (sched s)" and rdy: "sys_ready c0 s"
    and a: "lookup (sched s) (wt_thread tok) = Some a"
    and act: "active (wait_md a) = Some a0" "aw_token a0 = tok" "aw_phase a0 = Prepared"
  shows "\<exists>s'. complete_wait_transition tok cause notify s = Some (CompletedPrepared, s') \<and> sched_inv_at {} R (sched s') \<and>
    sys_ready c0 s' \<and> background c0 s s' \<and> retired_on (sched s') = retired_on (sched s) \<and>
    adds_quantum c0 s s' \<and> keeps_quantum c0 s s' \<and> events s' = events s"
proof -
  let ?S = "sched s" and ?x = "wt_thread tok"
  let ?w = "(wait_md a)\<lparr>active := Some (a0\<lparr>aw_phase := Completed cause\<rparr>)\<rparr>"
  let ?s = "s\<lparr>sched := set_wait ?x ?w ?S\<rparr>"
  note i = sched_inv_atD [OF inv] and r = sys_readyD [OF rdy]
  have st: "tstate a = Running" using i(3) [OF a] act by (auto simp: thread_ok_def phase_ok_def)
  have "complete_wait_transition tok cause notify s = Some (CompletedPrepared, ?s)"
    using act a st by (simp add: complete_wait_transition_def thread_matches_lookup lookup_thread_at
        wait_complete_def update_thread_lookup [OF a])
  moreover have "sched_inv_at {} R (set_wait ?x ?w ?S)"
  proof (rule set_wait_inv [OF inv a])
    show "thread_ok ?x (a\<lparr>wait_md := ?w\<rparr>)"
      using i(3) [OF a] act st by (auto simp: thread_ok_def phase_ok_def wait_wf_def)
    show "join_ok {} ((lookup ?S)(?x \<mapsto> a\<lparr>wait_md := ?w\<rparr>)) (retired_on ?S)"
      using act by (intro join_ok_upd [OF i(4) a]) (auto simp: waits_as_def)
  qed
  moreover have "background c0 s ?s"
  proof (rule background_sched, rule background_on_upd [OF _ a])
    show "thread_stays a (a\<lparr>wait_md := ?w\<rparr>)" using act by (simp add: thread_stays_def wait_is_prepared_def)
  qed (use set_wait_frame [OF a, of ?w] in \<open>simp_all\<close>)
  moreover then have "sys_ready c0 ?s" using r(1) by (intro background_ready [OF rdy]) simp_all
  moreover have qn: "quantum_needed c0 (set_wait ?x ?w ?S) = quantum_needed c0 ?S" by (rule quantum_needed_cong) simp
  moreover have "adds_quantum c0 s ?s"
    using r(1) unfolding adds_quantum_def by (auto simp: fun_upd_idem intro!: exI [of _ "{}"])
  moreover have "keeps_quantum c0 s ?s" using qn by (simp add: keeps_quantum_def)
  ultimately show ?thesis by (intro exI [of _ ?s]) simp
qed

lemma woken_background:
  assumes "lookup S x = Some a" "tstate a = Blocked" "\<not> wait_is_prepared (wait_md a)"
  shows "background_on c0 S (wake_at c0 x (home_cpu a) (set_wait x (completed_wait cause (wait_md a)) S))"
proof (rule background_on_upd [OF _ assms(1)])
  let ?w = "completed_wait cause (wait_md a)"
  have x: "lookup (set_wait x ?w S) x = Some (a\<lparr>wait_md := ?w\<rparr>)" using assms by (simp add: lookup_upd_thread)
  note e = set_wait_trans [OF assms(1), where w = ?w and ?c0.0 = c0 and c = "home_cpu a", simplified]
  show "lookup (wake_at c0 x (home_cpu a) (set_wait x ?w S)) = (lookup S)(x \<mapsto> a\<lparr>wait_md := ?w, tstate := Ready\<rparr>)"
    by (rule e(1))
  show "thread_stays a (a\<lparr>wait_md := ?w, tstate := Ready\<rparr>)"
    using assms by (auto simp: thread_stays_def completed_wait_def wait_is_prepared_def split: option.splits wait_consumption.splits)
  show "grows S (wake_at c0 x (home_cpu a) (set_wait x ?w S))" by (rule e(2))
qed (use assms set_wait_trans(3) [OF assms(1)] wake_at_effect(6) [of "set_wait x (completed_wait cause (wait_md a)) S" x] in
    \<open>simp_all add: lookup_upd_thread\<close>)

lemma complete_woken:
  assumes inv: "sched_inv_at {} R (sched s)" and rdy: "sys_ready c0 s" and room: "card (events s c0) < queue_size"
    and a: "lookup (sched s) (wt_thread tok) = Some a"
    and act: "active (wait_md a) = Some a0" "aw_token a0 = tok" "aw_phase a0 = PhaseBlocked"
    and nj: "\<not> joiner_token (sched s) tok"
  shows "\<exists>s'. complete_wait_transition tok cause notify s = Some (WokeBlocked, s') \<and> sched_inv_at {} R (sched s') \<and>
    sched s' = wake_at c0 (wt_thread tok) (home_cpu a) (set_wait (wt_thread tok) (completed_wait cause (wait_md a)) (sched s)) \<and>
    sys_ready c0 s' \<and> background c0 s s' \<and> retired_on (sched s') = retired_on (sched s) \<and>
    adds_quantum c0 s s' \<and> (notify \<longrightarrow> keeps_quantum c0 s s') \<and> (\<not> notify \<longrightarrow> events s' = events s)"
proof -
  let ?S = "sched s" and ?x = "wt_thread tok" and ?w = "completed_wait cause (wait_md a)"
  note i = sched_inv_atD [OF inv]
  have st: "tstate a = Blocked" "\<not> wait_is_prepared (wait_md a)"
    using i(3) [OF a] act by (auto simp: thread_ok_def phase_ok_def wait_is_prepared_def)
  obtain s' where s': "complete_wait_transition tok cause notify s = Some (WokeBlocked, s')"
    "sched s' = wake_at c0 ?x (home_cpu a) (set_wait ?x ?w ?S)" "same_machine s s'" "user_spaces s' = user_spaces s"
    "adds_quantum c0 s s'" "notify \<longrightarrow> keeps_quantum c0 s s'" "\<not> notify \<longrightarrow> events s' = events s"
    using complete_blocked [OF inv rdy room a act, where notify = notify and cause = cause] by auto
  have "sched_inv_at {} R (sched s')" unfolding s'(2) by (rule woken_inv [OF inv a st(1) act(1,2) nj])
  moreover have bg: "background c0 s s'"
    using s'(3-5) woken_background [OF a st, of c0 cause] by (auto simp: background_def s'(2) adds_quantum_def)
  moreover have "sys_ready c0 s'" using s'(5) by (intro background_ready [OF rdy bg]) (simp add: adds_quantum_def)
  moreover have "retired_on (sched s') = retired_on ?S"
    unfolding s'(2) using set_wait_trans(5) [OF a] by simp
  ultimately show ?thesis using s' by blast
qed

text \<open>
  Completing a wait that is nobody's join token: whatever the registration's state, the call
  does not panic and keeps the invariant.
\<close>

lemma complete_wait_ok:
  assumes inv: "sched_inv_at {} R (sched s)" and rdy: "sys_ready c0 s" and room: "card (events s c0) < queue_size"
    and nj: "\<not> joiner_token (sched s) tok"
  shows "\<exists>r s'. complete_wait_transition tok cause notify s = Some (r, s') \<and> sched_inv_at {} R (sched s') \<and>
    sys_ready c0 s' \<and> background c0 s s' \<and> retired_on (sched s') = retired_on (sched s) \<and>
    adds_quantum c0 s s' \<and> (notify \<longrightarrow> keeps_quantum c0 s s') \<and> (\<not> notify \<longrightarrow> events s' = events s)"
proof -
  let ?S = "sched s" and ?x = "wt_thread tok"
  note i = sched_inv_atD [OF inv] and r = sys_readyD [OF rdy]
  have unchanged: ?thesis if "complete_wait_transition tok cause notify s = Some (q, s)" for q
    using that inv rdy adds_quantum_refl [OF r(1)] by auto
  show ?thesis
  proof (cases "lookup ?S ?x")
    case None
    then show ?thesis by (intro unchanged) (simp add: complete_wait_transition_def thread_matches_lookup)
  next
    case (Some a)
    have same: ?thesis if "wait_complete tok cause (wait_md a) = (q, wait_md a)" "q = CompletionStale \<or> q = AlreadyCompleted" for q
      using that Some by (intro unchanged [of q]) (auto simp: complete_wait_transition_def thread_matches_lookup
          lookup_thread_at update_thread_lookup [OF Some] set_wait_same)
    consider "active (wait_md a) = None"
      | a0 where "active (wait_md a) = Some a0" "aw_token a0 \<noteq> tok"
      | a0 q where "active (wait_md a) = Some a0" "aw_token a0 = tok" "aw_phase a0 = Completed q"
      | a0 where "active (wait_md a) = Some a0" "aw_token a0 = tok" "aw_phase a0 = Prepared"
      | a0 where "active (wait_md a) = Some a0" "aw_token a0 = tok" "aw_phase a0 = PhaseBlocked"
      by (cases "active (wait_md a)"; cases "aw_phase (the (active (wait_md a)))"; force)
    then show ?thesis
    proof cases
      case 1
      then show ?thesis by (intro same [of CompletionStale]) (simp_all add: wait_complete_def)
    next
      case 2
      then show ?thesis by (intro same [of CompletionStale]) (simp_all add: wait_complete_def)
    next
      case 3
      then show ?thesis by (intro same [of AlreadyCompleted]) (simp_all add: wait_complete_def)
    next
      case 4
      then show ?thesis using complete_prepared [OF inv rdy Some 4] by blast
    next
      case 5
      then show ?thesis using complete_woken [OF inv rdy room Some 5 nj] by blast
    qed
  qed
qed

end
