(* ===== verification/Sched_Retire.thy ===== *)
theory Sched_Retire
  imports Sched_Wake
begin

text \<open>
  The end of a thread: an exit retires it on its CPU, the next scheduler entry on that CPU
  finalizes it, and its slot goes back to the table when it is reaped, either for the thread that
  joined it or at once when it is detached.
\<close>

section \<open>Releasing a slot\<close>

definition released :: "thread_id \<Rightarrow> thread \<Rightarrow> scheduler \<Rightarrow> scheduler" where
  "released x a S =
     (let t = lifecycle S; i = tid_index x
      in S\<lparr>lifecycle := \<lparr>slots = (slots t)[i := (slots t ! i)\<lparr>slot_thread := None,
             next_wait_sequence := next_sequence (wait_md a), slot_stack := Some (kstack a)\<rparr>],
           free_slots = free_slots t @ [i]\<rparr>\<rparr>)"

lemma reap_exited_ok:
  assumes "lookup S x = Some a" "active (wait_md a) = None"
  shows "reap_exited x S = Some (user_res a, released x a S)"
  using assms by (simp add: reap_exited_def table_release_def lookup_def released_def Let_def wait_is_none_def)

lemma released_frame [simp]:
  "cpus (released x a S) = cpus S" "remote_ready (released x a S) = remote_ready S"
  "scheduler_ipi_pending (released x a S) = scheduler_ipi_pending S" "retired_on (released x a S) = retired_on S"
  "rr_quantum_ms (released x a S) = rr_quantum_ms S" "queue_room (released x a S) = queue_room S"
  by (simp_all add: released_def Let_def retired_on_def fun_eq_iff)

lemma lookup_released:
  assumes "lookup S x = Some a"
  shows "lookup (released x a S) = (lookup S)(x := None)"
proof
  fix y
  show "lookup (released x a S) y = ((lookup S)(x := None)) y"
  proof (cases "tid_index y = tid_index x")
    case True
    then have "y \<noteq> x \<Longrightarrow> lookup S y = None" using lookup_index_inj [OF _ assms, of y] by (cases "lookup S y") auto
    moreover have "lookup (released x a S) y = None"
      using True lookup_index_less [OF assms] by (auto simp: lookup_def table_get_def released_def Let_def idx_def)
    ultimately show ?thesis by simp
  next
    case False
    then show ?thesis by (auto simp: lookup_def table_get_def released_def Let_def idx_def)
  qed
qed

lemma grows_released:
  assumes "lookup S x = Some a"
  shows "grows S (released x a S)"
proof -
  have "slot_seq (released x a S) i = slot_seq S i" if "i < length (slots (lifecycle S))" for i
    using that assms by (cases "i = tid_index x") (simp_all add: slot_seq_def released_def Let_def lookup_Some)
  then show ?thesis by (simp add: grows_def) (simp add: released_def Let_def)
qed

lemma joiner_token_released:
  assumes "lookup S x = Some a" "joiner_token (released x a S) tok"
  shows "joiner_token S tok"
  using assms(2) lookup_released [OF assms(1)] by (auto simp: joiner_token_def split: if_splits)

lemma table_ok_released:
  assumes t: "table_ok R S" and x: "lookup S x = Some a"
  shows "table_ok R (released x a S)"
proof -
  let ?i = "tid_index x"
  note l = x [unfolded lookup_Some]
  have "?i \<notin> R \<union> set (free_slots (lifecycle S))" using t l by (auto simp: table_ok_def Let_def)
  moreover have "{i. i < length (slots (lifecycle S)) \<and> slot_thread (slots (lifecycle (released x a S)) ! i) = None} =
      insert ?i {i. i < length (slots (lifecycle S)) \<and> slot_thread (slots (lifecycle S) ! i) = None}"
    using l by (auto simp: released_def Let_def nth_list_update)
  ultimately show ?thesis using t l
    by (auto simp: table_ok_def Let_def released_def nth_list_update)
qed

lemma joiner_not_exited:
  assumes inv: "sched_inv_at {} R S" and t: "lookup S t = Some th" "joiner th = Some tok"
  obtains jt a0 where "lookup S (wt_thread tok) = Some jt" "tstate jt = Blocked" "reaped_user jt = None"
    "active (wait_md jt) = Some a0" "aw_token a0 = tok" "aw_phase a0 = PhaseBlocked" "aw_consumption a0 = Explicit"
proof -
  obtain jt where jt: "lookup S (wt_thread tok) = Some jt" "waits_as {} jt tok"
    using join_okD(3) [OF sched_inv_atD(4) [OF inv] t] by blast
  then obtain a0 where a0: "reaped_user jt = None" "active (wait_md jt) = Some a0" "aw_token a0 = tok" "aw_phase a0 = PhaseBlocked"
    "aw_consumption a0 = Explicit" by (auto simp: waits_as_def)
  moreover have "tstate jt = Blocked"
    using sched_inv_atD(3) [OF inv jt(1)] a0 by (auto simp: thread_ok_def phase_ok_def)
  ultimately show thesis using that jt(1) by blast
qed

lemma release_inv:
  assumes inv: "sched_inv_at {} R S" and a: "lookup S x = Some a" "tstate a = Exited"
    and nr: "retired (cpus S (home_cpu a)) \<noteq> Some x"
  shows "sched_inv_at {} R (released x a S)"
proof (rule sched_inv_atI)
  note i = sched_inv_atD [OF inv] and l = lookup_released [OF a(1)]
  have place: "placed (released x a S) = (placed S)(x := None)" by (simp add: placed_fun l fun_eq_iff)
  show "table_ok R (released x a S)" by (rule table_ok_released [OF i(1) a(1)])
  show "cpu_inv (released x a S) c" for c
  proof -
    have "placed S x = Some (home_cpu a, Exited)" using a by (simp add: placed_def)
    moreover have "retired (cpus S c) \<noteq> Some x"
      using cpu_inv_retired [OF i(2), of c x] a(1) nr by fastforce
    ultimately show ?thesis
      unfolding cpu_inv_def place released_frame by (rule cpu_ok_remove [OF i(2) [of c, unfolded cpu_inv_def]])
  qed
  show "thread_ok z th" if "lookup (released x a S) z = Some th" for z th
    using that i(3) by (auto simp: l split: if_splits)
  show "join_ok {} (lookup (released x a S)) (retired_on (released x a S))"
  proof (rule join_okI)
    fix t th tok assume t: "lookup (released x a S) t = Some th" "joiner th = Some tok"
    then have t': "lookup S t = Some th" by (auto simp: l split: if_splits)
    note d = join_okD [OF i(4) t' t(2)]
    obtain jt where jt: "lookup S (wt_thread tok) = Some jt" "tstate jt = Blocked"
      by (rule joiner_not_exited [OF inv t' t(2)])
    then have "wt_thread tok \<noteq> x" using a by auto
    then show "joinable th \<and> (tstate th = Exited \<longrightarrow> retired_on (released x a S) (home_cpu th) = Some t) \<and>
        (\<exists>jt. lookup (released x a S) (wt_thread tok) = Some jt \<and> waits_as {} jt tok)"
      using d by (simp add: l)
  next
    fix t th t' th' tok
    assume "lookup (released x a S) t = Some th" "joiner th = Some tok" "lookup (released x a S) t' = Some th'" "joiner th' = Some tok"
    then show "t = t'" using join_okD(4) [OF i(4), of t th tok t' th'] by (auto simp: l split: if_splits)
  qed
  show "idle_ok (released x a S)" using i(5) by (auto simp: idle_ok_def l split: if_splits)
qed

lemma released_background:
  assumes "lookup S x = Some a" "tstate a = Exited"
  shows "background_on c S (released x a S)"
  unfolding background_on_def
  using grows_released [OF assms(1)] joiner_token_released [OF assms(1)] assms
  by (auto simp: lookup_released split: if_splits)

section \<open>Results\<close>

text \<open>An update of a thread's records that the other components of the invariant do not see.\<close>

lemma upd_inv:
  assumes inv: "sched_inv_at P R S" and a: "lookup S x = Some a" and ok: "thread_ok x (f a)"
    and keep: "home_cpu (f a) = home_cpu a" "tstate (f a) = tstate a" "joiner (f a) = joiner a" "joinable (f a) = joinable a"
      "user_res (f a) = user_res a \<or> user_res a \<noteq> None"
    and wait: "\<And>tok. waits_as P a tok \<Longrightarrow> joiner_token S tok \<Longrightarrow> waits_as P (f a) tok"
  shows "sched_inv_at P R (upd_thread x f S)"
proof (rule sched_inv_atI)
  note i = sched_inv_atD [OF inv]
  show "table_ok R (upd_thread x f S)" using i(1) a by simp
  have "placed (upd_thread x f S) = placed S" using a keep by simp
  then show "cpu_inv (upd_thread x f S) c" for c using i(2) [of c] by (simp only: cpu_inv_def upd_thread_frame)
  show "thread_ok z th" if "lookup (upd_thread x f S) z = Some th" for z th
    using that i(3) ok a by (auto simp: lookup_upd_thread split: if_splits)
  show "join_ok P (lookup (upd_thread x f S)) (retired_on (upd_thread x f S))"
    unfolding lookup_upd_thread_fun [OF a] retired_on_frame
    using keep wait by (intro join_ok_upd [OF i(4) a]) (auto simp: joiner_token_def)
  show "idle_ok (upd_thread x f S)" using keep by (intro idle_ok_upd_thread [OF i(5) a]) simp_all
qed

text \<open>The results a finished join leaves with the joiner.\<close>

definition delivered :: "usize \<Rightarrow> user_resources option \<Rightarrow> thread \<Rightarrow> thread" where
  "delivered code res th = th\<lparr>last_join_result := Some (Inr code), reaped_user := res\<rparr>"

definition deliver :: "thread_id \<Rightarrow> usize \<Rightarrow> thread_id \<Rightarrow> thread \<Rightarrow> scheduler \<Rightarrow> scheduler" where
  "deliver y code x a S = upd_thread y (\<lambda>th. th\<lparr>reaped_user := user_res a\<rparr>)
     (released x a (upd_thread y (\<lambda>th. th\<lparr>last_join_result := Some (Inr code)\<rparr>) S))"

lemma deliver_ok:
  assumes y: "lookup S y = Some b" "reaped_user b = None" and x: "lookup S x = Some a" "active (wait_md a) = None" and ne: "y \<noteq> x"
  shows "(do { S \<leftarrow> set_join_result (tid_index y) (Inr code) S; (res, S) \<leftarrow> reap_exited x S; set_reaped_user y res S }) =
      Some (deliver y code x a S)"
proof -
  let ?S1 = "upd_thread y (\<lambda>th. th\<lparr>last_join_result := Some (Inr code)\<rparr>) S"
  have x1: "lookup ?S1 x = Some a" using x y ne by (simp add: lookup_upd_thread)
  have y2: "lookup (released x a ?S1) y = Some (b\<lparr>last_join_result := Some (Inr code)\<rparr>)"
    using lookup_released [OF x1] y ne by (simp add: lookup_upd_thread)
  then have "table_get y (lifecycle (released x a ?S1)) = Some (b\<lparr>last_join_result := Some (Inr code)\<rparr>)"
    by (simp add: lookup_def)
  then show ?thesis
    using reap_exited_ok [OF x1 x(2)] y(2)
    by (simp add: set_join_result_def set_reaped_user_def update_thread_lookup [OF y(1)] update_thread_lookup [OF y2] deliver_def)
qed

text \<open>The thread \<open>y\<close> is not waiting as a joiner any more when it receives the results.\<close>

lemma deliver_inv:
  assumes inv: "sched_inv_at {} R S" and y: "lookup S y = Some b" "\<And>tok. \<not> waits_as {} b tok"
    and x: "lookup S x = Some a" "tstate a = Exited" "retired (cpus S (home_cpu a)) \<noteq> Some x" and ne: "y \<noteq> x"
    and stays: "thread_stays b (delivered code (user_res a) b)"
  shows "sched_inv_at {} R (deliver y code x a S)" "background_on c S (deliver y code x a S)"
    "lookup (deliver y code x a S) = (lookup S)(x := None, y \<mapsto> delivered code (user_res a) b)"
    "cpus (deliver y code x a S) = cpus S" "remote_ready (deliver y code x a S) = remote_ready S"
    "scheduler_ipi_pending (deliver y code x a S) = scheduler_ipi_pending S"
proof -
  let ?f = "\<lambda>th::thread. th\<lparr>last_join_result := Some (Inr code)\<rparr>" and ?g = "\<lambda>th::thread. th\<lparr>reaped_user := user_res a\<rparr>"
  let ?S1 = "upd_thread y ?f S" let ?S2 = "released x a ?S1"
  note i = sched_inv_atD [OF inv]
  have x1: "lookup ?S1 x = Some a" using x y ne by (simp add: lookup_upd_thread)
  have y2: "lookup ?S2 y = Some (?f b)" using lookup_released [OF x1] y ne by (simp add: lookup_upd_thread)
  have w: "\<not> waits_as {} (?f b) tok" for tok using y(2) [of tok] by (simp add: waits_as_def)
  have ok: "thread_ok y (?f b)" "thread_ok y (?g (?f b))" using i(3) [OF y(1)] by (simp_all add: thread_ok_def)
  have inv1: "sched_inv_at {} R ?S1" using ok y(2) by (intro upd_inv [OF inv y(1)]) simp_all
  have inv2: "sched_inv_at {} R ?S2" using x(3) by (intro release_inv [OF inv1 x1 x(2)]) simp
  show "sched_inv_at {} R (deliver y code x a S)"
    unfolding deliver_def using ok w by (intro upd_inv [OF inv2 y2]) simp_all
  show l: "lookup (deliver y code x a S) = (lookup S)(x := None, y \<mapsto> delivered code (user_res a) b)"
    unfolding deliver_def lookup_upd_thread_fun [OF y2] lookup_released [OF x1] lookup_upd_thread_fun [OF y(1)] delivered_def
    using ne by (simp add: fun_eq_iff)
  have "grows S ?S1" using y by (simp add: grows_upd_thread)
  also have "grows ?S1 ?S2" by (rule grows_released [OF x1])
  also have "grows ?S2 (deliver y code x a S)" unfolding deliver_def using y2 by (simp add: grows_upd_thread)
  finally have g: "grows S (deliver y code x a S)" .
  have j: "joiner_token (deliver y code x a S) tok \<Longrightarrow> joiner_token S tok" for tok
    using y(1) ne by (auto simp: joiner_token_def l delivered_def split: if_splits)
  have k: "cpus (deliver y code x a S) = cpus S" by (simp add: deliver_def)
  show "background_on c S (deliver y code x a S)"
    unfolding background_on_def k using g j y x stays by (auto simp: l split: if_splits)
qed (simp_all add: deliver_def)

section \<open>Finalizing the retired thread\<close>

definition unretired :: "cpu_id \<Rightarrow> thread_id \<Rightarrow> scheduler \<Rightarrow> scheduler" where
  "unretired c x S = upd_thread x (\<lambda>th. th\<lparr>joiner := None\<rparr>) (upd_cpu c (\<lambda>k. k\<lparr>retired := None\<rparr>) S)"

lemma unretired_frame:
  assumes "lookup S x = Some a"
  shows "lookup (unretired c x S) = (lookup S)(x \<mapsto> a\<lparr>joiner := None\<rparr>)"
    "cpus (unretired c x S) = (cpus S)(c := (cpus S c)\<lparr>retired := None\<rparr>)"
    "remote_ready (unretired c x S) = remote_ready S" "scheduler_ipi_pending (unretired c x S) = scheduler_ipi_pending S"
    "table_ok R (unretired c x S) = table_ok R S" "grows S (unretired c x S)"
    "retired_on (unretired c x S) = (retired_on S)(c := None)"
proof -
  let ?S = "upd_cpu c (\<lambda>k. k\<lparr>retired := None\<rparr>) S"
  have x: "lookup ?S x = Some a" using assms by simp
  have "grows S ?S" by simp
  also have "grows ?S (unretired c x S)" unfolding unretired_def by (rule grows_upd_thread [OF x]) simp
  finally show "grows S (unretired c x S)" .
  show "lookup (unretired c x S) = (lookup S)(x \<mapsto> a\<lparr>joiner := None\<rparr>)"
    unfolding unretired_def lookup_upd_thread_fun [OF x] by simp
  show "table_ok R (unretired c x S) = table_ok R S" unfolding unretired_def using x by simp
qed (simp_all add: unretired_def retired_on_def fun_eq_iff)

lemma unretired_joiner:
  assumes inv: "sched_inv_at {} R S" and a: "lookup S x = Some a"
  shows "joiner_token (unretired c x S) tok \<longleftrightarrow> joiner_token S tok \<and> joiner a \<noteq> Some tok"
proof
  note l = unretired_frame(1) [OF a, of c]
  assume "joiner_token (unretired c x S) tok"
  then obtain t th where t: "lookup S t = Some th" "joiner th = Some tok" "t \<noteq> x"
    by (auto simp: joiner_token_def l split: if_splits)
  then show "joiner_token S tok \<and> joiner a \<noteq> Some tok"
    using join_okD(4) [OF sched_inv_atD(4) [OF inv] t(1,2) a] by (auto simp: joiner_token_def)
next
  note l = unretired_frame(1) [OF a, of c]
  assume "joiner_token S tok \<and> joiner a \<noteq> Some tok"
  then obtain t th where "lookup S t = Some th" "joiner th = Some tok" "t \<noteq> x" using a unfolding joiner_token_def by fastforce
  then show "joiner_token (unretired c x S) tok" by (auto simp: joiner_token_def l)
qed

lemma unretired_inv:
  assumes inv: "sched_inv_at {} R S" and ret: "retired (cpus S c) = Some x"
    and a: "lookup S x = Some a" "home_cpu a = c" "tstate a = Exited"
  shows "sched_inv_at {} R (unretired c x S)"
proof -
  note i = sched_inv_atD [OF inv] and e = unretired_frame [OF a(1), where c = c]
  have place: "placed (unretired c x S) = placed S"
    using placed_upd1 [OF e(1)] a by (auto simp: placed_def fun_eq_iff)
  show ?thesis
  proof (rule inv_local [OF inv, where c = c])
    show "table_ok R (unretired c x S)" using i(1) e(5) by simp
    show "cpu_inv (unretired c x S) c"
      using cpu_ok_unretire [OF i(2) [of c, unfolded cpu_inv_def]] by (simp add: cpu_inv_def place e)
    show "lookup S z = Some th \<or> thread_ok z th" if "lookup (unretired c x S) z = Some th" for z th
      using that i(3) [OF a(1)] by (auto simp: e thread_ok_def split: if_splits)
    show "join_ok {} (lookup (unretired c x S)) (retired_on (unretired c x S))"
    proof (rule join_okI)
      fix t th tok assume t: "lookup (unretired c x S) t = Some th" "joiner th = Some tok"
      then have t': "lookup S t = Some th" "t \<noteq> x" by (auto simp: e split: if_splits)
      note d = join_okD [OF i(4) t'(1) t(2)]
      obtain jt where "lookup S (wt_thread tok) = Some jt" "tstate jt = Blocked" by (rule joiner_not_exited [OF inv t'(1) t(2)])
      then have "wt_thread tok \<noteq> x" using a by auto
      then show "joinable th \<and> (tstate th = Exited \<longrightarrow> retired_on (unretired c x S) (home_cpu th) = Some t) \<and>
        (\<exists>jt. lookup (unretired c x S) (wt_thread tok) = Some jt \<and> waits_as {} jt tok)"
        using d t'(2) ret by (auto simp: e retired_on_def)
    next
      fix t th t' th' tok
      assume "lookup (unretired c x S) t = Some th" "joiner th = Some tok" "lookup (unretired c x S) t' = Some th'" "joiner th' = Some tok"
      then show "t = t'" using join_okD(4) [OF i(4), of t th tok t' th'] by (auto simp: e split: if_splits)
    qed
    show "idle_ok (unretired c x S)" using i(5) a(1) by (auto simp: idle_ok_def e split: if_splits)
  qed (simp_all add: e place)
qed

lemma unretired_background:
  assumes "sched_inv_at {} R S" "lookup S x = Some a" "tstate a = Exited"
  shows "background_on c S (unretired c x S)"
proof -
  note e = unretired_frame [OF assms(2), where c = c]
  show ?thesis
    by (rule background_on_upd [OF e(1) assms(2)])
      (use assms e unretired_joiner [OF assms(1,2), of c] in \<open>simp_all add: thread_stays_def\<close>)
qed

lemma finalize_retired_eq:
  assumes inv: "sched_inv_at {} R (sched s)" and ret: "retired (cpus (sched s) c) = Some x"
    and a: "lookup (sched s) x = Some a" "home_cpu a = c" "tstate a = Exited"
  defines "s1 \<equiv> s\<lparr>sched := unretired c x (sched s)\<rparr>"
  shows "finalize_retired c notify s =
    (case joiner a of
       Some tok \<Rightarrow> do {
         code \<leftarrow> exit_code a;
         s \<leftarrow> complete_joiner x tok code notify s1;
         (resources, S) \<leftarrow> reap_exited x (sched s);
         S \<leftarrow> set_reaped_user (wt_thread tok) resources S;
         Some (s\<lparr>sched := S\<rparr>)
       }
     | None \<Rightarrow>
         if \<not> joinable a then do {
           (resources, S) \<leftarrow> reap_exited x (sched s1);
           panic_if (resources \<noteq> None);
           Some (s1\<lparr>sched := S\<rparr>)
         }
         else Some s1)"
proof -
  let ?S = "upd_cpu c (\<lambda>k. k\<lparr>retired := None\<rparr>) (sched s)"
  have x: "lookup ?S x = Some a" using a by simp
  moreover have "current (cpus (sched s) c) \<noteq> Some x" using cpu_inv_current [OF sched_inv_atD(2) [OF inv], of c x] a by auto
  moreover have "update_thread (tid_index x) (\<lambda>th. th\<lparr>joiner := None\<rparr>) ?S = Some (sched s1)"
    using update_thread_lookup [OF x] by (simp add: s1_def unretired_def)
  moreover have "s\<lparr>sched := sched s1\<rparr> = s1" by (simp add: s1_def)
  ultimately show ?thesis
    using ret a lookup_thread_at [OF x] by (simp add: finalize_retired_def thread_matches_lookup split: option.split)
qed

text \<open>
  The three endings of a retired thread: it is handed to the thread that joined it, it is freed
  because nobody can join it, or it stays for a later join.
\<close>

lemma finalize_joined:
  assumes inv: "sched_inv_at {} R (sched s)" and rdy: "sys_ready c s" and room: "card (events s c) < queue_size"
    and ret: "retired (cpus (sched s) c) = Some x" and a: "lookup (sched s) x = Some a" "home_cpu a = c" "tstate a = Exited"
    and tok: "joiner a = Some tok"
  shows "\<exists>s' jt code. finalize_retired c notify s = Some s' \<and> sched_inv_at {} R (sched s') \<and> sys_ready c s' \<and>
    background c s s' \<and> retired (cpus (sched s') c) = None \<and> adds_quantum c s s' \<and>
    (notify \<longrightarrow> keeps_quantum c s s') \<and> (\<not> notify \<longrightarrow> events s' = events s) \<and>
    exit_code a = Some code \<and> lookup (sched s) (wt_thread tok) = Some jt \<and>
    lookup (sched s') = (lookup (sched s))(x := None, wt_thread tok \<mapsto>
      delivered code (user_res a) (jt\<lparr>wait_md := completed_wait Notified (wait_md jt), tstate := Ready\<rparr>))"
proof -
  let ?S = "sched s" and ?y = "wt_thread tok" and ?s1 = "s\<lparr>sched := unretired c x (sched s)\<rparr>"
  note i = sched_inv_atD [OF inv] and e = unretired_frame [OF a(1), where c = c]
  obtain code where code: "exit_code a = Some code" using i(3) [OF a(1)] a(3) by (auto simp: thread_ok_def)
  have act: "active (wait_md a) = None" using i(3) [OF a(1)] a(3)
    by (auto simp: thread_ok_def phase_ok_def split: option.splits wait_phase.splits)
  obtain jt a0 where jt: "lookup ?S ?y = Some jt" "tstate jt = Blocked" "reaped_user jt = None"
    "active (wait_md jt) = Some a0" "aw_token a0 = tok" "aw_phase a0 = PhaseBlocked" "aw_consumption a0 = Explicit"
    by (rule joiner_not_exited [OF inv a(1) tok])
  have ne: "?y \<noteq> x" using jt a by auto
  have inv1: "sched_inv_at {} R (sched ?s1)" using unretired_inv [OF inv ret a] by simp
  have bg1: "background c s ?s1" by (rule background_sched, rule unretired_background [OF inv a(1,3)])
  have rdy1: "sys_ready c ?s1" using sys_readyD(1) [OF rdy] by (intro background_ready [OF rdy bg1]) simp
  have y1: "lookup (sched ?s1) ?y = Some jt" using jt(1) ne by (simp add: e)
  have nj: "\<not> joiner_token (sched ?s1) tok" using unretired_joiner [OF inv a(1)] tok by simp
  obtain s2 where s2: "complete_wait_transition tok Notified notify ?s1 = Some (WokeBlocked, s2)" "sched_inv_at {} R (sched s2)"
    "sched s2 = wake_at c ?y (home_cpu jt) (set_wait ?y (completed_wait Notified (wait_md jt)) (sched ?s1))"
    "sys_ready c s2" "background c ?s1 s2" "retired_on (sched s2) = retired_on (sched ?s1)" "adds_quantum c ?s1 s2"
    "notify \<longrightarrow> keeps_quantum c ?s1 s2" "\<not> notify \<longrightarrow> events s2 = events ?s1"
    using complete_woken [OF inv1 rdy1 _ y1 jt(4-6) nj, where notify = notify and cause = Notified] room by auto
  let ?j = "jt\<lparr>wait_md := completed_wait Notified (wait_md jt), tstate := Ready\<rparr>"
  have l2: "lookup (sched s2) = (lookup ?S)(x \<mapsto> a\<lparr>joiner := None\<rparr>, ?y \<mapsto> ?j)"
    unfolding s2(3) using set_wait_trans(1) [OF y1] by (simp add: e completed_wait_seq)
  let ?a = "a\<lparr>joiner := None\<rparr>"
  let ?s' = "s2\<lparr>sched := deliver ?y code x ?a (sched s2)\<rparr>"
  have x2: "lookup (sched s2) x = Some ?a" and y2: "lookup (sched s2) ?y = Some ?j" using ne by (simp_all add: l2)
  have run: "finalize_retired c notify s = Some ?s'"
  proof -
    have "finalize_retired c notify s = map_option (\<lambda>S. s2\<lparr>sched := S\<rparr>)
        (do { S \<leftarrow> set_join_result (tid_index ?y) (Inr code) (sched s2); (res, S) \<leftarrow> reap_exited x S; set_reaped_user ?y res S })"
      unfolding finalize_retired_eq [OF inv ret a] complete_joiner_def using s2(1) tok code
      by (simp add: option.case_eq_if map_option_case split: Option.bind_split)
    then show ?thesis using deliver_ok [OF y2 _ x2 _ ne, of code] jt(3) act by simp
  qed
  have w: "\<not> waits_as {} ?j tok'" for tok' using jt by (auto simp: waits_as_def completed_wait_def)
  have nr: "retired (cpus (sched s2) c) = None" using fun_cong [OF s2(6), of c] e(7) by (simp add: retired_on_def)
  have st: "thread_stays ?j (delivered code (user_res ?a) ?j)" by (simp add: thread_stays_def delivered_def)
  have "retired (cpus (sched s2) (home_cpu ?a)) \<noteq> Some x" using nr a(2) by simp
  note d = deliver_inv [OF s2(2) y2 w x2 _ this ne st, simplified]
  have bg: "background c s2 ?s'" using d(2) a(3) by (simp add: background_sched)
  have "background c s ?s'" by (rule background_trans [OF bg1 background_trans [OF s2(5) bg]])
  moreover have "sys_ready c ?s'" using s2(4) sys_readyD(1) [OF s2(4)] by (intro background_ready [OF s2(4) bg]) simp
  moreover have qn: "quantum_needed c (sched ?s') = quantum_needed c (sched s2)"
    using d(4) a(3) by (intro quantum_needed_cong) simp
  moreover have qs: "quantum_needed c (sched ?s1) = quantum_needed c ?S" by (simp add: quantum_needed_def e split: option.split)
  moreover have "adds_quantum c s ?s'" using s2(7) qn by (simp add: adds_quantum_def)
  moreover have "notify \<longrightarrow> keeps_quantum c s ?s'" "\<not> notify \<longrightarrow> events ?s' = events s"
    using s2(8,9) qn qs by (simp_all add: keeps_quantum_def)
  moreover have "sched_inv_at {} R (sched ?s')" "retired (cpus (sched ?s') c) = None" using d a(3) nr by simp_all
  moreover have "lookup (sched ?s') = (lookup ?S)(x := None, ?y \<mapsto> delivered code (user_res a) ?j)"
    using d(3) a(3) ne by (simp add: l2 fun_eq_iff)
  ultimately show ?thesis using run code jt(1) by (intro exI [of _ ?s'] exI [of _ jt] exI [of _ code]) simp
qed

text \<open>Finalization on any state: what every scheduler entry starts with.\<close>

lemma finalize_retired_ok:
  assumes inv: "sched_inv_at {} R (sched s)" and rdy: "sys_ready c s" and room: "card (events s c) < queue_size"
  shows "\<exists>s'. finalize_retired c notify s = Some s' \<and> sched_inv_at {} R (sched s') \<and> sys_ready c s' \<and>
    background c s s' \<and> retired (cpus (sched s') c) = None \<and> adds_quantum c s s' \<and>
    (notify \<longrightarrow> keeps_quantum c s s') \<and> (\<not> notify \<longrightarrow> events s' = events s)"
proof (cases "retired (cpus (sched s) c)")
  case None
  then show ?thesis using inv rdy adds_quantum_refl [OF sys_readyD(1) [OF rdy]] by (simp add: finalize_retired_def)
next
  case (Some x)
  let ?s1 = "s\<lparr>sched := unretired c x (sched s)\<rparr>"
  note i = sched_inv_atD [OF inv]
  obtain a where a: "lookup (sched s) x = Some a" "home_cpu a = c" "tstate a = Exited"
    by (rule cpu_inv_retired [OF i(2) Some])
  note e = unretired_frame [OF a(1), where c = c] and run = finalize_retired_eq [OF inv Some a, of notify]
  have inv1: "sched_inv_at {} R (sched ?s1)" using unretired_inv [OF inv Some a] by simp
  have bg1: "background c s ?s1" by (rule background_sched, rule unretired_background [OF inv a(1,3)])
  have qn: "quantum_needed c (sched ?s1) = quantum_needed c (sched s)"
    by (simp add: quantum_needed_def e split: option.split)
  note snd = sys_readyD(1) [OF rdy]
  consider tok where "joiner a = Some tok" | "joiner a = None" "joinable a" | "joiner a = None" "\<not> joinable a" by blast
  then show ?thesis
  proof cases
    case 1
    then show ?thesis using finalize_joined [OF inv rdy room Some a 1, of notify] by blast
  next
    case 2
    have "sys_ready c ?s1" using snd by (intro background_ready [OF rdy bg1]) simp
    moreover have "adds_quantum c s ?s1" using snd by (auto simp: adds_quantum_def fun_upd_idem intro!: exI [of _ "{}"])
    ultimately show ?thesis using 2 run inv1 bg1 qn by (simp add: keeps_quantum_def e)
  next
    case 3
    let ?a = "a\<lparr>joiner := None\<rparr>" let ?s2 = "s\<lparr>sched := released x ?a (unretired c x (sched s))\<rparr>"
    have x1: "lookup (sched ?s1) x = Some ?a" by (simp add: e)
    have act: "active (wait_md ?a) = None" using i(3) [OF a(1)] a(3)
      by (auto simp: thread_ok_def phase_ok_def split: option.splits wait_phase.splits)
    have res: "user_res ?a = None" using i(3) [OF a(1)] 3(2) by (cases "user_res a") (auto simp: thread_ok_def)
    have fin: "finalize_retired c notify s = Some ?s2"
      using run 3 reap_exited_ok [OF x1 act] res by simp
    have "sched_inv_at {} R (sched ?s2)"
      using release_inv [OF inv1 x1] a by (simp add: e)
    moreover have "background_on c (sched ?s1) (sched ?s2)" using released_background [OF x1] a(3) by simp
    then have bg: "background c s ?s2"
      using background_on_trans [OF backgroundD(2) [OF bg1]] by (simp add: background_def)
    moreover have "sys_ready c ?s2" using snd by (intro background_ready [OF rdy bg]) simp
    moreover have "adds_quantum c s ?s2" using snd by (auto simp: adds_quantum_def fun_upd_idem intro!: exI [of _ "{}"])
    moreover have "quantum_needed c (sched ?s2) = quantum_needed c (sched s)"
      by (simp add: quantum_needed_def e split: option.split)
    ultimately show ?thesis using fin by (intro exI [of _ ?s2]) (simp add: keeps_quantum_def e)
  qed
qed

section \<open>Exit\<close>

definition exited_to :: "cpu_id \<Rightarrow> thread_id \<Rightarrow> usize \<Rightarrow> scheduler \<Rightarrow> scheduler" where
  "exited_to c x code S =
     run_next c (next_thread c S) (drop_front c (upd_cpu c (\<lambda>k. k\<lparr>retired := Some x\<rparr>)
       (upd_thread x (\<lambda>th. th\<lparr>exit_code := Some code, tstate := Exited\<rparr>) S)))"

lemma exited_to_effect:
  assumes a: "lookup S x = Some a" and b: "lookup S (next_thread c S) = Some b" and ne: "next_thread c S \<noteq> x"
  shows "lookup (exited_to c x code S) =
      (lookup S)(x \<mapsto> a\<lparr>exit_code := Some code, tstate := Exited\<rparr>, next_thread c S \<mapsto> b\<lparr>tstate := Running\<rparr>)"
    "cpus (exited_to c x code S) = (cpus S)(c := (cpus S c)\<lparr>ready_queue := tl (ready_queue (cpus S c)),
       current := Some (next_thread c S), retired := Some x\<rparr>)"
    "remote_ready (exited_to c x code S) = remote_ready S"
    "scheduler_ipi_pending (exited_to c x code S) = scheduler_ipi_pending S"
    "grows S (exited_to c x code S)" "joiner_token (exited_to c x code S) = joiner_token S"
    "table_ok R (exited_to c x code S) \<longleftrightarrow> table_ok R S" "retired_on (exited_to c x code S) = (retired_on S)(c := Some x)"
proof -
  let ?S1 = "upd_thread x (\<lambda>th. th\<lparr>exit_code := Some code, tstate := Exited\<rparr>) S"
  let ?S2 = "upd_cpu c (\<lambda>k. k\<lparr>retired := Some x\<rparr>) ?S1" let ?S3 = "drop_front c ?S2"
  have b3: "lookup ?S3 (next_thread c S) = Some b" using a b ne by (simp add: lookup_upd_thread)
  note r = run_next_frame [OF b3]
  have "grows S ?S1" using a by (simp add: grows_upd_thread)
  also have "grows ?S1 ?S2" by simp
  also have "grows ?S2 ?S3" by simp
  also have "grows ?S3 (exited_to c x code S)" unfolding exited_to_def by (rule r(1))
  finally show "grows S (exited_to c x code S)" .
  show "lookup (exited_to c x code S) =
      (lookup S)(x \<mapsto> a\<lparr>exit_code := Some code, tstate := Exited\<rparr>, next_thread c S \<mapsto> b\<lparr>tstate := Running\<rparr>)"
    unfolding exited_to_def r(5) by (simp add: lookup_upd_thread_fun [OF a])
  show "joiner_token (exited_to c x code S) = joiner_token S"
    unfolding exited_to_def r(2) using a by (simp add: joiner_token_upd_thread)
  show "table_ok R (exited_to c x code S) \<longleftrightarrow> table_ok R S" unfolding exited_to_def r(6) using a by simp
  show "cpus (exited_to c x code S) = (cpus S)(c := (cpus S c)\<lparr>ready_queue := tl (ready_queue (cpus S c)),
       current := Some (next_thread c S), retired := Some x\<rparr>)"
    unfolding exited_to_def r(8) by (cases "cpus S c") simp
  then show "retired_on (exited_to c x code S) = (retired_on S)(c := Some x)" by (simp add: retired_on_def fun_eq_iff)
qed (simp_all add: exited_to_def run_next_def)

lemma exit_ok:
  assumes inv: "sched_inv_at {} R (sched s)" and rdy: "sys_ready c s"
    and cur: "current (cpus (sched s) c) = Some x" and ni: "idle (cpus (sched s) c) \<noteq> Some x"
    and ret: "retired (cpus (sched s) c) = None" and a: "lookup (sched s) x = Some a" and act: "active (wait_md a) = None"
  shows "\<exists>l S'. transition_exit_current c code s = Some (Switch x (next_thread c (sched s)), s\<lparr>ipi_sent := l, sched := S'\<rparr>) \<and>
    S' = (exited_to c x code (sched s))\<lparr>scheduler_ipi_pending := (scheduler_ipi_pending (sched s))(c := True)\<rparr> \<and>
    sched_inv_at {} R S'"
proof -
  let ?S = "sched s" and ?y = "next_thread c (sched s)"
  note i = sched_inv_atD [OF inv]
  obtain b where b: "lookup ?S ?y = Some b" "home_cpu b = c" "tstate b = Ready" "?y \<noteq> x"
    by (rule next_thread_ready [OF i(2) cur ni])
  obtain w where w: "idle (cpus ?S c) = Some w" using cpu_inv_current [OF i(2) cur] by blast
  have ah: "home_cpu a = c" "tstate a = Running" using cpu_inv_current [OF i(2) cur] a by auto
  note e = exited_to_effect [OF a b(1,4), where code = code]
  let ?f = "\<lambda>th::thread. th\<lparr>exit_code := Some code, tstate := Exited\<rparr>"
  let ?S2 = "upd_cpu c (\<lambda>k. k\<lparr>retired := Some x\<rparr>) (upd_thread x ?f ?S)"
  have pop: "pop_front_or_idle c ?S2 = Some (?y, drop_front c ?S2)"
  proof (cases "ready_queue (cpus ?S c)")
    case Nil
    then show ?thesis using w drop_front_empty [of ?S2 c]
      by (simp add: pop_front_or_idle_def ready_pop_front_def next_thread_def idle_thread_def)
  next
    case (Cons y rest)
    then have y: "y = ?y" by (simp add: next_thread_def)
    have yi: "idle (cpus ?S c) \<noteq> Some y" using cpu_okD(2) [OF i(2) [of c, unfolded cpu_inv_def], of y] Cons by simp
    let ?S3 = "upd_cpu c (\<lambda>k. k\<lparr>ready_queue := rest\<rparr>) ?S2"
    have l: "lookup ?S3 y = Some b" using b y a by (simp add: lookup_upd_thread)
    have "?S3 = drop_front c ?S2" using Cons by (simp add: drop_front_def upd_cpu_def)
    then show ?thesis using Cons b y yi lookup_thread_at [OF l] l
      by (simp add: pop_front_or_idle_def ready_pop_front_def thread_matches_lookup)
  qed
  have run: "make_running c ?y (drop_front c ?S2) = Some (exited_to c x code ?S)"
    unfolding exited_to_def by (rule make_running_ok [where th = b]) (use b a in \<open>simp_all add: lookup_upd_thread\<close>)
  let ?s3 = "s\<lparr>sched := exited_to c x code ?S\<rparr>"
  have "ipi_ok ?s3 c" using sys_readyD(3,5) [OF rdy] by simp
  then obtain l where l: "request_scheduler_ipi c ?s3 = Some (?s3\<lparr>ipi_sent := l,
      sched := (exited_to c x code ?S)\<lparr>scheduler_ipi_pending := (scheduler_ipi_pending ?S)(c := True)\<rparr>\<rparr>)"
    using request_scheduler_ipi_ok [of ?s3 c] e(4) by auto
  let ?S' = "(exited_to c x code ?S)\<lparr>scheduler_ipi_pending := (scheduler_ipi_pending ?S)(c := True)\<rparr>"
  have "transition_exit_current c code s = Some (Switch x ?y, s\<lparr>ipi_sent := l, sched := ?S'\<rparr>)"
    using cur w ni ret pop run l assert_current_running_ok [OF i(2) cur]
    by (simp add: transition_exit_current_def idle_thread_def update_thread_lookup [OF a])
  moreover have "sched_inv_at {} R ?S'"
  proof (rule leave_inv [OF inv cur ni a, where a' = "?f a" and rt = "Some x" and pend = True and b = b])
    show "thread_ok x (?f a)" using i(3) [OF a] act by (simp add: thread_ok_def phase_ok_def)
    have j: "join_ok {} (lookup ?S) (retired_on ?S')"
    proof (rule join_okI)
      fix t th tok assume t: "lookup ?S t = Some th" "joiner th = Some tok"
      note d = join_okD [OF i(4) t]
      then show "joinable th \<and> (tstate th = Exited \<longrightarrow> retired_on ?S' (home_cpu th) = Some t) \<and>
        (\<exists>jt. lookup ?S (wt_thread tok) = Some jt \<and> waits_as {} jt tok)"
        using ret by (auto simp: e retired_on_def)
    qed (rule join_okD(4) [OF i(4)])
    show "join_ok {} ((lookup ?S)(x \<mapsto> ?f a)) (retired_on ?S')"
      using act ah by (intro join_ok_upd [OF j a]) (auto simp: waits_as_def e retired_on_def)
  qed (use b ah e i(1) in \<open>simp_all\<close>)
  ultimately show ?thesis by blast
qed

end
