(* ===== verification/Sched_Arrive.thy ===== *)
theory Sched_Arrive
  imports Sched_Retire
begin

text \<open>
  Threads that become runnable on a CPU: the drain of its ingress, the direct wakeup from the
  idle thread, the publication of a new thread in a free slot, and the first dispatch.
\<close>

section \<open>Draining the ingress\<close>

definition drained :: "cpu_id \<Rightarrow> scheduler \<Rightarrow> scheduler" where
  "drained c S = upd_cpu c (\<lambda>k. k\<lparr>ready_queue := ready_queue k @ remote_ready S c\<rparr>)
     (S\<lparr>remote_ready := (remote_ready S)(c := [])\<rparr>)"

lemma drain_remote_ok:
  assumes "queues_ok S c" "table_ok R S" "remote_ready S c = q"
    "\<And>y. y \<in> set q \<Longrightarrow> \<exists>th. lookup S y = Some th \<and> home_cpu th = c \<and> tstate th = Ready"
  shows "drain_remote c q S = Some (drained c S)"
  using assms
proof (induction q arbitrary: S)
  case Nil
  then have "remote_ready S = (remote_ready S)(c := [])" by auto
  then show ?case using Nil by (simp add: drained_def upd_cpu_def)
next
  case (Cons y q)
  let ?S1 = "S\<lparr>remote_ready := (remote_ready S)(c := q)\<rparr>"
  let ?S2 = "upd_cpu c (\<lambda>k. k\<lparr>ready_queue := ready_queue k @ [y]\<rparr>) ?S1"
  obtain th where th: "lookup S y = Some th" "home_cpu th = c" "tstate th = Ready" using Cons.prems(4) [of y] by auto
  have q: "distinct (ready_queue (cpus S c) @ y # q)" "idle (cpus S c) \<noteq> Some y"
    using Cons.prems(1,3) by (auto simp: queues_ok_def)
  have q1: "queues_ok ?S1 c" using Cons.prems(1,3) by (auto simp: queues_ok_def)
  have push: "ready_push_back c y ?S1 = Some ?S2"
    by (rule ready_push_back_ok [OF q1]) (use Cons.prems(2) th q in \<open>auto\<close>)
  have "queues_ok ?S2 c" using Cons.prems(1,3) by (auto simp: queues_ok_def)
  moreover have "lookup ?S2 = lookup S" by simp
  ultimately have "drain_remote c q ?S2 = Some (drained c ?S2)"
    using Cons.prems(2,4) by (intro Cons.IH) auto
  moreover have "drained c ?S2 = drained c S" using Cons.prems(3) by (simp add: drained_def upd_cpu_def)
  moreover have "lookup ?S1 y = Some th" using th by simp
  moreover note lookup_thread_at [OF this]
  ultimately show ?case using push th by (simp add: thread_matches_lookup)
qed

lemma cpu_ok_drain:
  assumes "cpu_ok r c k rem pend" "retired k = None"
  shows "cpu_ok r c (k\<lparr>ready_queue := ready_queue k @ rem\<rparr>) [] pend'"
  using cpu_okD [OF assms(1)] assms(2) by (intro cpu_okI) simp_all

definition ipi_consumed :: "cpu_id \<Rightarrow> scheduler \<Rightarrow> scheduler" where
  "ipi_consumed c S = drained c (S\<lparr>scheduler_ipi_pending := (scheduler_ipi_pending S)(c := False)\<rparr>)"

lemma ipi_consumed_frame [simp]:
  "lookup (ipi_consumed c S) = lookup S"
  "cpus (ipi_consumed c S) = (cpus S)(c := (cpus S c)\<lparr>ready_queue := ready_queue (cpus S c) @ remote_ready S c\<rparr>)"
  "remote_ready (ipi_consumed c S) = (remote_ready S)(c := [])"
  "scheduler_ipi_pending (ipi_consumed c S) = (scheduler_ipi_pending S)(c := False)"
  "table_ok R (ipi_consumed c S) = table_ok R S" "placed (ipi_consumed c S) = placed S"
  "retired_on (ipi_consumed c S) = retired_on S" "joiner_token (ipi_consumed c S) = joiner_token S"
  by (simp_all add: ipi_consumed_def drained_def retired_on_upd_cpu)

lemma consume_scheduler_ipi_ok:
  assumes inv: "sched_inv_at P R S" and ret: "retired (cpus S c) = None"
  shows "consume_scheduler_ipi c S = Some (ipi_consumed c S)" "sched_inv_at P R (ipi_consumed c S)"
    "background_on c S (ipi_consumed c S)"
proof -
  note i = sched_inv_atD [OF inv]
  let ?S = "S\<lparr>scheduler_ipi_pending := (scheduler_ipi_pending S)(c := False)\<rparr>"
  have "drain_remote c (remote_ready ?S c) ?S = Some (drained c ?S)"
  proof (cases "idle (cpus S c)")
    case None
    then have "remote_ready S c = []"
      using cpu_okD(2,11) [OF i(2) [of c, unfolded cpu_inv_def]] by (cases "remote_ready S c") fastforce+
    moreover then have "remote_ready S = (remote_ready S)(c := [])" by auto
    ultimately show ?thesis by (simp add: drained_def upd_cpu_def)
  next
    case (Some w)
    have "queues_ok ?S c" using queues_okI [OF i(2) Some] by (simp add: queues_ok_def)
    moreover have "\<exists>th. lookup ?S y = Some th \<and> home_cpu th = c \<and> tstate th = Ready" if y: "y \<in> set (remote_ready ?S c)" for y
    proof -
      have "y \<in> set (ready_queue (cpus S c)) \<union> set (remote_ready S c)" using y by simp
      then show ?thesis by (rule cpu_inv_queued [OF i(2)]) simp
    qed
    ultimately show ?thesis using i(1) by (intro drain_remote_ok) simp_all
  qed
  then show "consume_scheduler_ipi c S = Some (ipi_consumed c S)"
    using cpu_okD(9) [OF i(2) [of c, unfolded cpu_inv_def]] by (auto simp: consume_scheduler_ipi_def ipi_consumed_def Let_def)
  show "sched_inv_at P R (ipi_consumed c S)"
  proof (rule inv_local [OF inv, where c = c])
    show "cpu_inv (ipi_consumed c S) c"
      using cpu_ok_drain [OF i(2) [of c, unfolded cpu_inv_def] ret] by (simp add: cpu_inv_def)
    show "idle_ok (ipi_consumed c S)" using i(5) by (auto simp: idle_ok_def)
  qed (use i in \<open>simp_all\<close>)
  have "grows S ?S" by simp
  also have "grows ?S (?S\<lparr>remote_ready := (remote_ready ?S)(c := [])\<rparr>)" by (rule grows_frame)
  also have "grows \<dots> (ipi_consumed c S)" unfolding ipi_consumed_def drained_def by (rule grows_frame)
  finally have "grows S (ipi_consumed c S)" .
  then show "background_on c S (ipi_consumed c S)" by (simp add: background_on_def)
qed

section \<open>Direct wakeup from the idle thread\<close>

definition timed_woken :: "cpu_id \<Rightarrow> thread_id \<Rightarrow> thread_id \<Rightarrow> wait_metadata \<Rightarrow> scheduler \<Rightarrow> scheduler" where
  "timed_woken c x y w S = run_next c y (requeue c x (upd_thread y (\<lambda>th. th\<lparr>tstate := Ready\<rparr>) (set_wait y w S)))"

lemma timed_woken_effect:
  assumes x: "lookup S x = Some a" and y: "lookup S y = Some b" and ne: "x \<noteq> y" and idl: "idle (cpus S c) = Some x"
    and seq: "next_sequence (wait_md b) \<le> next_sequence w"
  shows "lookup (timed_woken c x y w S) =
      (lookup S)(x \<mapsto> a\<lparr>tstate := Ready\<rparr>, y \<mapsto> b\<lparr>wait_md := w, tstate := Running\<rparr>)"
    "cpus (timed_woken c x y w S) = (cpus S)(c := (cpus S c)\<lparr>current := Some y\<rparr>)"
    "remote_ready (timed_woken c x y w S) = remote_ready S"
    "scheduler_ipi_pending (timed_woken c x y w S) = scheduler_ipi_pending S"
    "grows S (timed_woken c x y w S)" "joiner_token (timed_woken c x y w S) = joiner_token S"
    "table_ok R (timed_woken c x y w S) \<longleftrightarrow> table_ok R S" "retired_on (timed_woken c x y w S) = retired_on S"
proof -
  let ?S1 = "set_wait y w S" let ?S2 = "upd_thread y (\<lambda>th. th\<lparr>tstate := Ready\<rparr>) ?S1" let ?S3 = "requeue c x ?S2"
  have y1: "lookup ?S1 y = Some (b\<lparr>wait_md := w\<rparr>)" using y by (simp add: lookup_upd_thread)
  have x2: "lookup ?S2 x = Some a" using x y y1 ne by (simp add: lookup_upd_thread)
  have y3: "lookup ?S3 y = Some (b\<lparr>wait_md := w, tstate := Ready\<rparr>)" using x2 y1 ne by (simp add: lookup_upd_thread)
  note r = run_next_frame [OF y3] and q = requeue_frame [OF x2]
  have "grows S ?S1" using y seq by (simp add: grows_upd_thread)
  also have "grows ?S1 ?S2" using y1 by (simp add: grows_upd_thread)
  also have "grows ?S2 ?S3" by (rule q(1))
  also have "grows ?S3 (timed_woken c x y w S)" unfolding timed_woken_def by (rule r(1))
  finally show "grows S (timed_woken c x y w S)" .
  show "lookup (timed_woken c x y w S) = (lookup S)(x \<mapsto> a\<lparr>tstate := Ready\<rparr>, y \<mapsto> b\<lparr>wait_md := w, tstate := Running\<rparr>)"
    unfolding timed_woken_def r(5) q(5) lookup_upd_thread_fun [OF y1] lookup_upd_thread_fun [OF y] using ne by (simp add: fun_eq_iff)
  show "joiner_token (timed_woken c x y w S) = joiner_token S"
    unfolding timed_woken_def r(2) q(2) using y1 y by (simp add: joiner_token_upd_thread)
  show "table_ok R (timed_woken c x y w S) \<longleftrightarrow> table_ok R S" unfolding timed_woken_def r(6) q(6) using y1 y by simp
  show "retired_on (timed_woken c x y w S) = retired_on S" unfolding timed_woken_def r(7) q(7) by simp
  show "cpus (timed_woken c x y w S) = (cpus S)(c := (cpus S c)\<lparr>current := Some y\<rparr>)"
    unfolding timed_woken_def r(8) q(8) using idl by simp
qed (use assms in \<open>simp_all add: timed_woken_def run_next_def requeue_def Let_def\<close>)

lemma timed_woken_inv:
  assumes inv: "sched_inv_at {} R S" and cur: "current (cpus S c) = Some x" and idl: "idle (cpus S c) = Some x"
    and y: "lookup S y = Some b" "home_cpu b = c" "tstate b = Blocked"
    and act: "active (wait_md b) = Some a0" "aw_token a0 = tok" and nj: "\<not> joiner_token S tok"
    and np: "\<And>a. lookup S x = Some a \<Longrightarrow> \<not> wait_is_prepared (wait_md a)"
  shows "sched_inv_at {} R (timed_woken c x y (completed_wait cause (wait_md b)) S)"
proof -
  let ?w = "completed_wait cause (wait_md b)" let ?S = "timed_woken c x y ?w S"
  let ?b = "b\<lparr>wait_md := ?w, tstate := Running\<rparr>"
  note i = sched_inv_atD [OF inv]
  obtain a where a: "lookup S x = Some a" "home_cpu a = c" "tstate a = Running" by (rule cpu_inv_current [OF i(2) cur])
  have ne: "x \<noteq> y" using a y by auto
  note e = timed_woken_effect [OF a(1) y(1) ne idl, of ?w, simplified]
  have place: "placed ?S = (placed S)(x \<mapsto> (c, Ready), y \<mapsto> (c, Running))" using placed_upd2 [OF e(1)] a y by simp
  show ?thesis
  proof (rule inv_local [OF inv, where c = c])
    show "table_ok R ?S" using e(7) i(1) by simp
    show "same_on c' (placed S) (placed ?S)" if "c' \<noteq> c" for c'
      unfolding place by (rule same_on_upd2 [OF a(1,2) y(1,2) that])
    have "placed S y = Some (c, Blocked)" using y by (simp add: placed_def)
    then show "cpu_inv ?S c"
      using cpu_ok_direct_wake [OF i(2) [of c, unfolded cpu_inv_def] cur idl] by (simp add: cpu_inv_def place e)
    show "lookup S z = Some th \<or> thread_ok z th" if "lookup ?S z = Some th" for z th
    proof -
      have "thread_ok x (a\<lparr>tstate := Ready\<rparr>)"
        using i(3) [OF a(1)] np [OF a(1)] a(3) by (intro thread_ok_tstate) (auto simp: thread_ok_def phase_ok_preempt)
      moreover have "thread_ok y ?b" using i(3) [OF y(1)] act
        by (auto simp: thread_ok_def phase_ok_def wait_wf_def completed_wait_def split: wait_consumption.split)
      ultimately show ?thesis using that by (auto simp: e(1) split: if_splits)
    qed
    have "join_ok {} ((lookup S)(x \<mapsto> a\<lparr>tstate := Ready\<rparr>, y \<mapsto> ?b)) (retired_on S)"
    proof (rule join_ok_upd [OF join_ok_tstate [OF i(4) a(1)], of Ready y b])
      fix tok' t tht
      assume w: "waits_as {} b tok'" and t: "((lookup S)(x \<mapsto> a\<lparr>tstate := Ready\<rparr>)) t = Some tht" "joiner tht = Some tok'"
      have "joiner_token S tok'" unfolding joiner_token_def using t a(1) by (cases "t = x") fastforce+
      then show "waits_as {} ?b tok'" using w act nj by (auto simp: waits_as_def)
    qed (use y ne in \<open>simp_all\<close>)
    then show "join_ok {} (lookup ?S) (retired_on ?S)" by (simp add: e)
    show "idle_ok ?S" using i(5) a(1) y(1) by (auto simp: idle_ok_def e split: if_splits)
  qed (simp_all add: e)
qed

text \<open>The shortcut either does nothing or selects the thread; it never panics.\<close>

lemma timed_wake_from_idle_ok:
  assumes inv: "sched_inv_at {} R (sched s)" and cur: "current (cpus (sched s) c) = Some x"
    and nj: "\<not> joiner_token (sched s) tok" and np: "\<And>a. lookup (sched s) x = Some a \<Longrightarrow> \<not> wait_is_prepared (wait_md a)"
  shows "transition_timed_wake_from_idle c tok s = Some (None, s) \<or>
    (\<exists>a b S'. transition_timed_wake_from_idle c tok s = Some (Some (Switch x (wt_thread tok)), s\<lparr>sched := S'\<rparr>) \<and>
      idle (cpus (sched s) c) = Some x \<and> ready_queue (cpus (sched s) c) = [] \<and>
      lookup (sched s) x = Some a \<and> lookup (sched s) (wt_thread tok) = Some b \<and> home_cpu b = c \<and> tstate b = Blocked \<and> x \<noteq> wt_thread tok \<and>
      S' = timed_woken c x (wt_thread tok) (completed_wait Timeout (wait_md b)) (sched s) \<and> sched_inv_at {} R S')"
proof -
  let ?S = "sched s" and ?y = "wt_thread tok"
  note i = sched_inv_atD [OF inv]
  show ?thesis
  proof (cases "sole_wake_possible c x tok ?S = Some True")
    case False
    have "sole_wake_possible c x tok ?S = Some False"
    proof (cases "thread_matches ?y ?S")
      case True
      then obtain th where th: "lookup ?S ?y = Some th" by (auto simp: thread_matches_lookup)
      then show ?thesis using False lookup_thread_at [OF th] by (auto simp: sole_wake_possible_def split: if_splits)
    qed (simp add: sole_wake_possible_def)
    then show ?thesis using cur by (simp add: transition_timed_wake_from_idle_def)
  next
    case True
    then have g: "idle (cpus ?S c) = Some x" "ready_queue (cpus ?S c) = []" "remote_ready ?S c = []" "wt_cpu tok = c" "thread_matches ?y ?S"
      by (auto simp: sole_wake_possible_def split: if_splits)
    obtain b where b: "lookup ?S ?y = Some b" using g(5) by (auto simp: thread_matches_lookup)
    have bh: "home_cpu b = c" "tstate b = Blocked"
      using True g lookup_thread_at [OF b] by (auto simp: sole_wake_possible_def)
    obtain a where a: "lookup ?S x = Some a" "home_cpu a = c" "tstate a = Running" by (rule cpu_inv_current [OF i(2) cur])
    have ne: "x \<noteq> ?y" using a b bh by auto
    obtain a0 where a0: "active (wait_md b) = Some a0" "aw_phase a0 = PhaseBlocked"
      using i(3) [OF b] bh by (auto simp: thread_ok_def phase_ok_def split: option.splits wait_phase.splits)
    have start: "transition_timed_wake_from_idle c tok s = (let (r, w) = wait_complete tok Timeout (wait_md b) in
        if r \<noteq> WokeBlocked then Some (None, s\<lparr>sched := set_wait ?y w ?S\<rparr>)
        else do {
          s \<leftarrow> make_ready_and_queue c x False (s\<lparr>sched := upd_thread ?y (\<lambda>th. th\<lparr>tstate := Ready\<rparr>) (set_wait ?y w ?S)\<rparr>);
          S \<leftarrow> make_running c ?y (sched s);
          Some (Some (Switch x ?y), s\<lparr>sched := S\<rparr>)
        })"
    proof -
      have "lookup (set_wait ?y w ?S) ?y = Some (b\<lparr>wait_md := w\<rparr>)" for w using b by (simp add: lookup_upd_thread)
      note update_thread_lookup [OF this]
      then show ?thesis using cur True assert_current_running_ok [OF i(2) cur]
        by (simp add: transition_timed_wake_from_idle_def lookup_thread_at [OF b] update_thread_lookup [OF b] Let_def split: prod.splits)
    qed
    show ?thesis
    proof (cases "aw_token a0 = tok")
      case False
      then have "wait_complete tok Timeout (wait_md b) = (CompletionStale, wait_md b)" using a0 by (simp add: wait_complete_def)
      then show ?thesis unfolding start using set_wait_same [OF b] by simp
    next
      case tk: True
      let ?w = "completed_wait Timeout (wait_md b)"
      let ?S2 = "upd_thread ?y (\<lambda>th. th\<lparr>tstate := Ready\<rparr>) (set_wait ?y ?w ?S)"
      have wc: "wait_complete tok Timeout (wait_md b) = (WokeBlocked, ?w)"
        using a0 tk by (simp add: wait_complete_def completed_wait_def split: wait_consumption.splits)
      have y1: "lookup (set_wait ?y ?w ?S) ?y = Some (b\<lparr>wait_md := ?w\<rparr>)" using b by (simp add: lookup_upd_thread)
      have x2: "lookup ?S2 x = Some a" using a(1) b y1 ne by (simp add: lookup_upd_thread)
      have mk: "make_ready_and_queue c x False (s\<lparr>sched := ?S2\<rparr>) = Some (s\<lparr>sched := requeue c x ?S2\<rparr>)"
        using make_ready_and_queue_ok [of "s\<lparr>sched := ?S2\<rparr>" c R x a False] queues_okI [OF i(2) g(1)] i(1) b y1 x2 a(2) g by simp
      have run: "make_running c ?y (requeue c x ?S2) = Some (timed_woken c x ?y ?w ?S)" unfolding timed_woken_def
        by (rule make_running_ok [where th = "b\<lparr>wait_md := ?w, tstate := Ready\<rparr>"]) (use x2 y1 bh ne in \<open>simp_all add: lookup_upd_thread\<close>)
      have "transition_timed_wake_from_idle c tok s =
          Some (Some (Switch x ?y), s\<lparr>sched := timed_woken c x ?y ?w ?S\<rparr>)" unfolding start wc by (simp add: mk run)
      moreover have "sched_inv_at {} R (timed_woken c x ?y ?w ?S)"
        by (rule timed_woken_inv [OF inv cur g(1) b bh a0(1) tk nj np])
      ultimately show ?thesis using g a b bh ne by blast
    qed
  qed
qed

section \<open>Publication\<close>

text \<open>The state after a free slot got its identity and its thread.\<close>

definition occupied :: "usize \<Rightarrow> u32 \<Rightarrow> thread \<Rightarrow> scheduler \<Rightarrow> scheduler" where
  "occupied i gen th S = S\<lparr>lifecycle := (lifecycle S)\<lparr>slots := (slots (lifecycle S))
     [i := (slots (lifecycle S) ! i)\<lparr>slot_stack := None, generation := gen, slot_thread := Some th\<rparr>]\<rparr>\<rparr>"

lemma occupied_frame [simp]:
  "cpus (occupied i gen th S) = cpus S" "remote_ready (occupied i gen th S) = remote_ready S"
  "scheduler_ipi_pending (occupied i gen th S) = scheduler_ipi_pending S" "retired_on (occupied i gen th S) = retired_on S"
  "rr_quantum_ms (occupied i gen th S) = rr_quantum_ms S" "queue_room (occupied i gen th S) = queue_room S"
  by (simp_all add: occupied_def retired_on_def fun_eq_iff)

lemma occupied_effect:
  assumes i: "i < length (slots (lifecycle S))" "slot_thread (slots (lifecycle S) ! i) = None"
  shows "lookup (occupied i gen th S) = (lookup S)(ThreadId i gen \<mapsto> th)" "lookup S (ThreadId i g) = None"
    "joiner th = None \<Longrightarrow> joiner_token (occupied i gen th S) = joiner_token S"
    "next_sequence (wait_md th) = next_wait_sequence (slots (lifecycle S) ! i) \<Longrightarrow> grows S (occupied i gen th S)"
    "table_ok R S \<Longrightarrow> i \<in> R \<Longrightarrow> table_ok (R - {i}) (occupied i gen th S)"
proof -
  show none: "lookup S (ThreadId i g) = None" for g using i by (simp add: lookup_def table_get_def idx_def)
  show l: "lookup (occupied i gen th S) = (lookup S)(ThreadId i gen \<mapsto> th)"
  proof
    fix y
    show "lookup (occupied i gen th S) y = ((lookup S)(ThreadId i gen \<mapsto> th)) y"
    proof (cases "tid_index y = i")
      case True
      then obtain g where "y = ThreadId i g" by (cases y) simp
      then show ?thesis using i none [of g] by (auto simp: lookup_def table_get_def idx_def occupied_def)
    next
      case False
      then show ?thesis by (auto simp: lookup_def table_get_def idx_def occupied_def)
    qed
  qed
  show "joiner_token (occupied i gen th S) = joiner_token S" if "joiner th = None"
  proof -
    have "((lookup S)(ThreadId i gen \<mapsto> th)) t = Some b \<and> joiner b = Some tok \<longleftrightarrow> lookup S t = Some b \<and> joiner b = Some tok" for t b tok
      using that none [of gen] by (cases "t = ThreadId i gen") auto
    then show ?thesis by (simp only: fun_eq_iff joiner_token_def l) simp
  qed
  show "grows S (occupied i gen th S)" if "next_sequence (wait_md th) = next_wait_sequence (slots (lifecycle S) ! i)"
  proof -
    have "slot_seq (occupied i gen th S) j = slot_seq S j" if "j < length (slots (lifecycle S))" for j
      using that i \<open>next_sequence (wait_md th) = next_wait_sequence (slots (lifecycle S) ! i)\<close>
      by (cases "j = i") (simp_all add: slot_seq_def occupied_def)
    then show ?thesis by (simp add: grows_def) (simp add: occupied_def)
  qed
  show "table_ok (R - {i}) (occupied i gen th S)" if "table_ok R S" "i \<in> R"
  proof -
    have "{j. j < length (slots (lifecycle S)) \<and> slot_thread (slots (lifecycle (occupied i gen th S)) ! j) = None} =
        {j. j < length (slots (lifecycle S)) \<and> slot_thread (slots (lifecycle S) ! j) = None} - {i}"
      using i by (auto simp: occupied_def nth_list_update)
    then show ?thesis using that i by (auto simp: table_ok_def Let_def occupied_def nth_list_update)
  qed
qed

lemma join_ok_new:
  assumes ok: "join_ok P L ret" and x: "L x = None" "joiner th = None"
  shows "join_ok P (L(x \<mapsto> th)) ret"
proof (rule join_okI)
  fix t tht tok assume "(L(x \<mapsto> th)) t = Some tht" "joiner tht = Some tok"
  then have t: "L t = Some tht" "joiner tht = Some tok" using x by (auto split: if_splits)
  note d = join_okD [OF ok t]
  moreover have "wt_thread tok \<noteq> x" using d(3) x by auto
  ultimately show "joinable tht \<and> (tstate tht = Exited \<longrightarrow> ret (home_cpu tht) = Some t) \<and>
      (\<exists>jt. (L(x \<mapsto> th)) (wt_thread tok) = Some jt \<and> waits_as P jt tok)" by auto
next
  fix t tht t' tht' tok
  assume "(L(x \<mapsto> th)) t = Some tht" "joiner tht = Some tok" "(L(x \<mapsto> th)) t' = Some tht'" "joiner tht' = Some tok"
  then have "L t = Some tht" "joiner tht = Some tok" "L t' = Some tht'" "joiner tht' = Some tok"
    using x by (auto split: if_splits)
  then show "t = t'" by (rule join_okD(4) [OF ok])
qed

text \<open>A free slot is taken from the end of the free list; it stays reserved until its publication.\<close>

definition slot_taken :: "scheduler \<Rightarrow> scheduler" where
  "slot_taken S = S\<lparr>lifecycle := (lifecycle S)\<lparr>free_slots := butlast (free_slots (lifecycle S))\<rparr>\<rparr>"

lemma slot_taken_frame [simp]:
  "lookup (slot_taken S) = lookup S" "cpus (slot_taken S) = cpus S" "remote_ready (slot_taken S) = remote_ready S"
  "scheduler_ipi_pending (slot_taken S) = scheduler_ipi_pending S" "slots (lifecycle (slot_taken S)) = slots (lifecycle S)"
  "placed (slot_taken S) = placed S" "retired_on (slot_taken S) = retired_on S" "idle_ok (slot_taken S) = idle_ok S"
  "joiner_token (slot_taken S) = joiner_token S" "grows S (slot_taken S)"
  by (simp_all add: slot_taken_def lookup_def table_get_def placed_def retired_on_def idle_ok_def joiner_token_def
      grows_def slot_seq_def fun_eq_iff)

lemma take_free_slot_ok:
  assumes inv: "sched_inv_at P R S" and fs: "free_slots (lifecycle S) \<noteq> []"
  defines "i \<equiv> last (free_slots (lifecycle S))"
  shows "take_free_slot S = (Some i, slot_taken S)" "sched_inv_at P (insert i R) (slot_taken S)"
    "i < length (slots (lifecycle S))" "slot_thread (slots (lifecycle S) ! i) = None" "i \<notin> R"
    "\<exists>stack. slot_stack (slots (lifecycle S) ! i) = Some stack"
proof -
  note v = sched_inv_atD [OF inv]
  have split: "free_slots (lifecycle S) = butlast (free_slots (lifecycle S)) @ [i]" using fs by (simp add: i_def)
  then have "i \<in> set (free_slots (lifecycle S))" by (metis in_set_conv_decomp)
  then show i: "i < length (slots (lifecycle S))" "slot_thread (slots (lifecycle S) ! i) = None" "i \<notin> R"
    using v(1) by (auto simp: table_ok_def Let_def)
  then show "\<exists>stack. slot_stack (slots (lifecycle S) ! i) = Some stack" using v(1) by (auto simp: table_ok_def Let_def)
  show "take_free_slot S = (Some i, slot_taken S)" using fs by (simp add: take_free_slot_def slot_taken_def i_def Let_def)
  have d: "distinct (butlast (free_slots (lifecycle S)) @ [i])" "set (butlast (free_slots (lifecycle S))) \<union> {i} = set (free_slots (lifecycle S))"
  proof -
    show "distinct (butlast (free_slots (lifecycle S)) @ [i])" using v(1) split by (simp add: table_ok_def Let_def)
    show "set (butlast (free_slots (lifecycle S))) \<union> {i} = set (free_slots (lifecycle S))" by (subst (2) split) simp
  qed
  have "table_ok (insert i R) (slot_taken S)"
    using v(1) d i unfolding table_ok_def Let_def by (auto simp: slot_taken_def)
  moreover have "cpu_inv (slot_taken S) c" for c using v(2) [of c] by (simp add: cpu_inv_def)
  ultimately show "sched_inv_at P (insert i R) (slot_taken S)"
    using v(3-5) by (intro sched_inv_atI) simp_all
qed

text \<open>A publication may also change what the kernel keeps beside the scheduler, the extension \<open>more\<close>.\<close>

abbreviation with_more :: "'a \<Rightarrow> 'a system_scheme \<Rightarrow> 'a system_scheme" where
  "with_more m \<equiv> system.more_update (\<lambda>_. m)"

lemma with_more_frame [simp]:
  "time_abs (with_more m s) = time_abs s" "time_inv (with_more m s) = time_inv s"
  "current_cpu (with_more m s) = current_cpu s" "events (with_more m s) = events s"
  "dispatching (with_more m s) = dispatching s" "queues_sound (with_more m s) = queues_sound s"
  by (simp_all add: time_abs_def time_inv_def current_cpu_def events_def dispatching_def queues_sound_def fun_eq_iff)

definition arrived :: "cpu_id \<Rightarrow> thread_id \<Rightarrow> cpu_id \<Rightarrow> scheduler \<Rightarrow> scheduler" where
  "arrived c x home S =
     (if home = c then upd_cpu c (\<lambda>k. k\<lparr>ready_queue := ready_queue k @ [x]\<rparr>) S else ingress home x S)"

text \<open>What a publication changes: one thread, and the queue or the ingress of its home.\<close>

definition published :: "cpu_id \<Rightarrow> thread_id \<Rightarrow> thread \<Rightarrow> scheduler \<Rightarrow> scheduler \<Rightarrow> bool" where
  "published c x th S S' \<longleftrightarrow>
     lookup S x = None \<and> lookup S' = (lookup S)(x \<mapsto> th) \<and> grows S S' \<and> joiner_token S' = joiner_token S \<and>
     retired_on S' = retired_on S \<and>
     (\<forall>c'. c' \<noteq> c \<longrightarrow> cpus S' c' = cpus S c') \<and> current (cpus S' c) = current (cpus S c) \<and>
     idle (cpus S' c) = idle (cpus S c) \<and> online (cpus S' c) = online (cpus S c) \<and>
     prefix (ready_queue (cpus S c)) (ready_queue (cpus S' c))"

lemma arrived_inv:
  fixes i :: usize and stack :: kernel_stack and ctx :: trap_frame and gen :: u32 and c :: cpu_id
  assumes inv: "sched_inv_at {} (insert i R) S" and R: "i \<notin> R" and idl: "idle (cpus S home) \<noteq> None"
    and slot: "i < length (slots (lifecycle S))" "slot_thread (slots (lifecycle S) ! i) = None"
    and user: "\<And>u. user = Some u \<Longrightarrow> joins \<and> owner_cpu (res_address_space u) = home" and home: "home < KERNEL_CPU_CAPACITY"
  defines "th \<equiv> new_thread home ctx user joins (next_wait_sequence (slots (lifecycle S) ! i)) stack"
  defines "S' \<equiv> arrived c (ThreadId i gen) home (occupied i gen th S)"
  shows "sched_inv_at {} R S'" "published c (ThreadId i gen) th S S'"
proof -
  let ?x = "ThreadId i gen" and ?O = "occupied i gen th S"
  note v = sched_inv_atD [OF inv] and e = occupied_effect [OF slot]
  have th: "home_cpu th = home" "tstate th = Ready" "joiner th = None" "user_res th = user" "joinable th = joins"
    "wait_md th = with_next_sequence (next_wait_sequence (slots (lifecycle S) ! i))"
    by (simp_all add: th_def new_thread_def)
  have ok: "thread_ok ?x th"
    using user home th by (auto simp: thread_ok_def phase_ok_def with_next_sequence_def wait_wf_def)
  have R': "insert i R - {i} = R" using R by simp
  have t: "table_ok R ?O" using e(5) [OF v(1)] R' by simp
  have l: "lookup S' = (lookup S)(?x \<mapsto> th)" unfolding S'_def by (simp add: arrived_def e(1))
  show "sched_inv_at {} R S'"
  proof (rule wake_inv [OF inv idl _ th(1,2) ok, where ?c0.0 = c and S' = S'])
    show "join_ok {} ((lookup S)(?x \<mapsto> th)) (retired_on S)" by (rule join_ok_new [OF v(4) e(2) th(3)])
    show "table_ok R S'" using t by (simp add: S'_def arrived_def)
  qed (use e(2) l in \<open>simp_all add: S'_def arrived_def\<close>)
  have "grows S ?O" using e(4) th(6) by (simp add: with_next_sequence_def)
  moreover have "grows ?O S'" unfolding S'_def arrived_def by simp
  ultimately have "grows S S'" by (rule grows_trans)
  then show "published c ?x th S S'"
    using e(2,3) th(3) l unfolding published_def by (simp add: S'_def arrived_def retired_on_upd_cpu)
qed

lemma publish_ok:
  fixes i :: usize and stack :: kernel_stack and ctx :: trap_frame and gen :: u32
  assumes inv: "sched_inv_at {} (insert i R) (sched s)" and R: "i \<notin> R" and rdy: "sys_ready c s"
    and room: "card (events s c) < queue_size" and idl: "idle (cpus (sched s) home) \<noteq> None" and home: "home < cpus_registered s"
    and slot: "i < length (slots (lifecycle (sched s)))" "slot_thread (slots (lifecycle (sched s)) ! i) = None"
      "slot_stack (slots (lifecycle (sched s)) ! i) = Some stack"
    and user: "\<And>u. user = Some u \<Longrightarrow> joins \<and> owner_cpu (res_address_space u) = home"
  defines "th \<equiv> new_thread home ctx user joins (next_wait_sequence (slots (lifecycle (sched s)) ! i)) stack"
  assumes cb: "cb (ThreadId i gen) home (map_option res_address_space user) (s\<lparr>sched := occupied i gen th (sched s)\<rparr>) =
      Some ((with_more m s)\<lparr>sched := occupied i gen th (sched s)\<rparr>)"
  shows "\<exists>s'. publish c home i ctx user joins gen False False cb s = Some s' \<and> sched_inv_at {} R (sched s') \<and>
    published c (ThreadId i gen) th (sched s) (sched s') \<and> same_machine (with_more m s) s' \<and> user_spaces s' = user_spaces s \<and>
    adds_quantum c s s' \<and> keeps_quantum c s s'"
proof -
  let ?S = "sched s" and ?x = "ThreadId i gen" let ?O = "occupied i gen th ?S" let ?s1 = "(with_more m s)\<lparr>sched := ?O\<rparr>"
  note v = sched_inv_atD [OF inv] and e = occupied_effect [OF slot(1,2)] and r = sys_readyD [OF rdy]
  have hk: "home < KERNEL_CPU_CAPACITY" using home r(6) by simp
  have a: "sched_inv_at {} R (arrived c ?x home ?O)" "published c ?x th ?S (arrived c ?x home ?O)"
    unfolding th_def by (rule arrived_inv [OF inv R idl slot(1,2) user hk]; assumption)+
  have thh: "home_cpu th = home" by (simp add: th_def new_thread_def)
  obtain w where w: "idle (cpus ?S home) = Some w" using idl by blast
  have x: "lookup ?O ?x = Some th" by (simp add: e(1))
  have q: "queues_ok ?O home"
  proof -
    have "lookup ?O y \<noteq> None" if "lookup ?S y \<noteq> None" for y using that by (simp add: e(1))
    then show ?thesis using queues_okI [OF v(2) w] unfolding queues_ok_def by (auto simp: w)
  qed
  have t: "table_ok (insert i R - {i}) ?O" by (rule e(5) [OF v(1)]) simp
  have nq: "?x \<notin> set (ready_queue (cpus ?S home)) \<union> set (remote_ready ?S home)" "idle (cpus ?S home) \<noteq> Some ?x"
    using cpu_okD(2,4) [OF v(2) [of home, unfolded cpu_inv_def], of ?x] e(2) [of gen] by (auto simp: placed_def)
  have start: "publish c home i ctx user joins gen False False cb s = (if home = c then do {
       S \<leftarrow> ready_push_back c ?x ?O;
       if ready_queue (cpus ?S c) = [] then note_runnable_peer_available c ((with_more m s)\<lparr>sched := S\<rparr>)
       else Some ((with_more m s)\<lparr>sched := S\<rparr>)
     } else publish_remote_ready ?x home ?s1)"
    using slot cb user unfolding publish_def
    by (cases user) (auto simp: idx_def th_def occupied_def Let_def split: option.split)
  let ?s2 = "(with_more m s)\<lparr>sched := arrived c ?x home ?O\<rparr>"
  have m2: "same_machine (with_more m s) ?s2" by (simp add: same_machine_def)
  have qn: "quantum_needed c (arrived c ?x home ?O) = quantum_needed c ?S" if "home \<noteq> c \<or> ready_queue (cpus ?S c) \<noteq> []"
    using that by (auto simp: arrived_def quantum_needed_def split: option.split)
  show ?thesis
  proof (cases "home = c")
    case True
    have push: "ready_push_back c ?x ?O = Some (arrived c ?x home ?O)"
      using ready_push_back_ok [OF q t x thh] nq True by (simp add: arrived_def)
    show ?thesis
    proof (cases "ready_queue (cpus ?S c) = []")
      case empty: True
      obtain s3 where s3: "note_runnable_peer_available c ?s2 = Some s3" "neutral ?s2 s3" "queues_sound s3"
        "events s3 = (events ?s2)(c := quantum_needed c (sched ?s2) \<union> events ?s2 c)" "dispatching s3 = dispatching ?s2"
        using note_peer_view [of ?s2 c] r(1,2) room by auto
      note n = neutralD [OF s3(2)]
      have "same_machine (with_more m s) s3" by (rule same_machine_trans [OF m2 n(1)])
      then show ?thesis unfolding start using True push empty s3 n a
        by (auto simp: adds_quantum_def keeps_quantum_def)
    next
      case False
      then show ?thesis unfolding start using True push m2 a r(1) qn
        by (auto simp: adds_quantum_def keeps_quantum_def fun_upd_idem intro!: exI [of _ "{}"])
    qed
  next
    case False
    obtain l where l: "publish_remote_ready ?x home ?s1 = Some (?s1\<lparr>ipi_sent := l, sched := ingress home ?x ?O\<rparr>)"
      using publish_remote_ready_ok [of ?s1 home "insert i R - {i}" ?x] q t x nq r(3) home by auto
    have arr: "arrived c ?x home ?O = ingress home ?x ?O" using False by (simp add: arrived_def)
    show ?thesis unfolding start using False l a r(1) qn
      by (auto simp: adds_quantum_def keeps_quantum_def fun_upd_idem same_machine_def arr intro!: exI [of _ "{}"])
  qed
qed

end
