(* ===== verification/Sched_System.thy ===== *)
theory Sched_System
  imports Sched_Arrive
begin

text \<open>
  The invariant of the running system: the scheduler's invariant together with its agreement with
  the deadline queues, the quantum events and the installed address spaces. The invariant is
  parameterized by what a CPU in the middle of a switch suspends: \<open>Q c = Some t\<close> when the only
  quantum event that may be queued on \<open>c\<close> is the one of \<open>t\<close>, and \<open>c \<in> U\<close> when the address
  space of \<open>c\<close> is not yet the one of its current thread.
\<close>

section \<open>Deadlines\<close>

text \<open>
  A pending deadline names a wait that its slot already issued, on the CPU of the queue, at most
  one per slot, and never a token on which a thread is joined.
\<close>

definition deadlines_ok :: "'a system_scheme \<Rightarrow> bool" where
  "deadlines_ok s \<longleftrightarrow>
     (\<forall>c<cpus_registered s. \<forall>cpu tok. WaitDeadline cpu tok \<in> events s c \<longrightarrow>
        cpu = c \<and> wt_cpu tok = c \<and> tid_index (wt_thread tok) < length (slots (lifecycle (sched s))) \<and>
        wt_sequence tok \<le> slot_seq (sched s) (tid_index (wt_thread tok)) \<and> \<not> joiner_token (sched s) tok) \<and>
     (\<forall>c<cpus_registered s. \<forall>tok tok'. WaitDeadline c tok \<in> events s c \<longrightarrow> WaitDeadline c tok' \<in> events s c \<longrightarrow>
        tid_index (wt_thread tok) = tid_index (wt_thread tok') \<longrightarrow> tok = tok')"

lemma deadlines_okD:
  assumes "deadlines_ok s" "c < cpus_registered s"
  shows "WaitDeadline cpu tok \<in> events s c \<Longrightarrow> cpu = c \<and> wt_cpu tok = c \<and>
      tid_index (wt_thread tok) < length (slots (lifecycle (sched s))) \<and>
      wt_sequence tok \<le> slot_seq (sched s) (tid_index (wt_thread tok)) \<and> \<not> joiner_token (sched s) tok"
    "WaitDeadline c tok \<in> events s c \<Longrightarrow> WaitDeadline c tok' \<in> events s c \<Longrightarrow>
      tid_index (wt_thread tok) = tid_index (wt_thread tok') \<Longrightarrow> tok = tok'"
  using assms unfolding deadlines_ok_def by blast+

lemma deadlines_okI:
  assumes "\<And>c cpu tok. c < cpus_registered s \<Longrightarrow> WaitDeadline cpu tok \<in> events s c \<Longrightarrow> cpu = c \<and> wt_cpu tok = c \<and>
      tid_index (wt_thread tok) < length (slots (lifecycle (sched s))) \<and>
      wt_sequence tok \<le> slot_seq (sched s) (tid_index (wt_thread tok)) \<and> \<not> joiner_token (sched s) tok"
    "\<And>c tok tok'. c < cpus_registered s \<Longrightarrow> WaitDeadline c tok \<in> events s c \<Longrightarrow> WaitDeadline c tok' \<in> events s c \<Longrightarrow>
      tid_index (wt_thread tok) = tid_index (wt_thread tok') \<Longrightarrow> tok = tok'"
  shows "deadlines_ok s"
  using assms unfolding deadlines_ok_def by blast

text \<open>Sequences grow, joins do not start, and no deadline is added.\<close>

lemma deadlines_ok_mono:
  assumes ok: "deadlines_ok s" and g: "grows (sched s) (sched s')" and n: "cpus_registered s' = cpus_registered s"
    and j: "\<And>tok. joiner_token (sched s') tok \<Longrightarrow> joiner_token (sched s) tok"
    and sub: "\<And>c cpu tok. c < cpus_registered s \<Longrightarrow> WaitDeadline cpu tok \<in> events s' c \<Longrightarrow> WaitDeadline cpu tok \<in> events s c"
  shows "deadlines_ok s'"
proof (rule deadlines_okI)
  fix c cpu tok assume c: "c < cpus_registered s'" and "WaitDeadline cpu tok \<in> events s' c"
  then have e: "WaitDeadline cpu tok \<in> events s c" using sub n by simp
  then have d: "cpu = c \<and> wt_cpu tok = c \<and> tid_index (wt_thread tok) < length (slots (lifecycle (sched s))) \<and>
      wt_sequence tok \<le> slot_seq (sched s) (tid_index (wt_thread tok)) \<and> \<not> joiner_token (sched s) tok"
    using deadlines_okD(1) [OF ok] c n by simp
  then have "slot_seq (sched s) (tid_index (wt_thread tok)) \<le> slot_seq (sched s') (tid_index (wt_thread tok))"
    using g by (simp add: grows_def)
  then show "cpu = c \<and> wt_cpu tok = c \<and> tid_index (wt_thread tok) < length (slots (lifecycle (sched s'))) \<and>
      wt_sequence tok \<le> slot_seq (sched s') (tid_index (wt_thread tok)) \<and> \<not> joiner_token (sched s') tok"
    using d g j by (auto simp: grows_def)
next
  fix c tok tok'
  assume "c < cpus_registered s'" "WaitDeadline c tok \<in> events s' c" "WaitDeadline c tok' \<in> events s' c"
    "tid_index (wt_thread tok) = tid_index (wt_thread tok')"
  then show "tok = tok'" using deadlines_okD(2) [OF ok, of c tok tok'] sub n by simp
qed

section \<open>Quantum events\<close>

definition quanta :: "'a system_scheme \<Rightarrow> cpu_id \<Rightarrow> timed_event set" where
  "quanta s c = {ev \<in> events s c. \<exists>cpu t. ev = QuantumExpired cpu t}"

text \<open>
  Outside a switch the quantum events of a CPU are those of a current thread that has a peer, and
  an online CPU has the event it needs.
\<close>

definition quanta_at :: "thread_id option \<Rightarrow> cpu_id \<Rightarrow> 'a system_scheme \<Rightarrow> bool" where
  "quanta_at q c s \<longleftrightarrow>
     (case q of
        Some t \<Rightarrow> quanta s c \<subseteq> {quantum_expired c t}
      | None \<Rightarrow> quanta s c \<subseteq> quantum_needed c (sched s) \<and>
          (online (cpus (sched s) c) \<longrightarrow> quantum_needed c (sched s) \<subseteq> events s c))"

definition quanta_ok :: "(cpu_id \<Rightarrow> thread_id option) \<Rightarrow> 'a system_scheme \<Rightarrow> bool" where
  "quanta_ok Q s \<longleftrightarrow> (\<forall>c<cpus_registered s. quanta_at (Q c) c s)"

lemma quanta_okD:
  assumes "quanta_ok Q s" "c < cpus_registered s"
  shows "Q c = Some t \<Longrightarrow> quanta s c \<subseteq> {quantum_expired c t}"
    "Q c = None \<Longrightarrow> quanta s c \<subseteq> quantum_needed c (sched s)"
    "Q c = None \<Longrightarrow> online (cpus (sched s) c) \<Longrightarrow> quantum_needed c (sched s) \<subseteq> events s c"
  using assms unfolding quanta_ok_def quanta_at_def by (fastforce split: option.splits)+

text \<open>Only the quantum events of CPU \<open>c\<close> need attention when nothing changed on the others.\<close>

lemma quanta_ok_local:
  assumes ok: "quanta_ok Q s" and n: "cpus_registered s' = cpus_registered s"
    and other: "\<And>c'. c' \<noteq> c \<Longrightarrow> events s' c' = events s c'" "\<And>c'. c' \<noteq> c \<Longrightarrow> cpus (sched s') c' = cpus (sched s) c'"
      "\<And>c'. c' \<noteq> c \<Longrightarrow> Q' c' = Q c'"
    and here: "c < cpus_registered s \<Longrightarrow> quanta_at (Q' c) c s'"
  shows "quanta_ok Q' s'"
  unfolding quanta_ok_def
proof (intro allI impI)
  fix c' assume c': "c' < cpus_registered s'"
  show "quanta_at (Q' c') c' s'"
  proof (cases "c' = c")
    case False
    then have "quantum_needed c' (sched s') = quantum_needed c' (sched s)" using other(2) by (intro quantum_needed_cong) simp
    then have "quanta_at (Q c') c' s' = quanta_at (Q c') c' s"
      using other False by (cases "Q c'") (simp_all add: quanta_at_def quanta_def)
    then show ?thesis using ok c' n other(3) False by (simp add: quanta_ok_def)
  qed (use here c' n in simp)
qed

lemma quanta_ok_cong:
  assumes "quanta_ok Q s" "cpus_registered s' = cpus_registered s" "events s' = events s" "cpus (sched s') = cpus (sched s)"
  shows "quanta_ok Q s'"
proof -
  have "quantum_needed c (sched s') = quantum_needed c (sched s)" for c using assms(4) by (intro quantum_needed_cong) simp
  then have "quanta_at q c s' = quanta_at q c s" for q c using assms by (cases q) (simp_all add: quanta_at_def quanta_def)
  then show ?thesis using assms by (simp add: quanta_ok_def)
qed

text \<open>The queue of a CPU has room: one deadline per slot and one quantum event.\<close>

lemma events_room:
  assumes d: "deadlines_ok s" and q: "quanta_ok Q s" and c: "c < cpus_registered s"
    and len: "length (slots (lifecycle (sched s))) \<le> KERNEL_THREAD_CAPACITY"
  shows "finite (events s c)" "card (events s c) \<le> KERNEL_THREAD_CAPACITY + 1" "card (events s c) < queue_size"
proof -
  let ?D = "{tok. WaitDeadline c tok \<in> events s c}"
  have inj: "inj_on (\<lambda>tok. tid_index (wt_thread tok)) ?D"
    using deadlines_okD(2) [OF d c] by (intro inj_onI) simp
  have sub: "(\<lambda>tok. tid_index (wt_thread tok)) ` ?D \<subseteq> {..<KERNEL_THREAD_CAPACITY}"
    using deadlines_okD(1) [OF d c] len by fastforce
  have fin: "finite ?D" by (rule finite_imageD [OF finite_subset [OF sub] inj]) simp
  have "card ?D \<le> card {..<KERNEL_THREAD_CAPACITY}" by (rule card_inj_on_le [OF inj sub]) simp
  then have cD: "card ?D \<le> KERNEL_THREAD_CAPACITY" by simp
  obtain t where t: "quanta s c \<subseteq> {quantum_expired c t}"
  proof (cases "Q c")
    case None
    then show thesis using that quanta_okD(2) [OF q c]
      by (fastforce simp: quantum_needed_def split: option.splits if_splits)
  next
    case (Some t)
    then show thesis using that quanta_okD(1) [OF q c] by blast
  qed
  have all: "events s c \<subseteq> insert (quantum_expired c t) (WaitDeadline c ` ?D)"
  proof
    fix ev assume ev: "ev \<in> events s c"
    show "ev \<in> insert (quantum_expired c t) (WaitDeadline c ` ?D)"
    proof (cases ev)
      case (WaitDeadline cpu tok)
      then show ?thesis using ev deadlines_okD(1) [OF d c, of cpu tok] by auto
    next
      case (QuantumExpired cpu t')
      then show ?thesis using ev t by (auto simp: quanta_def)
    qed
  qed
  then show "finite (events s c)" using fin by (meson finite_imageI finite_insert finite_subset)
  have "card (events s c) \<le> card (insert (quantum_expired c t) (WaitDeadline c ` ?D))"
    using all fin by (intro card_mono) simp_all
  also have "\<dots> \<le> card (WaitDeadline c ` ?D) + 1" using fin by (simp add: card_insert_if)
  also have "\<dots> \<le> KERNEL_THREAD_CAPACITY + 1" using cD card_image_le [OF fin, of "WaitDeadline c"] by simp
  finally show "card (events s c) \<le> KERNEL_THREAD_CAPACITY + 1" .
  then show "card (events s c) < queue_size"
    by (simp add: queue_size_def KERNEL_THREAD_CAPACITY_def TIMED_EVENT_CAPACITY_PER_THREAD_def)
qed

section \<open>Address spaces\<close>

definition thread_space :: "thread \<Rightarrow> address_space_id option" where
  "thread_space a = map_option res_address_space (user_res a)"

text \<open>The address space usercopy may use on a CPU: the one of the thread that runs there.\<close>

definition user_context :: "cpu_id \<Rightarrow> scheduler \<Rightarrow> address_space_id option" where
  "user_context c S =
     (if online (cpus S c) then do { x \<leftarrow> current (cpus S c); a \<leftarrow> lookup S x; thread_space a } else None)"

text \<open>Roots of address spaces: every thread has its own, and an installed one belongs to a thread of the CPU.\<close>

definition roots_ok :: "scheduler \<Rightarrow> bool" where
  "roots_ok S \<longleftrightarrow>
     (\<forall>x a p. lookup S x = Some a \<longrightarrow> thread_space a = Some p \<longrightarrow> root_pa p \<noteq> NO_ACTIVE_USER_ROOT) \<and>
     (\<forall>x a p y b q. lookup S x = Some a \<longrightarrow> thread_space a = Some p \<longrightarrow> lookup S y = Some b \<longrightarrow> thread_space b = Some q \<longrightarrow>
        root_pa p = root_pa q \<longrightarrow> x = y)"

lemma roots_okD:
  assumes "roots_ok S" "lookup S x = Some a" "thread_space a = Some p"
  shows "root_pa p \<noteq> NO_ACTIVE_USER_ROOT"
    "lookup S y = Some b \<Longrightarrow> thread_space b = Some q \<Longrightarrow> root_pa p = root_pa q \<Longrightarrow> x = y"
  using assms unfolding roots_ok_def by blast+

definition space_live :: "scheduler \<Rightarrow> cpu_id \<Rightarrow> phys_addr \<Rightarrow> bool" where
  "space_live S c root \<longleftrightarrow>
     (\<exists>x a p. lookup S x = Some a \<and> home_cpu a = c \<and> tstate a \<noteq> Exited \<and> thread_space a = Some p \<and> root_pa p = root)"

definition spaces_ok :: "cpu_id set \<Rightarrow> 'a system_scheme \<Rightarrow> bool" where
  "spaces_ok U s \<longleftrightarrow> spaces_inv (user_spaces s) \<and> roots_ok (sched s) \<and>
     (\<forall>c<KERNEL_CPU_CAPACITY. c \<notin> U \<longrightarrow>
        (installed (user_spaces s c) \<noteq> NO_ACTIVE_USER_ROOT \<longrightarrow> space_live (sched s) c (installed (user_spaces s c))) \<and>
        for_usercopy c (user_spaces s c) = user_context c (sched s))"

lemma spaces_okD:
  assumes "spaces_ok U s"
  shows "spaces_inv (user_spaces s)" "roots_ok (sched s)"
    "c < KERNEL_CPU_CAPACITY \<Longrightarrow> c \<notin> U \<Longrightarrow> installed (user_spaces s c) \<noteq> NO_ACTIVE_USER_ROOT \<Longrightarrow>
      space_live (sched s) c (installed (user_spaces s c))"
    "c < KERNEL_CPU_CAPACITY \<Longrightarrow> c \<notin> U \<Longrightarrow> for_usercopy c (user_spaces s c) = user_context c (sched s)"
  using assms unfolding spaces_ok_def by blast+

lemma spaces_okI:
  assumes "spaces_inv (user_spaces s)" "roots_ok (sched s)"
    "\<And>c. c < KERNEL_CPU_CAPACITY \<Longrightarrow> c \<notin> U \<Longrightarrow> installed (user_spaces s c) \<noteq> NO_ACTIVE_USER_ROOT \<Longrightarrow>
      space_live (sched s) c (installed (user_spaces s c))"
    "\<And>c. c < KERNEL_CPU_CAPACITY \<Longrightarrow> c \<notin> U \<Longrightarrow> for_usercopy c (user_spaces s c) = user_context c (sched s)"
  shows "spaces_ok U s"
  using assms unfolding spaces_ok_def by blast

text \<open>The architecture installs every root it is given and can always detach.\<close>

definition arch_ok :: "'a machine_scheme \<Rightarrow> bool" where
  "arch_ok m \<longleftrightarrow> (\<forall>root. root \<noteq> NO_ACTIVE_USER_ROOT \<longrightarrow> arch_activate m root = 0) \<and> arch_clear m = 0"

text \<open>The idle thread keeps the installed root, which then has to belong to a thread of the CPU.\<close>

definition retains_live :: "cpu_id \<Rightarrow> thread_id \<Rightarrow> 'a system_scheme \<Rightarrow> bool" where
  "retains_live c y s \<longleftrightarrow> (idle (cpus (sched s) c) = Some y \<longrightarrow> installed (user_spaces s c) \<noteq> NO_ACTIVE_USER_ROOT \<longrightarrow>
     space_live (sched s) c (installed (user_spaces s c)))"

text \<open>The selection of a thread's address space, for a thread that runs on the executing CPU.\<close>

lemma activate_thread_ok:
  assumes sp: "spaces_ok {c} s" and cpu: "current_cpu s = Some c" and arch: "arch_ok s"
    and inv: "sched_inv_at P R (sched s)"
    and y: "lookup (sched s) y = Some b" "home_cpu b = c" "tstate b \<noteq> Exited"
    and live: "retains_live c y s"
  shows "\<exists>u. activate_thread_address_space c y s = Some (s\<lparr>user_spaces := u\<rparr>) \<and> spaces_inv u \<and>
    (\<forall>c'. c' \<noteq> c \<longrightarrow> u c' = user_spaces s c') \<and> for_usercopy c (u c) = thread_space b \<and>
    (installed (u c) \<noteq> NO_ACTIVE_USER_ROOT \<longrightarrow> space_live (sched s) c (installed (u c)))"
proof -
  let ?sp = "user_spaces s"
  have c: "c < KERNEL_CPU_CAPACITY" using current_cpu_executing [OF cpu] by simp
  note d = spaces_okD [OF sp]
  have asp: "thread_address_space (tid_index y) (sched s) = Some (thread_space b)"
    by (simp add: thread_address_space_def lookup_thread_at [OF y(1)] thread_space_def)
  show ?thesis
  proof (cases "thread_space b")
    case None
    show ?thesis
    proof (cases "idle (cpus (sched s) c) = Some y")
      case True
      let ?u = "?sp(c := (?sp c)\<lparr>user_access := False\<rparr>)"
      have "spaces_inv ?u" using d(1) c by (intro spaces_inv_same_root) simp_all
      then show ?thesis using None True asp cpu live [unfolded retains_live_def]
        by (intro exI [of _ ?u]) (simp add: activate_thread_address_space_def retain_user_address_space_for_idle_def for_usercopy_def)
    next
      case False
      have cl: "vm_result (arch_clear s) = Inr ()" using arch by (simp add: arch_ok_def vm_result_def)
      let ?u = "?sp(c := (?sp c)\<lparr>user_access := False, installed := NO_ACTIVE_USER_ROOT\<rparr>)"
      have eq: "?sp(c := (?sp c)\<lparr>user_access := False\<rparr>) = ?u" if "installed (?sp c) = NO_ACTIVE_USER_ROOT"
        using that by (cases "?sp c") simp
      have "spaces_inv ?u" using d(1) c by (intro spaces_inv_same_root) simp_all
      then show ?thesis using None False asp cpu eq cl
        by (intro exI [of _ ?u])
          (simp add: activate_thread_address_space_def clear_user_address_space_def Let_def for_usercopy_def)
    qed
  next
    case (Some p)
    obtain v where v: "user_res b = Some v" "p = res_address_space v" using Some by (auto simp: thread_space_def)
    have own: "owner_cpu p = c" using sched_inv_atD(3) [OF inv y(1)] v y(2) by (auto simp: thread_ok_def)
    have root: "root_pa p \<noteq> NO_ACTIVE_USER_ROOT" by (rule roots_okD(1) [OF d(2) y(1) Some])
    have nowhere: "\<not> installed_elsewhere c (root_pa p) ?sp"
    proof
      assume "installed_elsewhere c (root_pa p) ?sp"
      then obtain c' where c': "c' < KERNEL_CPU_CAPACITY" "c' \<noteq> c" "installed (?sp c') = root_pa p"
        by (auto simp: installed_elsewhere_def list_ex_iff)
      then obtain x a q where x: "lookup (sched s) x = Some a" "home_cpu a = c'" "thread_space a = Some q" "root_pa q = root_pa p"
        using d(3) [of c'] root by (auto simp: space_live_def)
      then have "x = y" using roots_okD(2) [OF d(2) x(1,3) y(1) Some] by simp
      then show False using x y c'(2) by simp
    qed
    have live': "space_live (sched s) c (root_pa p)" unfolding space_live_def using y Some by blast
    have arc: "vm_result (arch_activate s (root_pa p)) = Inr ()" using arch root by (simp add: arch_ok_def vm_result_def)
    obtain u where act: "activate_user_address_space (arch_activate s) (Some c) p ?sp = (Inr (), u)"
      and u: "u c = \<lparr>installed = root_pa p, user_access = True\<rparr>"
    proof (cases "installed (?sp c) = root_pa p")
      case True
      then have "(?sp c)\<lparr>user_access := True\<rparr> = \<lparr>installed = root_pa p, user_access = True\<rparr>" by (cases "?sp c") simp
      then show thesis using that own True by (simp add: activate_user_address_space_def)
    next
      case False
      then show thesis using that own nowhere arc by (simp add: activate_user_address_space_def Let_def)
    qed
    have "spaces_inv u" by (rule activate_spaces_inv [OF d(1) c root act])
    moreover have "for_usercopy c (u c) = Some p" using u root own by (cases p) (simp add: for_usercopy_def)
    ultimately show ?thesis using Some asp cpu act u live' activate_other [OF act]
      by (intro exI [of _ u]) (simp add: activate_thread_address_space_def)
  qed
qed

section \<open>The system invariant\<close>

definition machine_ok :: "'a system_scheme \<Rightarrow> bool" where
  "machine_ok s \<longleftrightarrow> sched_published s \<and> queues_sound s \<and> cpus_registered s \<le> KERNEL_CPU_CAPACITY \<and>
     (\<forall>c<cpus_registered s. ipi_ok s c) \<and> arch_ok s"

definition sys_inv_at :: "thread_id set \<Rightarrow> (cpu_id \<Rightarrow> thread_id option) \<Rightarrow> cpu_id set \<Rightarrow> 'a system_scheme \<Rightarrow> bool" where
  "sys_inv_at P Q U s \<longleftrightarrow> sched_inv_at P {} (sched s) \<and> machine_ok s \<and> homes_ok s \<and> deadlines_ok s \<and>
     quanta_ok Q s \<and> spaces_ok U s"

definition sys_inv :: "'a system_scheme \<Rightarrow> bool" where
  "sys_inv s \<longleftrightarrow> sys_inv_at {} Map.empty {} s \<and> (\<forall>c<cpus_registered s. \<not> dispatching s c)"

lemma sys_inv_atD:
  assumes "sys_inv_at P Q U s"
  shows "sched_inv_at P {} (sched s)" "machine_ok s" "homes_ok s" "deadlines_ok s" "quanta_ok Q s" "spaces_ok U s"
    "queues_sound s" "sched_published s" "arch_ok s"
  using assms by (simp_all add: sys_inv_at_def machine_ok_def)

lemma sys_inv_ready: "sys_inv_at P Q U s \<Longrightarrow> current_cpu s = Some c \<Longrightarrow> sys_ready c s"
  by (simp add: sys_inv_at_def machine_ok_def sys_ready_def)

lemma machine_ok_next: "machine_ok s \<Longrightarrow> same_machine s s' \<Longrightarrow> queues_sound s' \<Longrightarrow> machine_ok s'"
  by (simp add: machine_ok_def same_machine_def arch_ok_def)

lemma sys_inv_room:
  assumes "sys_inv_at P Q U s" "c < cpus_registered s"
  shows "finite (events s c)" "card (events s c) \<le> KERNEL_THREAD_CAPACITY + 1" "card (events s c) < queue_size"
proof -
  note d = sys_inv_atD [OF assms(1)]
  have "length (slots (lifecycle (sched s))) \<le> KERNEL_THREAD_CAPACITY"
    using sched_inv_atD(1) [OF d(1)] by (simp add: table_ok_def Let_def)
  then show "finite (events s c)" "card (events s c) \<le> KERNEL_THREAD_CAPACITY + 1" "card (events s c) < queue_size"
    using events_room [OF d(4,5) assms(2)] by blast+
qed

lemma current_cpu_less: "current_cpu s = Some c \<Longrightarrow> c < cpus_registered s"
  by (auto simp: current_cpu_def split: if_splits)

text \<open>Background work keeps the whole invariant.\<close>

lemma quantum_needed_prefix:
  assumes "current (cpus S' c) = current (cpus S c)" "prefix (ready_queue (cpus S c)) (ready_queue (cpus S' c))"
  shows "quantum_needed c S \<subseteq> quantum_needed c S'"
  using assms by (auto simp: quantum_needed_def prefix_def split: option.splits if_splits)

lemma quanta_adds:
  assumes "adds_quantum c s s'"
  shows "quanta s' c \<subseteq> quantum_needed c (sched s') \<union> quanta s c"
    "WaitDeadline cpu tok \<in> events s' c' \<Longrightarrow> WaitDeadline cpu tok \<in> events s c'"
    "c' \<noteq> c \<Longrightarrow> events s' c' = events s c'" "queues_sound s'" "dispatching s' = dispatching s"
proof -
  obtain X where X: "X \<subseteq> quantum_needed c (sched s')" "events s' = (events s)(c := X \<union> events s c)"
    and q: "dispatching s' = dispatching s" "queues_sound s'"
    using assms by (auto simp: adds_quantum_def)
  show "quanta s' c \<subseteq> quantum_needed c (sched s') \<union> quanta s c" using X by (auto simp: quanta_def)
  have "WaitDeadline cpu tok \<notin> X" using X(1) by (auto simp: quantum_needed_def quantum_expired_def split: option.splits if_splits)
  then show "WaitDeadline cpu tok \<in> events s' c' \<Longrightarrow> WaitDeadline cpu tok \<in> events s c'"
    using X(2) by (cases "c' = c") auto
  show "c' \<noteq> c \<Longrightarrow> events s' c' = events s c'" using X by simp
  show "queues_sound s'" "dispatching s' = dispatching s" by fact+
qed

lemma spaces_ok_background:
  assumes sp: "spaces_ok U s" and bg: "background c s s'" and inv: "sched_inv_at P R (sched s)"
  shows "spaces_ok U s'"
proof -
  note b = background_onD [OF backgroundD(2) [OF bg]] and d = spaces_okD [OF sp] and u = backgroundD(3) [OF bg]
  have sp_eq: "thread_space a' = thread_space a" if "thread_stays a a'" for a a'
    using that by (simp add: thread_stays_def thread_space_def)
  have old: "\<exists>a. lookup (sched s) x = Some a \<and> thread_space a = thread_space a'" if "lookup (sched s') x = Some a'" for x a'
    using b(3) [OF that] sp_eq by metis
  show ?thesis
  proof (rule spaces_okI)
    show "spaces_inv (user_spaces s')" using d(1) u by simp
    show "roots_ok (sched s')" unfolding roots_ok_def
    proof (intro conjI allI impI)
      fix x a p assume "lookup (sched s') x = Some a" "thread_space a = Some p"
      then show "root_pa p \<noteq> NO_ACTIVE_USER_ROOT" using old roots_okD(1) [OF d(2)] by metis
    next
      fix x a p y b q
      assume "lookup (sched s') x = Some a" "thread_space a = Some p" "lookup (sched s') y = Some b" "thread_space b = Some q"
        "root_pa p = root_pa q"
      then show "x = y" using old roots_okD(2) [OF d(2)] by metis
    qed
  next
    fix c' assume "c' < KERNEL_CPU_CAPACITY" "c' \<notin> U" "installed (user_spaces s' c') \<noteq> NO_ACTIVE_USER_ROOT"
    then obtain x a p where x: "lookup (sched s) x = Some a" "home_cpu a = c'" "tstate a \<noteq> Exited"
      "thread_space a = Some p" "root_pa p = installed (user_spaces s' c')"
      using d(3) [of c'] u by (auto simp: space_live_def)
    obtain a' where a': "lookup (sched s') x = Some a'" "thread_stays a a'" using b(4) [OF x(1,3)] by blast
    then have "home_cpu a' = c'" "tstate a' \<noteq> Exited" "thread_space a' = Some p"
      using x sp_eq [of a a'] by (simp_all add: thread_stays_def)
    then show "space_live (sched s') c' (installed (user_spaces s' c'))" unfolding space_live_def using a'(1) x(5) by blast
  next
    fix c' assume c': "c' < KERNEL_CPU_CAPACITY" "c' \<notin> U"
    have cc: "current (cpus (sched s') c') = current (cpus (sched s) c')" "online (cpus (sched s') c') = online (cpus (sched s) c')"
      using b(5-8) by (cases "c' = c"; simp)+
    have "user_context c' (sched s') = user_context c' (sched s)"
    proof (cases "current (cpus (sched s) c')")
      case (Some x)
      obtain a where a: "lookup (sched s) x = Some a" "tstate a = Running"
        using cpu_inv_current [OF sched_inv_atD(2) [OF inv] Some] by blast
      then obtain a' where "lookup (sched s') x = Some a'" "thread_stays a a'" using b(4) [of x a] by auto
      then show ?thesis using a Some sp_eq [of a a'] cc by (simp add: user_context_def)
    qed (simp add: user_context_def cc)
    then show "for_usercopy c' (user_spaces s' c') = user_context c' (sched s')" using d(4) [OF c'] u by simp
  qed
qed

lemma sys_background:
  assumes inv: "sys_inv_at P Q U s" and bg: "background c s s'" and inv': "sched_inv_at P {} (sched s')"
    and add: "adds_quantum c s s'" and keep: "Q c = None \<Longrightarrow> keeps_quantum c s s'"
    and susp: "Q c \<noteq> None \<Longrightarrow> events s' = events s"
  shows "sys_inv_at P Q U s'"
proof -
  note d = sys_inv_atD [OF inv] and g = backgroundD [OF bg] and b = background_onD [OF backgroundD(2) [OF bg]]
    and q = quanta_adds [OF add]
  have n: "cpus_registered s' = cpus_registered s" using g(1) by (simp add: same_machine_def)
  have "quanta_ok Q s'"
  proof (rule quanta_ok_local [OF d(5) n, where c = c])
    assume c: "c < cpus_registered s"
    have mono: "quantum_needed c (sched s) \<subseteq> quantum_needed c (sched s')" by (rule quantum_needed_prefix [OF b(6,9)])
    show "quanta_at (Q c) c s'"
    proof (cases "Q c")
      case None
      then have "quanta s' c \<subseteq> quantum_needed c (sched s')" using q(1) quanta_okD(2) [OF d(5) c] mono by blast
      moreover have "quantum_needed c (sched s') \<subseteq> events s' c" if "online (cpus (sched s') c)"
        using keep [OF None] quanta_okD(3) [OF d(5) c None] that b(8) by (simp add: keeps_quantum_def)
      ultimately show ?thesis using None by (simp add: quanta_at_def)
    next
      case (Some t)
      then have "events s' = events s" using susp by simp
      then show ?thesis using quanta_okD(1) [OF d(5) c] Some by (simp add: quanta_at_def quanta_def)
    qed
  qed (use q(3) b(5) in simp_all)
  moreover have "machine_ok s'" by (rule machine_ok_next [OF d(2) g(1) q(4)])
  moreover have "deadlines_ok s'" using q(2) by (intro deadlines_ok_mono [OF d(4) b(1) n]) (auto intro: b(2))
  ultimately show ?thesis
    using inv' background_homes [OF d(3) bg] spaces_ok_background [OF d(6) bg d(1)] by (simp add: sys_inv_at_def)
qed

end
