(* ===== verification/Sched_Switch.thy ===== *)
theory Sched_Switch
  imports Sched_System
begin

text \<open>
  A context switch on the executing CPU, in its steps: the scheduler transition, which suspends
  the agreement of the CPU's address space and quantum event with its current thread; the save of
  the outgoing frame; the selection of the address space; and the replacement of the quantum
  event, after which the whole invariant holds again.
\<close>

section \<open>The transition\<close>

text \<open>\<open>E\<close> are the threads that exit in the transition.\<close>

definition switch_on :: "cpu_id \<Rightarrow> thread_id set \<Rightarrow> scheduler \<Rightarrow> scheduler \<Rightarrow> bool" where
  "switch_on c E S S' \<longleftrightarrow>
     grows S S' \<and> (\<forall>tok. joiner_token S' tok \<longrightarrow> joiner_token S tok) \<and>
     (\<forall>z a'. lookup S' z = Some a' \<longrightarrow> (\<exists>a. lookup S z = Some a \<and> home_cpu a' = home_cpu a \<and> user_res a' = user_res a \<and>
        (tstate a' = Exited \<longrightarrow> tstate a = Exited \<or> z \<in> E))) \<and>
     (\<forall>z. lookup S z \<noteq> None \<longrightarrow> lookup S' z \<noteq> None) \<and>
     (\<forall>c'. c' \<noteq> c \<longrightarrow> cpus S' c' = cpus S c') \<and> online (cpus S' c) = online (cpus S c) \<and> idle (cpus S' c) = idle (cpus S c) \<and>
     (\<forall>z\<in>E. \<forall>a. lookup S z = Some a \<longrightarrow> home_cpu a = c)"

lemma switch_onD:
  assumes "switch_on c E S S'"
  shows "grows S S'" "joiner_token S' tok \<Longrightarrow> joiner_token S tok"
    "lookup S' z = Some a' \<Longrightarrow> \<exists>a. lookup S z = Some a \<and> home_cpu a' = home_cpu a \<and> thread_space a' = thread_space a \<and>
       (tstate a' = Exited \<longrightarrow> tstate a = Exited \<or> z \<in> E)"
    "lookup S z = Some a \<Longrightarrow> \<exists>a'. lookup S' z = Some a' \<and> home_cpu a' = home_cpu a \<and> thread_space a' = thread_space a \<and>
       (tstate a' = Exited \<longrightarrow> tstate a = Exited \<or> z \<in> E)"
    "c' \<noteq> c \<Longrightarrow> cpus S' c' = cpus S c'" "online (cpus S' c') = online (cpus S c')" "idle (cpus S' c') = idle (cpus S c')"
    "z \<in> E \<Longrightarrow> lookup S z = Some a \<Longrightarrow> home_cpu a = c"
proof -
  have 3: "\<exists>a. lookup S z = Some a \<and> home_cpu a' = home_cpu a \<and> thread_space a' = thread_space a \<and>
       (tstate a' = Exited \<longrightarrow> tstate a = Exited \<or> z \<in> E)" if "lookup S' z = Some a'" for z a'
  proof -
    have "\<exists>a. lookup S z = Some a \<and> home_cpu a' = home_cpu a \<and> user_res a' = user_res a \<and>
        (tstate a' = Exited \<longrightarrow> tstate a = Exited \<or> z \<in> E)" using assms that unfolding switch_on_def by blast
    then show ?thesis by (auto simp: thread_space_def)
  qed
  then show "lookup S' z = Some a' \<Longrightarrow> \<exists>a. lookup S z = Some a \<and> home_cpu a' = home_cpu a \<and> thread_space a' = thread_space a \<and>
       (tstate a' = Exited \<longrightarrow> tstate a = Exited \<or> z \<in> E)" .
  show "\<exists>a'. lookup S' z = Some a' \<and> home_cpu a' = home_cpu a \<and> thread_space a' = thread_space a \<and>
       (tstate a' = Exited \<longrightarrow> tstate a = Exited \<or> z \<in> E)" if z: "lookup S z = Some a"
  proof -
    have "lookup S' z \<noteq> None" using assms z unfolding switch_on_def by blast
    then obtain a' where a': "lookup S' z = Some a'" by blast
    then show ?thesis using 3 [OF a'] z by auto
  qed
  show "online (cpus S' c') = online (cpus S c')" "idle (cpus S' c') = idle (cpus S c')"
    using assms unfolding switch_on_def by (cases "c' = c"; simp)+
qed (use assms in \<open>simp_all add: switch_on_def\<close>)

lemma switch_on_upd2:
  assumes "lookup S x = Some a" "lookup S y = Some b" "lookup S' = (lookup S)(x \<mapsto> a', y \<mapsto> b')" "x \<noteq> y"
    "home_cpu a' = home_cpu a" "user_res a' = user_res a" "home_cpu b' = home_cpu b" "user_res b' = user_res b"
    "tstate a' = Exited \<Longrightarrow> x \<in> E" "tstate b' \<noteq> Exited" "\<And>z. z \<in> E \<Longrightarrow> z = x" "home_cpu a = c"
    "grows S S'" "joiner_token S' = joiner_token S"
    "\<And>c'. c' \<noteq> c \<Longrightarrow> cpus S' c' = cpus S c'" "online (cpus S' c) = online (cpus S c)" "idle (cpus S' c) = idle (cpus S c)"
  shows "switch_on c E S S'"
  unfolding switch_on_def using assms by (auto split: if_splits)

lemma sys_switch:
  assumes inv: "sys_inv_at P Q U s" and sw: "switch_on c E (sched s) (sched s')" and inv': "sched_inv_at P' {} (sched s')"
    and q: "Q c = Some x \<or> Q c = None \<and> current (cpus (sched s) c) = Some x"
    and m: "same_machine s s'" "events s' = events s" "queues_sound s'" "user_spaces s' = user_spaces s"
  shows "sys_inv_at P' (Q(c \<mapsto> x)) (insert c U) s'"
proof -
  note d = sys_inv_atD [OF inv] and w = switch_onD [OF sw] and u = spaces_okD [OF sys_inv_atD(6) [OF inv]]
  have n: "cpus_registered s' = cpus_registered s" using m(1) by (simp add: same_machine_def)
  have "quanta_ok (Q(c \<mapsto> x)) s'"
  proof (rule quanta_ok_local [OF d(5) n, where c = c])
    assume c: "c < cpus_registered s"
    have "quanta s c \<subseteq> {quantum_expired c x}" using q
    proof
      assume "Q c = None \<and> current (cpus (sched s) c) = Some x"
      then show ?thesis using quanta_okD(2) [OF d(5) c] by (auto simp: quantum_needed_def split: if_splits)
    qed (use quanta_okD(1) [OF d(5) c] in simp)
    then show "quanta_at ((Q(c \<mapsto> x)) c) c s'" using m(2) by (simp add: quanta_at_def quanta_def)
  qed (use m(2) w(5) in simp_all)
  moreover have "deadlines_ok s'" using m(2) w(2) by (intro deadlines_ok_mono [OF d(4) w(1) n]) simp_all
  moreover have "machine_ok s'" by (rule machine_ok_next [OF d(2) m(1,3)])
  moreover have "homes_ok s'" unfolding homes_ok_def
  proof (intro allI impI)
    fix z a' assume "lookup (sched s') z = Some a'"
    then obtain a where "lookup (sched s) z = Some a" "home_cpu a' = home_cpu a" using w(3) by blast
    then show "home_cpu a' < cpus_registered s'" using d(3) n by (auto simp: homes_ok_def)
  qed
  moreover have "spaces_ok (insert c U) s'"
  proof (rule spaces_okI)
    show "spaces_inv (user_spaces s')" using u(1) m(4) by simp
    have old: "\<exists>a. lookup (sched s) z = Some a \<and> thread_space a = thread_space a'" if "lookup (sched s') z = Some a'" for z a'
      using w(3) [OF that] by metis
    show "roots_ok (sched s')" unfolding roots_ok_def
    proof (intro conjI allI impI)
      fix z a p assume "lookup (sched s') z = Some a" "thread_space a = Some p"
      then show "root_pa p \<noteq> NO_ACTIVE_USER_ROOT" using old roots_okD(1) [OF u(2)] by metis
    next
      fix z a p z' b p'
      assume "lookup (sched s') z = Some a" "thread_space a = Some p" "lookup (sched s') z' = Some b" "thread_space b = Some p'"
        "root_pa p = root_pa p'"
      then show "z = z'" using old roots_okD(2) [OF u(2)] by metis
    qed
  next
    fix c' assume c': "c' < KERNEL_CPU_CAPACITY" "c' \<notin> insert c U" "installed (user_spaces s' c') \<noteq> NO_ACTIVE_USER_ROOT"
    then obtain z a p where z: "lookup (sched s) z = Some a" "home_cpu a = c'" "tstate a \<noteq> Exited"
      "thread_space a = Some p" "root_pa p = installed (user_spaces s' c')"
      using u(3) [of c'] m(4) by (auto simp: space_live_def)
    obtain a' where a': "lookup (sched s') z = Some a'" "home_cpu a' = home_cpu a" "thread_space a' = thread_space a"
      "tstate a' = Exited \<longrightarrow> tstate a = Exited \<or> z \<in> E" using w(4) [OF z(1)] by blast
    moreover then have "tstate a' \<noteq> Exited" using z(2,3) w(8) [OF _ z(1)] c'(2) by auto
    ultimately show "space_live (sched s') c' (installed (user_spaces s' c'))" unfolding space_live_def using z by auto
  next
    fix c' assume c': "c' < KERNEL_CPU_CAPACITY" "c' \<notin> insert c U"
    then have k: "cpus (sched s') c' = cpus (sched s) c'" using w(5) by simp
    have "user_context c' (sched s') = user_context c' (sched s)"
    proof (cases "current (cpus (sched s) c')")
      case (Some z)
      obtain a where a: "lookup (sched s) z = Some a" using cpu_inv_current [OF sched_inv_atD(2) [OF d(1)] Some] by blast
      then obtain a' where "lookup (sched s') z = Some a'" "thread_space a' = thread_space a" using w(4) by blast
      then show ?thesis using a Some k by (simp add: user_context_def)
    qed (simp add: user_context_def k)
    then show "for_usercopy c' (user_spaces s' c') = user_context c' (sched s')" using u(4) [of c'] c' m(4) by simp
  qed
  ultimately show ?thesis using inv' by (simp add: sys_inv_at_def)
qed

text \<open>Without an exit, an installed root keeps its thread.\<close>

lemma space_live_switch:
  assumes sw: "switch_on c {} S S'" and live: "space_live S c' root"
  shows "space_live S' c' root"
proof -
  obtain z a p where z: "lookup S z = Some a" "home_cpu a = c'" "tstate a \<noteq> Exited" "thread_space a = Some p" "root_pa p = root"
    using live by (auto simp: space_live_def)
  obtain a' where "lookup S' z = Some a'" "home_cpu a' = home_cpu a" "thread_space a' = thread_space a"
    "tstate a' = Exited \<longrightarrow> tstate a = Exited" using switch_onD(4) [OF sw z(1)] by blast
  then show ?thesis unfolding space_live_def using z by auto
qed

section \<open>Saving and selecting\<close>

lemma space_live_upd_thread:
  assumes "space_live S c r" "lookup S x = Some a" "home_cpu (f a) = home_cpu a" "tstate (f a) = tstate a" "user_res (f a) = user_res a"
  shows "space_live (upd_thread x f S) c r"
proof -
  obtain z b p where "lookup S z = Some b" "home_cpu b = c" "tstate b \<noteq> Exited" "thread_space b = Some p" "root_pa p = r"
    using assms(1) by (auto simp: space_live_def)
  then show ?thesis unfolding space_live_def lookup_upd_thread_fun [OF assms(2)] using assms(2-5)
    by (intro exI [of _ z] exI [of _ "if z = x then f a else b"]) (auto simp: thread_space_def)
qed

lemma sys_upd_thread:
  assumes inv: "sys_inv_at P Q U s" and a: "lookup (sched s) x = Some a" and ok: "thread_ok x (f a)"
    and keep: "home_cpu (f a) = home_cpu a" "tstate (f a) = tstate a" "joiner (f a) = joiner a" "joinable (f a) = joinable a"
      "user_res (f a) = user_res a" "next_sequence (wait_md a) \<le> next_sequence (wait_md (f a))"
    and wait: "\<And>tok. waits_as P a tok \<Longrightarrow> joiner_token (sched s) tok \<Longrightarrow> waits_as P (f a) tok"
  shows "sys_inv_at P Q U (s\<lparr>sched := upd_thread x f (sched s)\<rparr>)"
proof -
  let ?S = "upd_thread x f (sched s)" and ?s = "s\<lparr>sched := upd_thread x f (sched s)\<rparr>"
  note d = sys_inv_atD [OF inv] and l = lookup_upd_thread_fun [OF a, of f]
  have inv': "sched_inv_at P {} ?S" using ok keep wait by (intro upd_inv [OF d(1) a]) simp_all
  have g: "grows (sched s) (sched ?s)" using a keep(6) by (simp add: grows_upd_thread)
  have "quanta_ok Q ?s" by (rule quanta_ok_cong [OF d(5)]) simp_all
  moreover have "deadlines_ok ?s" using a keep(3)
    by (intro deadlines_ok_mono [OF d(4) g]) (simp_all add: joiner_token_upd_thread)
  moreover have "homes_ok ?s" using d(3) a keep(1) by (auto simp: homes_ok_def l)
  moreover have "machine_ok ?s" using d(2,7) by (intro machine_ok_next [OF d(2)]) simp_all
  moreover have "spaces_ok U ?s"
  proof -
    note u = spaces_okD [OF d(6)]
    have ts: "thread_space (f a) = thread_space a" using keep(5) by (simp add: thread_space_def)
    have "roots_ok ?S" using u(2) a ts unfolding roots_ok_def l by (auto split: if_splits)
    moreover have "space_live (sched s) c r \<Longrightarrow> space_live ?S c r" for c r
      using a keep(1,2,5) by (intro space_live_upd_thread [of "sched s"]) simp_all
    moreover have "user_context c ?S = user_context c (sched s)" for c
      using a ts by (cases "current (cpus (sched s) c)") (simp_all add: user_context_def l)
    ultimately show ?thesis using u by (intro spaces_okI) simp_all
  qed
  ultimately show ?thesis using inv' by (simp add: sys_inv_at_def)
qed

lemma sys_save_context:
  fixes live :: trap_frame
  assumes inv: "sys_inv_at P Q U s" and a: "lookup (sched s) x = Some a"
  defines "S \<equiv> upd_thread x (\<lambda>th. th\<lparr>saved_ctx := save_from (saved_ctx th) live\<rparr>) (sched s)"
  shows "save_context x live (sched s) = Some S" "sys_inv_at P Q U (s\<lparr>sched := S\<rparr>)"
proof -
  show "save_context x live (sched s) = Some S" by (simp add: save_context_def update_thread_lookup [OF a] S_def)
  show "sys_inv_at P Q U (s\<lparr>sched := S\<rparr>)" unfolding S_def
    by (rule sys_upd_thread [OF inv a])
      (use sched_inv_atD(3) [OF sys_inv_atD(1) [OF inv] a] in \<open>simp_all add: thread_ok_def waits_as_def\<close>)
qed

lemma sys_activate:
  assumes inv: "sys_inv_at P Q {c} s" and cpu: "current_cpu s = Some c"
    and cur: "current (cpus (sched s) c) = Some y" and onl: "online (cpus (sched s) c)"
    and live: "retains_live c y s"
  shows "\<exists>u. activate_thread_address_space c y s = Some (s\<lparr>user_spaces := u\<rparr>) \<and> sys_inv_at P Q {} (s\<lparr>user_spaces := u\<rparr>)"
proof -
  note d = sys_inv_atD [OF inv]
  obtain b where b: "lookup (sched s) y = Some b" "home_cpu b = c" "tstate b = Running"
    by (rule cpu_inv_current [OF sched_inv_atD(2) [OF d(1)] cur])
  then have "tstate b \<noteq> Exited" by simp
  then obtain u where u: "activate_thread_address_space c y s = Some (s\<lparr>user_spaces := u\<rparr>)" "spaces_inv u"
    "\<And>c'. c' \<noteq> c \<Longrightarrow> u c' = user_spaces s c'" "for_usercopy c (u c) = thread_space b"
    "installed (u c) \<noteq> NO_ACTIVE_USER_ROOT \<Longrightarrow> space_live (sched s) c (installed (u c))"
    using activate_thread_ok [OF d(6) cpu d(9) d(1) b(1,2)] live by blast
  have ctx: "user_context c (sched s) = thread_space b" using cur onl b(1) by (simp add: user_context_def)
  have "spaces_ok {} (s\<lparr>user_spaces := u\<rparr>)"
  proof (rule spaces_okI)
    fix c' assume c': "c' < KERNEL_CPU_CAPACITY" "installed (user_spaces (s\<lparr>user_spaces := u\<rparr>) c') \<noteq> NO_ACTIVE_USER_ROOT"
    then show "space_live (sched (s\<lparr>user_spaces := u\<rparr>)) c' (installed (user_spaces (s\<lparr>user_spaces := u\<rparr>) c'))"
      using u(3,5) spaces_okD(3) [OF d(6), of c'] by (cases "c' = c") simp_all
  next
    fix c' assume "c' < KERNEL_CPU_CAPACITY"
    then show "for_usercopy c' (user_spaces (s\<lparr>user_spaces := u\<rparr>) c') = user_context c' (sched (s\<lparr>user_spaces := u\<rparr>))"
      using u(3,4) ctx spaces_okD(4) [OF d(6), of c'] by (cases "c' = c") simp_all
  qed (use u(2) spaces_okD(2) [OF d(6)] in simp_all)
  moreover have "quanta_ok Q (s\<lparr>user_spaces := u\<rparr>)" by (rule quanta_ok_cong [OF d(5)]) simp_all
  moreover have "deadlines_ok (s\<lparr>user_spaces := u\<rparr>)" "homes_ok (s\<lparr>user_spaces := u\<rparr>)"
    using d(3,4) by (simp_all add: deadlines_ok_def homes_ok_def)
  moreover have "machine_ok (s\<lparr>user_spaces := u\<rparr>)" using d(7) by (intro machine_ok_next [OF d(2)]) simp_all
  ultimately show ?thesis using u(1) d(1) by (auto simp: sys_inv_at_def)
qed

section \<open>Quantum events\<close>

lemma sys_neutral:
  assumes inv: "sys_inv_at P Q U s" and n: "neutral s s'" and q: "queues_sound s'"
    and dl: "\<And>c cpu tok. WaitDeadline cpu tok \<in> events s' c \<Longrightarrow> WaitDeadline cpu tok \<in> events s c"
    and ok: "quanta_ok Q' s'"
  shows "sys_inv_at P Q' U s'"
proof -
  note d = sys_inv_atD [OF inv] and e = neutralD [OF n]
  have reg: "cpus_registered s' = cpus_registered s" using e(1) by (simp add: same_machine_def)
  have "deadlines_ok s'" using dl e(2) by (intro deadlines_ok_mono [OF d(4) _ reg]) simp_all
  moreover have "spaces_ok U s'" using d(6) e(2,3) by (simp add: spaces_ok_def)
  moreover have "homes_ok s'" using d(3) e(2) reg by (simp add: homes_ok_def)
  moreover have "machine_ok s'" by (rule machine_ok_next [OF d(2) e(1) q])
  ultimately show ?thesis using d(1) ok e(2) by (simp add: sys_inv_at_def)
qed

text \<open>A neutral call that keeps the queued events.\<close>

lemma sys_neutral_events:
  assumes inv: "sys_inv_at P Q U s" and n: "neutral s s'" and e: "events s' = events s" and q: "queues_sound s'"
  shows "sys_inv_at P Q U s'"
proof (rule sys_neutral [OF inv n q])
  have "cpus_registered s' = cpus_registered s" using neutralD(1) [OF n] by (simp add: same_machine_def)
  then show "quanta_ok Q s'" using e neutralD(2) [OF n] by (intro quanta_ok_cong [OF sys_inv_atD(5) [OF inv]]) simp_all
qed (simp add: e)

lemma sys_cancel_quantum:
  assumes inv: "sys_inv_at P Q U s" and Q: "Q c = Some x" and cpu: "current_cpu s = Some c"
  shows "\<exists>s'. cancel_event (quantum_expired c x) s = Some s' \<and> neutral s s' \<and> sys_inv_at P Q U s' \<and>
    quanta s' c = {} \<and> dispatching s' = dispatching s"
proof -
  note d = sys_inv_atD [OF inv] and c = current_cpu_less [OF cpu]
  obtain s' where s': "cancel_event (quantum_expired c x) s = Some s'" "time_only s s'" "queues_sound s'"
    "events s' = (events s)(c := events s c - {quantum_expired c x})" "dispatching s' = dispatching s"
    using cancel_event_view [OF d(7) cpu quantum_expired_cpu c] by blast
  have empty: "quanta s' c = {}" using quanta_okD(1) [OF d(5) c Q] s'(4) by (auto simp: quanta_def)
  have n: "neutral s s'" by (rule time_only_neutral [OF s'(2)])
  have reg: "cpus_registered s' = cpus_registered s" using neutralD(1) [OF n] by (simp add: same_machine_def)
  have "quanta_ok Q s'"
    by (rule quanta_ok_local [OF d(5) reg, where c = c]) (use s'(4) neutralD(2) [OF n] empty Q in \<open>simp_all add: quanta_at_def\<close>)
  then have "sys_inv_at P Q U s'" using s'(4) by (intro sys_neutral [OF inv n s'(3)]) (auto split: if_splits)
  then show ?thesis using s'(1,5) n empty by blast
qed

lemma sys_ensure_quantum:
  assumes inv: "sys_inv_at P Q U s" and empty: "quanta s c = {}" and cpu: "current_cpu s = Some c"
  shows "\<exists>s'. ensure_quantum_event c s = Some s' \<and> neutral s s' \<and> sys_inv_at P (Q(c := None)) U s' \<and> dispatching s' = dispatching s"
proof -
  note d = sys_inv_atD [OF inv] and c = current_cpu_less [OF cpu]
  obtain s' where s': "ensure_quantum_event c s = Some s'" "time_only s s'" "queues_sound s'"
    "events s' = (events s)(c := quantum_needed c (sched s) \<union> events s c)" "dispatching s' = dispatching s"
    using ensure_quantum_view [OF d(7) cpu sys_inv_room(3) [OF inv c]] by blast
  have n: "neutral s s'" by (rule time_only_neutral [OF s'(2)])
  note e = neutralD [OF n]
  have reg: "cpus_registered s' = cpus_registered s" using e(1) by (simp add: same_machine_def)
  have "quanta_ok (Q(c := None)) s'"
    by (rule quanta_ok_local [OF d(5) reg, where c = c])
      (use s'(4) e(2) empty in \<open>auto simp: quanta_at_def quanta_def\<close>)
  moreover have "WaitDeadline cpu tok \<notin> quantum_needed c (sched s)" for cpu tok
    by (auto simp: quantum_needed_def quantum_expired_def split: option.splits)
  ultimately have "sys_inv_at P (Q(c := None)) U s'"
    using s'(4) by (intro sys_neutral [OF inv n s'(3)]) (auto split: if_splits)
  then show ?thesis using s'(1,5) n by blast
qed

lemma sys_replace_quantum:
  assumes inv: "sys_inv_at P Q U s" and Q: "Q c = Some x" and cpu: "current_cpu s = Some c"
  shows "\<exists>s'. replace_quantum_event c x s = Some s' \<and> neutral s s' \<and> sys_inv_at P (Q(c := None)) U s' \<and> dispatching s' = dispatching s"
proof -
  obtain s1 where s1: "cancel_event (quantum_expired c x) s = Some s1" "neutral s s1" "sys_inv_at P Q U s1" "quanta s1 c = {}"
    "dispatching s1 = dispatching s" using sys_cancel_quantum [OF assms] by blast
  have "current_cpu s1 = Some c" using neutralD(5) [OF s1(2)] cpu by simp
  then obtain s2 where "ensure_quantum_event c s1 = Some s2" "neutral s1 s2" "sys_inv_at P (Q(c := None)) U s2"
    "dispatching s2 = dispatching s1" using sys_ensure_quantum [OF s1(3,4)] by blast
  then show ?thesis using s1 neutral_trans [OF s1(2)] by (auto simp: replace_quantum_event_def)
qed

section \<open>Handoff\<close>

lemma sys_suspend:
  assumes inv: "sys_inv_at P Q U s" and q: "Q c = Some x \<or> Q c = None \<and> current (cpus (sched s) c) = Some x"
  shows "sys_inv_at P (Q(c \<mapsto> x)) U s"
proof -
  note d = sys_inv_atD [OF inv]
  have "quanta_ok (Q(c \<mapsto> x)) s"
  proof (rule quanta_ok_local [OF d(5) refl, where c = c])
    assume c: "c < cpus_registered s"
    show "quanta_at ((Q(c \<mapsto> x)) c) c s" using q
    proof
      assume "Q c = None \<and> current (cpus (sched s) c) = Some x"
      then show ?thesis using quanta_okD(2) [OF d(5) c] by (auto simp: quanta_at_def quantum_needed_def split: if_splits)
    qed (use quanta_okD(1) [OF d(5) c] in \<open>simp add: quanta_at_def\<close>)
  qed simp_all
  then show ?thesis using inv by (simp add: sys_inv_at_def)
qed

lemma sys_handoff:
  fixes live :: trap_frame
  assumes inv: "sys_inv_at P Q {c} s" and cpu: "current_cpu s = Some c"
    and cur: "current (cpus (sched s) c) = Some y" and onl: "online (cpus (sched s) c)"
    and x: "lookup (sched s) x = Some a"
    and space: "retains_live c y s"
  defines "S' \<equiv> upd_thread x (\<lambda>th. th\<lparr>saved_ctx := save_from (saved_ctx th) live\<rparr>) (sched s)"
  obtains u b where "handoff_selected c live (Switch x y) s = Some (restore_into (saved_ctx b) live, s\<lparr>sched := S', user_spaces := u\<rparr>)"
    "lookup S' y = Some b" "sys_inv_at P Q {} (s\<lparr>sched := S', user_spaces := u\<rparr>)"
proof -
  let ?s1 = "s\<lparr>sched := S'\<rparr>"
  note sv = sys_save_context [OF inv x, of live, folded S'_def]
  have "retains_live c y ?s1"
    using space space_live_upd_thread [OF _ x, of c _ "\<lambda>th. th\<lparr>saved_ctx := save_from (saved_ctx th) live\<rparr>"]
    by (simp add: S'_def retains_live_def)
  then obtain u where u: "activate_thread_address_space c y ?s1 = Some (?s1\<lparr>user_spaces := u\<rparr>)" "sys_inv_at P Q {} (?s1\<lparr>user_spaces := u\<rparr>)"
    using sys_activate [OF sv(2), of y] cpu cur onl by (auto simp: S'_def)
  have "current (cpus S' c) = Some y" using cur by (simp add: S'_def)
  then obtain b where b: "lookup S' y = Some b"
    using cpu_inv_current [OF sched_inv_atD(2) [OF sys_inv_atD(1) [OF sv(2)]], of c y] by auto
  then show thesis using that [OF _ b, of u] sv(1) u by (simp add: handoff_selected_def saved_context_of_def lookup_thread_at [OF b])
qed

text \<open>A switch between ready threads on an online CPU.\<close>

lemma switched_on:
  assumes inv: "sched_inv_at P R S" and cur: "current (cpus S c) = Some x" and ready: "ready_queue (cpus S c) = y # rest"
  shows "switch_on c {} S (switched c x y S)"
proof -
  obtain a b where a: "lookup S x = Some a" "home_cpu a = c" "tstate a = Running"
    and b: "lookup S y = Some b" "home_cpu b = c" "tstate b = Ready" and ne: "x \<noteq> y"
    by (rule switch_threads [OF sched_inv_atD(2) [OF inv] cur ready])
  note e = switched_effect [OF a(1) b(1) ne ready]
  show ?thesis by (rule switch_on_upd2 [OF a(1) b(1) e(1) ne]) (use a e in simp_all)
qed

text \<open>No interrupt or checkpoint runs on a CPU between the preparation and the commit of a wait.\<close>

definition settled :: "cpu_id \<Rightarrow> scheduler \<Rightarrow> bool" where
  "settled c S \<longleftrightarrow> (\<forall>x a. current (cpus S c) = Some x \<longrightarrow> lookup S x = Some a \<longrightarrow> \<not> wait_is_prepared (wait_md a))"

lemma settled_background:
  assumes "settled c S" "background_on c S S'"
  shows "settled c S'"
proof -
  note b = background_onD [OF assms(2)]
  have "\<not> wait_is_prepared (wait_md a')" if x: "current (cpus S' c) = Some x" "lookup S' x = Some a'" for x a'
  proof -
    obtain a where "lookup S x = Some a" "thread_stays a a'" using b(3) [OF x(2)] by blast
    then show ?thesis using assms(1) x(1) b(6) by (auto simp: settled_def thread_stays_def)
  qed
  then show ?thesis by (simp add: settled_def)
qed

lemma sys_handoff_optional:
  assumes inv: "sys_inv_at {} Q {} s" and cpu: "current_cpu s = Some c" and onl: "online (cpus (sched s) c)"
    and cur: "current (cpus (sched s) c) = Some x" and st: "settled c (sched s)"
    and q: "Q c = None \<or> Q c = Some x"
  shows "\<exists>live' s'. handoff_optional c live s = Some (live', s') \<and> sys_inv_at {} (Q(c \<mapsto> x)) {} s' \<and> same_machine s s' \<and>
    events s' = events s \<and> dispatching s' = dispatching s \<and> online (cpus (sched s') c)"
proof (cases "ready_queue (cpus (sched s) c)")
  case Nil
  have "handoff_optional c live s = Some (live, s)"
    using transition_optional_switch_ok(1) [OF sys_inv_atD(1) [OF inv] cur Nil] by (simp add: handoff_optional_def handoff_selected_def)
  then show ?thesis using sys_suspend [OF inv, of c x] q cur onl by auto
next
  case (Cons y rest)
  let ?S = "switched c x y (sched s)" let ?s1 = "s\<lparr>sched := ?S\<rparr>"
  note d = sys_inv_atD [OF inv]
  have np: "\<not> wait_is_prepared (wait_md a)" if "lookup (sched s) x = Some a" for a using st cur that by (simp add: settled_def)
  have tr: "transition_optional_switch c s = Some (Switch x y, ?s1)" by (rule transition_optional_switch_ok(2) [OF d(1) cur Cons])
  have sw: "switch_on c {} (sched s) ?S" by (rule switched_on [OF d(1) cur Cons])
  have inv1: "sched_inv_at {} {} (sched ?s1)" using switched_inv [OF d(1) cur Cons np] by simp
  have s1: "sys_inv_at {} (Q(c \<mapsto> x)) {c} ?s1"
    using sw q cur d(7) by (intro sys_switch [OF inv _ inv1]) auto
  obtain a b where a: "lookup (sched s) x = Some a" and b: "lookup (sched s) y = Some b" and ne: "x \<noteq> y"
    by (rule switch_threads [OF sched_inv_atD(2) [OF d(1)] cur Cons])
  note e = switched_effect [OF a b ne Cons]
  have x1: "lookup (sched ?s1) x = Some (a\<lparr>tstate := Ready\<rparr>)" using ne by (simp add: e)
  have lv: "retains_live c y ?s1"
    using space_live_switch [OF sw] spaces_okD(3) [OF d(6)] current_cpu_executing [OF cpu] by (simp add: retains_live_def)
  have "current_cpu ?s1 = Some c" "current (cpus (sched ?s1) c) = Some y" "online (cpus (sched ?s1) c)"
    using cpu onl by (simp_all add: e)
  then obtain u b' where h: "handoff_selected c live (Switch x y) ?s1 = Some (restore_into (saved_ctx b') live,
        ?s1\<lparr>sched := upd_thread x (\<lambda>th. th\<lparr>saved_ctx := save_from (saved_ctx th) live\<rparr>) (sched ?s1), user_spaces := u\<rparr>)"
      "lookup (upd_thread x (\<lambda>th. th\<lparr>saved_ctx := save_from (saved_ctx th) live\<rparr>) (sched ?s1)) y = Some b'"
      "sys_inv_at {} (Q(c \<mapsto> x)) {} (?s1\<lparr>sched := upd_thread x (\<lambda>th. th\<lparr>saved_ctx := save_from (saved_ctx th) live\<rparr>) (sched ?s1), user_spaces := u\<rparr>)"
    by (rule sys_handoff [OF s1 _ _ _ x1 lv])
  then have "handoff_optional c live s = Some (restore_into (saved_ctx b') live,
        s\<lparr>sched := upd_thread x (\<lambda>th. th\<lparr>saved_ctx := save_from (saved_ctx th) live\<rparr>) ?S, user_spaces := u\<rparr>)"
    using tr by (simp add: handoff_optional_def)
  then show ?thesis using h(3) onl by (simp add: e same_machine_def)
qed

end
