(* ===== verification/Sched_Entry.thy ===== *)
theory Sched_Entry
  imports Sched_Switch
begin

text \<open>
  The scheduler entries that a CPU takes between instructions of a thread: the preemption
  checkpoint, the scheduler interrupt and the timer interrupt. None of them panics in a state that
  satisfies the invariant, and each keeps it.
\<close>

definition kept :: "'a system_scheme \<Rightarrow> 'a system_scheme \<Rightarrow> bool" where
  "kept s s' \<longleftrightarrow> same_machine s s' \<and> dispatching s' = dispatching s"

lemma keptD:
  assumes "kept s s'"
  shows "same_machine s s'" "dispatching s' = dispatching s" "current_cpu s' = current_cpu s" "cpus_registered s' = cpus_registered s"
  using assms same_machine_cpu [of s s'] by (simp_all add: kept_def same_machine_def)

lemma kept_refl [simp]: "kept s s"
  by (simp add: kept_def)

lemma kept_trans [trans]: "kept s s1 \<Longrightarrow> kept s1 s2 \<Longrightarrow> kept s s2"
  by (auto simp: kept_def intro: same_machine_trans)

lemma kept_neutral: "neutral s s' \<Longrightarrow> dispatching s' = dispatching s \<Longrightarrow> kept s s'"
  by (simp add: kept_def neutral_def)

lemma kept_background: "background c s s' \<Longrightarrow> kept s s'"
  by (simp add: kept_def background_def)

lemma sys_invI: "sys_inv_at {} Map.empty {} s' \<Longrightarrow> sys_inv s \<Longrightarrow> kept s s' \<Longrightarrow> sys_inv s'"
  by (simp add: sys_inv_def kept_def same_machine_def)

lemma online_current:
  assumes "sys_inv_at P Q U s" "online (cpus (sched s) c)"
  obtains x where "current (cpus (sched s) c) = Some x"
  using cpu_okD(8) [OF sched_inv_atD(2) [OF sys_inv_atD(1) [OF assms(1)], of c, unfolded cpu_inv_def]] assms(2) by auto

section \<open>Finalization\<close>

lemma sys_finalize:
  assumes inv: "sys_inv_at {} Q U s" and cpu: "current_cpu s = Some c" and Q: "Q c = None \<longleftrightarrow> notify"
  shows "\<exists>s'. finalize_retired c notify s = Some s' \<and> sys_inv_at {} Q U s' \<and> background c s s' \<and>
    retired (cpus (sched s') c) = None \<and> (\<not> notify \<longrightarrow> events s' = events s)"
proof -
  note d = sys_inv_atD [OF inv]
  obtain s' where s': "finalize_retired c notify s = Some s'" "sched_inv_at {} {} (sched s')" "background c s s'"
    "retired (cpus (sched s') c) = None" "adds_quantum c s s'" "notify \<longrightarrow> keeps_quantum c s s'" "\<not> notify \<longrightarrow> events s' = events s"
    using finalize_retired_ok [OF d(1) sys_inv_ready [OF inv cpu] sys_inv_room(3) [OF inv current_cpu_less [OF cpu]], of notify] by blast
  have "sys_inv_at {} Q U s'" using Q s'(6,7) by (intro sys_background [OF inv s'(3,2,5)]) auto
  then show ?thesis using s' by blast
qed

section \<open>Checkpoints\<close>

lemma checkpoint_switch_ok:
  assumes inv: "sys_inv_at {} Map.empty {} s" and cpu: "current_cpu s = Some c" and st: "settled c (sched s)"
  shows "\<exists>live' s'. checkpoint_switch c live s = Some (live', s') \<and> sys_inv_at {} Map.empty {} s' \<and> kept s s'"
proof -
  note d = sys_inv_atD [OF inv]
  obtain r s1 where s1: "consume_checkpoint_on c (online (cpus (sched s) c)) s = Some (r, s1)" "neutral s s1" "queues_sound s1"
    "events s1 = events s" "dispatching s1 = dispatching s" "r \<longrightarrow> online (cpus (sched s) c)"
    using consume_checkpoint_on_view [OF cpu, of "online (cpus (sched s) c)"] d(7) by blast
  note n = neutralD [OF s1(2)]
  have inv1: "sys_inv_at {} Map.empty {} s1" by (rule sys_neutral_events [OF inv s1(2,4,3)])
  have k1: "kept s s1" by (rule kept_neutral [OF s1(2,5)])
  show ?thesis
  proof (cases r)
    case False
    then show ?thesis using s1(1) inv1 k1 by (simp add: checkpoint_switch_def)
  next
    case True
    then have onl: "online (cpus (sched s1) c)" using s1(6) n(2) by simp
    obtain x where x: "current (cpus (sched s1) c) = Some x" by (rule online_current [OF inv1 onl])
    have cpu1: "current_cpu s1 = Some c" using cpu n(5) by simp
    have st1: "settled c (sched s1)" using st n(2) by simp
    obtain live' s2 where s2: "handoff_optional c live s1 = Some (live', s2)" "sys_inv_at {} (Map.empty(c \<mapsto> x)) {} s2"
      "same_machine s1 s2" "dispatching s2 = dispatching s1"
      using sys_handoff_optional [OF inv1 cpu1 onl x st1, of live] by auto
    have cpu2: "current_cpu s2 = Some c" using same_machine_cpu [OF s2(3)] cpu1 by simp
    obtain s3 where s3: "replace_quantum_event c x s2 = Some s3" "neutral s2 s3"
      "sys_inv_at {} ((Map.empty(c \<mapsto> x))(c := None)) {} s3" "dispatching s3 = dispatching s2"
      using sys_replace_quantum [OF s2(2) _ cpu2] by auto
    have "sys_inv_at {} Map.empty {} s3" using s3(3) by simp
    moreover have "kept s1 s2" using s2(3,4) by (simp add: kept_def)
    then have "kept s s3" using kept_trans [OF k1] kept_trans kept_neutral [OF s3(2,4)] by blast
    ultimately show ?thesis using s1(1) True x s2(1) s3(1) by (simp add: checkpoint_switch_def running_thread_def)
  qed
qed

lemma preempt_checkpoint_ok:
  assumes inv: "sys_inv_at {} Map.empty {} s" and cpu: "current_cpu s = Some c" and st: "settled c (sched s)"
  shows "\<exists>live' s'. preempt_checkpoint c live s = Some (live', s') \<and> sys_inv_at {} Map.empty {} s' \<and> kept s s'"
proof -
  obtain s1 where s1: "finalize_retired c True s = Some s1" "sys_inv_at {} Map.empty {} s1" "background c s s1"
    using sys_finalize [OF inv cpu, of True] by auto
  have "current_cpu s1 = Some c" using keptD(3) [OF kept_background [OF s1(3)]] cpu by simp
  moreover have "settled c (sched s1)" by (rule settled_background [OF st backgroundD(2) [OF s1(3)]])
  ultimately obtain live' s2 where "checkpoint_switch c live s1 = Some (live', s2)" "sys_inv_at {} Map.empty {} s2" "kept s1 s2"
    using checkpoint_switch_ok [OF s1(2)] by blast
  then show ?thesis using s1(1) kept_trans [OF kept_background [OF s1(3)]]
    by (auto simp: preempt_checkpoint_def transition_finalize_retired_def)
qed

lemma finish_scheduler_ipi_ok:
  assumes inv: "sys_inv_at {} Map.empty {} s" and cpu: "current_cpu s = Some c" and st: "settled c (sched s)"
  shows "\<exists>live' s'. finish_scheduler_ipi c live s = Some (live', s') \<and> sys_inv_at {} Map.empty {} s' \<and> kept s s'"
proof -
  obtain s1 where s1: "finalize_retired c True s = Some s1" "sys_inv_at {} Map.empty {} s1" "background c s s1"
    "retired (cpus (sched s1) c) = None" using sys_finalize [OF inv cpu, of True] by auto
  have k1: "kept s s1" by (rule kept_background [OF s1(3)])
  have cpu1: "current_cpu s1 = Some c" using keptD(3) [OF k1] cpu by simp
  have c: "c < cpus_registered s1" by (rule current_cpu_less [OF cpu1])
  show ?thesis
  proof (cases "online (cpus (sched s1) c)")
    case False
    then show ?thesis using s1(1,2) k1 by (simp add: finish_scheduler_ipi_def transition_finalize_retired_def)
  next
    case True
    note d = sys_inv_atD [OF s1(2)]
    let ?s2 = "s1\<lparr>sched := ipi_consumed c (sched s1)\<rparr>"
    note i = consume_scheduler_ipi_ok [OF d(1) s1(4)]
    have bg2: "background c s1 ?s2" by (rule background_sched [OF i(3)])
    have cpu2: "current_cpu ?s2 = Some c" using cpu1 by simp
    obtain s3 where s3: "note_runnable_peer_available c ?s2 = Some s3" "neutral ?s2 s3" "queues_sound s3"
      "events s3 = (events ?s2)(c := quantum_needed c (sched ?s2) \<union> events ?s2 c)" "dispatching s3 = dispatching ?s2"
      using note_peer_view [of ?s2 c] d(7) cpu2 sys_inv_room(3) [OF s1(2) c] by auto
    note n = neutralD [OF s3(2)]
    have bg3: "background c s1 s3" using bg2 n s3(4,5) same_machine_trans [OF _ n(1), of s1]
      by (simp add: background_def)
    have "sys_inv_at {} Map.empty {} s3"
    proof (rule sys_background [OF s1(2) bg3])
      show "sched_inv_at {} {} (sched s3)" using i(2) n(2) by simp
      show "adds_quantum c s1 s3" "keeps_quantum c s1 s3" using s3(3-5) n(2)
        by (auto simp: adds_quantum_def keeps_quantum_def)
    qed simp
    moreover have "current_cpu s3 = Some c" using n(5) cpu2 by simp
    moreover have "settled c (sched s3)"
      using settled_background [OF settled_background [OF st backgroundD(2) [OF s1(3)]] backgroundD(2) [OF bg3]] .
    ultimately obtain live' s4 where "checkpoint_switch c live s3 = Some (live', s4)" "sys_inv_at {} Map.empty {} s4" "kept s3 s4"
      using checkpoint_switch_ok by blast
    then show ?thesis using s1(1) True i(1) s3(1) kept_trans [OF k1 kept_trans [OF kept_background [OF bg3]]]
      by (auto simp: finish_scheduler_ipi_def transition_finalize_retired_def)
  qed
qed

section \<open>The timer interrupt\<close>

lemma background_neutral: "neutral s s' \<Longrightarrow> events s' = events s \<Longrightarrow> dispatching s' = dispatching s \<Longrightarrow> background c s s'"
  by (simp add: background_def neutral_def)

text \<open>Leaving the suspension of a CPU's quantum events.\<close>

lemma sys_resume:
  assumes inv: "sys_inv_at P Q U s" and c: "c < cpus_registered s"
    and sub: "quanta s c \<subseteq> quantum_needed c (sched s)"
    and sup: "online (cpus (sched s) c) \<Longrightarrow> quantum_needed c (sched s) \<subseteq> events s c"
  shows "sys_inv_at P (Q(c := None)) U s"
proof -
  have "quanta_ok (Q(c := None)) s"
    by (rule quanta_ok_local [OF sys_inv_atD(5) [OF inv] refl, where c = c]) (use sub sup in \<open>simp_all add: quanta_at_def\<close>)
  then show ?thesis using inv by (simp add: sys_inv_at_def)
qed

lemma quanta_background:
  assumes "background c s s'" "events s' = events s" "quanta s c \<subseteq> quantum_needed c (sched s)"
  shows "quanta s' c \<subseteq> quantum_needed c (sched s')"
proof -
  note b = background_onD [OF backgroundD(2) [OF assms(1)]]
  have "quantum_needed c (sched s) \<subseteq> quantum_needed c (sched s')" by (rule quantum_needed_prefix [OF b(6,9)])
  then show ?thesis using assms(2,3) by (auto simp: quanta_def)
qed

definition event_fits :: "cpu_id \<Rightarrow> scheduler \<Rightarrow> timed_event \<Rightarrow> bool" where
  "event_fits c S ev \<longleftrightarrow>
     (case ev of WaitDeadline cpu tok \<Rightarrow> cpu = c \<and> wt_cpu tok = c \<and> \<not> joiner_token S tok | QuantumExpired cpu t \<Rightarrow> cpu = c)"

lemma dispatch_expired_ok:
  assumes "sys_inv_at {} Q U s" "Q c = Some x" "current_cpu s = Some c" "\<And>ev. ev \<in> set evs \<Longrightarrow> event_fits c (sched s) ev"
  shows "\<exists>s'. dispatch_expired c evs s = Some s' \<and> sys_inv_at {} Q U s' \<and> background c s s' \<and> events s' = events s"
  using assms
proof (induction evs arbitrary: s)
  case Nil
  then show ?case by simp
next
  case (Cons ev evs)
  note inv = Cons.prems(1) and cpu = Cons.prems(3)
  note d = sys_inv_atD [OF inv]
  have fit: "event_fits c (sched s) ev" using Cons.prems(4) by simp
  obtain s1 where s1: "(case ev of
         WaitDeadline cpu token \<Rightarrow> do { panic_if (cpu \<noteq> c \<or> wt_cpu token \<noteq> c); (_, s) \<leftarrow> transition_complete_wait_for_timer token s; Some s }
       | QuantumExpired cpu t \<Rightarrow> do { panic_if (cpu \<noteq> c); note_quantum_expired c t s }) = Some s1"
    "sys_inv_at {} Q U s1" "background c s s1" "events s1 = events s"
  proof (cases ev)
    case (WaitDeadline cpu tok)
    then have f: "cpu = c" "wt_cpu tok = c" "\<not> joiner_token (sched s) tok" using fit by (simp_all add: event_fits_def)
    obtain r s1 where s1: "complete_wait_transition tok Timeout False s = Some (r, s1)" "sched_inv_at {} {} (sched s1)"
      "background c s s1" "adds_quantum c s s1" "events s1 = events s"
      using complete_wait_ok [OF d(1) sys_inv_ready [OF inv cpu] sys_inv_room(3) [OF inv current_cpu_less [OF cpu]] f(3), of Timeout False]
      by auto
    have "sys_inv_at {} Q U s1" using Cons.prems(2) s1(5) by (intro sys_background [OF inv s1(3,2,4)]) simp_all
    then show thesis using that s1 f WaitDeadline by (simp add: transition_complete_wait_for_timer_def)
  next
    case (QuantumExpired cpu t)
    then have f: "cpu = c" using fit by (simp add: event_fits_def)
    show thesis
    proof (cases "running_thread c s = Some t")
      case True
      obtain s1 where s1: "request_reschedule_on c s = Some s1" "neutral s s1" "queues_sound s1" "events s1 = events s"
        "dispatching s1 = dispatching s" using request_reschedule_on_view [OF cpu] d(7) by blast
      show thesis using that [of s1] s1 f QuantumExpired True sys_neutral_events [OF inv s1(2,4,3)] background_neutral [OF s1(2,4,5)]
        by (simp add: note_quantum_expired_def)
    next
      case False
      then show thesis using that [of s] f QuantumExpired inv by (simp add: note_quantum_expired_def)
    qed
  qed
  note b = backgroundD [OF s1(3)]
  have "current_cpu s1 = Some c" using same_machine_cpu [OF b(1)] cpu by simp
  moreover have "event_fits c (sched s1) e" if "e \<in> set evs" for e
    using Cons.prems(4) [of e] that background_onD(2) [OF b(2)] by (auto simp: event_fits_def split: timed_event.splits)
  ultimately obtain s2 where "dispatch_expired c evs s1 = Some s2" "sys_inv_at {} Q U s2" "background c s1 s2" "events s2 = events s1"
    using Cons.IH [OF s1(2) Cons.prems(2)] by blast
  then show ?case using s1 background_trans [OF s1(3)] by simp
qed

lemma events_fit:
  assumes inv: "sys_inv_at P Q U s" and c: "c < cpus_registered s" and ev: "ev \<in> events s c"
    and own: "event_cpu ev = c"
  shows "event_fits c (sched s) ev"
  using own deadlines_okD(1) [OF sys_inv_atD(4) [OF inv] c] ev
  by (cases ev) (auto simp: event_fits_def)

lemma timed_wake_shortcut_ok:
  assumes inv: "sys_inv_at {} (Map.empty(c \<mapsto> x)) {} s" and sub: "quanta s c \<subseteq> quantum_needed c (sched s)"
    and cpu: "current_cpu s = Some c" and onl: "online (cpus (sched s) c)" and cur: "current (cpus (sched s) c) = Some x"
    and st: "settled c (sched s)" and h: "holds_events e evs" and fit: "\<And>ev. ev \<in> set evs \<Longrightarrow> event_fits c (sched s) ev"
  shows "timed_wake_shortcut c live e s = Some (None, s) \<or>
    (\<exists>live' s'. timed_wake_shortcut c live e s = Some (Some live', s') \<and> sys_inv_at {} (Map.empty(c \<mapsto> x)) {} s' \<and> kept s s' \<and>
       events s' = events s \<and> quanta s' c = {} \<and> quantum_needed c (sched s') = {})"
proof -
  let ?single = "case evs of [ev] \<Rightarrow> Some ev | _ \<Rightarrow> None"
  have single: "expired_single e = Some ?single" by (rule holds_events_single [OF h])
  obtain dis where dis: "is_disabled s = Some dis" using cpu by (simp add: is_disabled_def)
  show ?thesis
  proof (cases "\<exists>cpu tok. ?single = Some (WaitDeadline cpu tok)")
    case False
    then have "timed_wake_shortcut c live e s = Some (None, s)"
      using single by (auto simp: timed_wake_shortcut_def split: option.splits timed_event.splits)
    then show ?thesis ..
  next
    case True
    then obtain cpu' tok where ev: "evs = [WaitDeadline cpu' tok]" by (auto split: list.splits)
    have f: "cpu' = c" "wt_cpu tok = c" "\<not> joiner_token (sched s) tok" using fit [of "WaitDeadline cpu' tok"] ev by (simp_all add: event_fits_def)
    note d = sys_inv_atD [OF inv]
    have np: "\<not> wait_is_prepared (wait_md a)" if "lookup (sched s) x = Some a" for a using st cur that by (simp add: settled_def)
    let ?y = "wt_thread tok"
    from timed_wake_from_idle_ok [OF d(1) cur f(3) np]
    consider "dis \<or> transition_timed_wake_from_idle c tok s = Some (None, s)"
      | a b S' where "\<not> dis" "transition_timed_wake_from_idle c tok s = Some (Some (Switch x ?y), s\<lparr>sched := S'\<rparr>)"
        "idle (cpus (sched s) c) = Some x" "ready_queue (cpus (sched s) c) = []" "lookup (sched s) x = Some a" "lookup (sched s) ?y = Some b"
        "home_cpu b = c" "tstate b = Blocked" "x \<noteq> ?y"
        "S' = timed_woken c x ?y (completed_wait Timeout (wait_md b)) (sched s)" "sched_inv_at {} {} S'"
      by blast
    then show ?thesis
    proof cases
      case 1
      then have "timed_wake_shortcut c live e s = Some (None, s)"
        using single ev f dis by (auto simp: timed_wake_shortcut_def)
      then show ?thesis ..
    next
      case 2
      let ?s1 = "s\<lparr>sched := S'\<rparr>"
      note w = timed_woken_effect [OF 2(5,6,9,3), of "completed_wait Timeout (wait_md b)", simplified, folded 2(10)]
      have ah: "home_cpu a = c" using cpu_inv_current [OF sched_inv_atD(2) [OF d(1)] cur] 2(5) by auto
      have sw: "switch_on c {} (sched s) S'"
        by (rule switch_on_upd2 [OF 2(5,6) w(1) 2(9)]) (use ah w in simp_all)
      have "sys_inv_at {} ((Map.empty(c \<mapsto> x))(c \<mapsto> x)) (insert c {}) ?s1"
        using sw 2(11) d(7) by (intro sys_switch [OF inv]) simp_all
      then have s1: "sys_inv_at {} (Map.empty(c \<mapsto> x)) {c} ?s1" by simp
      have cpu1: "current_cpu ?s1 = Some c" using cpu by simp
      obtain r s2 where s2: "consume_checkpoint_on c True ?s1 = Some (r, s2)" "neutral ?s1 s2" "queues_sound s2" "events s2 = events ?s1"
        "dispatching s2 = dispatching ?s1" using consume_checkpoint_on_view [OF cpu1, of True] d(7) by auto
      note n = neutralD [OF s2(2)]
      have inv2: "sys_inv_at {} (Map.empty(c \<mapsto> x)) {c} s2" by (rule sys_neutral_events [OF s1 s2(2,4,3)])
      have x2: "lookup (sched s2) x = Some (a\<lparr>tstate := Ready\<rparr>)" using 2(9) n(2) by (simp add: w)
      have pre: "current_cpu s2 = Some c" "current (cpus (sched s2) c) = Some ?y" "online (cpus (sched s2) c)"
        using cpu1 n onl by (simp_all add: w)
      have lv: "retains_live c ?y s2"
        using 2(3,9) n(2) by (simp add: retains_live_def w)
      obtain u b' where ho: "handoff_selected c live (Switch x ?y) s2 = Some (restore_into (saved_ctx b') live,
          s2\<lparr>sched := upd_thread x (\<lambda>th. th\<lparr>saved_ctx := save_from (saved_ctx th) live\<rparr>) (sched s2), user_spaces := u\<rparr>)"
        "lookup (upd_thread x (\<lambda>th. th\<lparr>saved_ctx := save_from (saved_ctx th) live\<rparr>) (sched s2)) ?y = Some b'"
        "sys_inv_at {} (Map.empty(c \<mapsto> x)) {} (s2\<lparr>sched := upd_thread x (\<lambda>th. th\<lparr>saved_ctx := save_from (saved_ctx th) live\<rparr>) (sched s2), user_spaces := u\<rparr>)"
        by (rule sys_handoff [OF inv2 pre x2 lv])
      let ?s3 = "s2\<lparr>sched := upd_thread x (\<lambda>th. th\<lparr>saved_ctx := save_from (saved_ctx th) live\<rparr>) (sched s2), user_spaces := u\<rparr>"
      have "timed_wake_shortcut c live e s = Some (Some (restore_into (saved_ctx b') live), ?s3)"
        using single ev f dis 2(1,2) s2(1) ho(1) by (simp add: timed_wake_shortcut_def)
      moreover have "kept s ?s3" using n(1) s2(5) by (simp add: kept_def same_machine_def)
      moreover have "quantum_needed c (sched s) = {}" using 2(4) by (simp add: quantum_needed_def split: option.splits)
      then have "quanta ?s3 c = {}" using sub s2(4) by (simp add: quanta_def)
      moreover have "quantum_needed c (sched ?s3) = {}" using 2(4) n(2) by (simp add: quantum_needed_def w split: option.splits)
      ultimately show ?thesis using ho(3) s2(4) by auto
    qed
  qed
qed

text \<open>What the scheduler's quantum intent has to say about the queue it is applied to.\<close>

definition intent_ok :: "cpu_id \<Rightarrow> thread_id \<Rightarrow> quantum_update \<Rightarrow> 'a system_scheme \<Rightarrow> bool" where
  "intent_ok c x q s \<longleftrightarrow>
     set_option (obsolete q) \<subseteq> {quantum_expired c x} \<and>
     quanta s c - set_option (obsolete q) \<subseteq> quantum_needed c (sched s) \<and>
     snd ` set_option (ensure q) \<subseteq> quantum_needed c (sched s) \<and>
     (online (cpus (sched s) c) \<longrightarrow>
        quantum_needed c (sched s) \<subseteq> snd ` set_option (ensure q) \<union> (events s c - set_option (obsolete q)))"

lemma quantum_needed_cpu: "ev \<in> quantum_needed c S \<Longrightarrow> event_cpu ev = c \<and> (\<exists>t. ev = QuantumExpired c t)"
  by (auto simp: quantum_needed_def quantum_expired_def split: option.splits if_splits)

lemma timer_end_ok:
  assumes inv: "sys_inv_at {} (Map.empty(c \<mapsto> x)) {} s" and cpu: "current_cpu s = Some c" and dis: "dispatching s c"
    and buf: "queue_size \<le> length (expired_entries e)" and q: "intent_ok c x q s"
  shows "\<exists>s'. timer_interrupt_end c q e s = Some s' \<and> sys_inv_at {} Map.empty {} s' \<and> same_machine s s' \<and>
    dispatching s' = (dispatching s)(c := False)"
proof -
  note d = sys_inv_atD [OF inv] and c = current_cpu_less [OF cpu] and r = sys_inv_room [OF inv current_cpu_less [OF cpu]]
  have room: "card (events s c - set_option (obsolete q)) < queue_size"
    using r(3) card_mono [OF r(1), of "events s c - set_option (obsolete q)"] by (meson Diff_subset order_le_less_trans)
  have ens: "event_cpu ev = c" if "ensure q = Some (dl, ev)" for dl ev
    using q that quantum_needed_cpu [of ev c "sched s"] by (simp add: intent_ok_def)
  obtain s' where s': "timer_interrupt_end c q e s = Some s'" "time_only s s'" "queues_sound s'"
    "events s' = (events s)(c := (events s c - set_option (obsolete q)) \<union> snd ` set_option (ensure q))"
    "dispatching s' = (dispatching s)(c := False)"
    using timer_end_view [OF d(7) cpu dis buf, of q] ens room by blast
  have n: "neutral s s'" by (rule time_only_neutral [OF s'(2)])
  note m = neutralD [OF n]
  have dl: "WaitDeadline cpu tok \<in> events s c'" if "WaitDeadline cpu tok \<in> events s' c'" for c' cpu tok
    using that s'(4) q quantum_needed_cpu [of "WaitDeadline cpu tok" c "sched s"]
    by (auto simp: intent_ok_def split: if_splits)
  have reg: "cpus_registered s' = cpus_registered s" using m(1) by (simp add: same_machine_def)
  have "quanta_ok Map.empty s'"
  proof (rule quanta_ok_local [OF d(5) reg, where c = c])
    show "quanta_at None c s'" using q s'(4) m(2) by (auto simp: quanta_at_def quanta_def intent_ok_def)
  qed (use s'(4) m(2) in simp_all)
  then have "sys_inv_at {} Map.empty {} s'" by (intro sys_neutral [OF inv n s'(3) dl])
  then show ?thesis using s'(1,5) m(1) by blast
qed

lemma finish_timer_batch_ok:
  assumes inv: "sys_inv_at {} (Map.empty(c \<mapsto> x)) {} s" and sub: "quanta s c \<subseteq> quantum_needed c (sched s)"
    and cpu: "current_cpu s = Some c" and onl: "online (cpus (sched s) c)" and cur: "current (cpus (sched s) c) = Some x"
    and st: "settled c (sched s)" and h: "holds_events e evs" and fit: "\<And>ev. ev \<in> set evs \<Longrightarrow> event_fits c (sched s) ev"
  shows "\<exists>q live' s'. finish_timer_batch c x live now e s = Some (q, live', s') \<and> sys_inv_at {} (Map.empty(c \<mapsto> x)) {} s' \<and>
    kept s s' \<and> intent_ok c x q s'"
proof -
  have it: "expired_iter e = Some evs" by (rule holds_events_iter [OF h])
  obtain s1 where s1: "dispatch_expired c evs s = Some s1" "sys_inv_at {} (Map.empty(c \<mapsto> x)) {} s1" "background c s s1" "events s1 = events s"
    using dispatch_expired_ok [OF inv _ cpu fit] by auto
  have cpu1: "current_cpu s1 = Some c" using same_machine_cpu [OF backgroundD(1) [OF s1(3)]] cpu by simp
  obtain s2 where s2: "(if idle (cpus (sched s1) c) = Some x \<and> has_runnable_peer c (sched s1) then request_reschedule_on c s1 else Some s1) = Some s2"
    "neutral s1 s2" "events s2 = events s1" "queues_sound s2" "dispatching s2 = dispatching s1"
    using request_reschedule_on_view [OF cpu1] sys_inv_atD(7) [OF s1(2)]
    by (cases "idle (cpus (sched s1) c) = Some x \<and> has_runnable_peer c (sched s1)") auto
  have cpu2: "current_cpu s2 = Some c" using neutralD(5) [OF s2(2)] cpu1 by simp
  obtain ck s3 where s3: "consume_checkpoint_on c (online (cpus (sched s2) c)) s2 = Some (ck, s3)" "neutral s2 s3" "queues_sound s3"
    "events s3 = events s2" "dispatching s3 = dispatching s2"
    using consume_checkpoint_on_view [OF cpu2] s2(4) by blast
  have n3: "neutral s1 s3" by (rule neutral_trans [OF s2(2) s3(2)])
  have ev3: "events s3 = events s" "dispatching s3 = dispatching s1" using s1(4) s2(3,5) s3(4,5) by simp_all
  have bg3: "background c s s3"
    using background_trans [OF s1(3) background_neutral [OF n3]] ev3 s1(4) by simp
  note b = background_onD [OF backgroundD(2) [OF bg3]]
  have inv3: "sys_inv_at {} (Map.empty(c \<mapsto> x)) {} s3"
    using ev3(1) s1(4) by (intro sys_neutral_events [OF s1(2) n3 _ s3(3)]) simp
  have cpu3: "current_cpu s3 = Some c" using neutralD(5) [OF s3(2)] cpu2 by simp
  have sub3: "quanta s3 c \<subseteq> quantum_needed c (sched s3)" by (rule quanta_background [OF bg3 ev3(1) sub])
  have k3: "kept s s3" by (rule kept_background [OF bg3])
  have onl3: "online (cpus (sched s3) c)" "current (cpus (sched s3) c) = Some x" using onl cur b(6,8) by simp_all
  have st3: "settled c (sched s3)" by (rule settled_background [OF st backgroundD(2) [OF bg3]])
  obtain live' s4 where s4: "(if ck then handoff_optional c live s3 else Some (live, s3)) = Some (live', s4)"
    "sys_inv_at {} (Map.empty(c \<mapsto> x)) {} s4" "kept s3 s4" "events s4 = events s3" "online (cpus (sched s4) c)"
    "\<not> ck \<longrightarrow> s4 = s3"
    using sys_handoff_optional [OF inv3 cpu3 onl3 st3, of live] inv3 onl3
    by (cases ck) (auto simp: kept_def)
  obtain y where y: "current (cpus (sched s4) c) = Some y" by (rule online_current [OF s4(2,5)])
  let ?ens = "if has_runnable_peer c (sched s4)
    then Some (now + ms_to_counts (counter_freq s4) (rr_quantum_ms (sched s4)), quantum_expired c y) else None"
  let ?q = "\<lparr>obsolete = if ck then Some (quantum_expired c x) else None, ensure = ?ens\<rparr>"
  have run: "finish_timer_batch c x live now e s = Some (?q, live', s4)"
    using it s1(1) s2(1) s3(1) s4(1) y by (simp add: finish_timer_batch_def running_thread_def)
  have ens: "snd ` set_option ?ens = quantum_needed c (sched s4)" using y by (simp add: has_runnable_peer_def quantum_needed_def)
  have "quanta s4 c \<subseteq> {quantum_expired c x}"
    using quanta_okD(1) [OF sys_inv_atD(5) [OF s4(2)], of c] current_cpu_less [OF cpu] keptD(4) [OF k3] keptD(4) [OF s4(3)] by simp
  then have "intent_ok c x ?q s4" unfolding intent_ok_def using ens sub3 s4(6) by (cases ck) auto
  then show ?thesis using run s4(2) kept_trans [OF k3 s4(3)] by blast
qed

lemma events_own:
  assumes "queues_sound s" "ev \<in> events s c"
  shows "event_cpu ev = c"
  using assms by (auto simp: queues_sound_def events_def time_abs_def time_inv_def ts_ok_def ts_abs_def split: option.splits)

lemma sys_suspend_any:
  assumes inv: "sys_inv_at P Q U s" and Q: "Q c = None"
  obtains x where "sys_inv_at P (Q(c \<mapsto> x)) U s" "\<And>y. current (cpus (sched s) c) = Some y \<Longrightarrow> x = y"
proof (cases "current (cpus (sched s) c)")
  case (Some y)
  show thesis
  proof (rule that)
    show "sys_inv_at P (Q(c \<mapsto> y)) U s" using Q Some by (intro sys_suspend [OF inv]) simp
  qed (simp add: Some)
next
  case None
  note d = sys_inv_atD [OF inv]
  have "quanta_ok (Q(c \<mapsto> x)) s" for x
  proof (rule quanta_ok_local [OF d(5) refl, where c = c])
    assume "c < cpus_registered s"
    then show "quanta_at ((Q(c \<mapsto> x)) c) c s"
      using quanta_okD(2) [OF d(5) _ Q] None by (auto simp: quanta_at_def quantum_needed_def)
  qed simp_all
  then have "sys_inv_at P (Q(c \<mapsto> undefined)) U s" using inv by (simp add: sys_inv_at_def)
  then show thesis by (rule that) (simp add: None)
qed

lemma finish_timer_interrupt_ok:
  assumes inv: "sys_inv_at {} (Map.empty(c \<mapsto> x)) {} s" and sub: "quanta s c \<subseteq> quantum_needed c (sched s)"
    and cpu: "current_cpu s = Some c" and x: "\<And>y. current (cpus (sched s) c) = Some y \<Longrightarrow> x = y"
    and st: "settled c (sched s)" and h: "holds_events e evs" and fit: "\<And>ev. ev \<in> set evs \<Longrightarrow> event_fits c (sched s) ev"
  shows "\<exists>q live' s'. finish_timer_interrupt c live now e s = Some (q, live', s') \<and> sys_inv_at {} (Map.empty(c \<mapsto> x)) {} s' \<and>
    kept s s' \<and> intent_ok c x q s'"
proof -
  obtain s1 where s1: "finalize_retired c False s = Some s1" "sys_inv_at {} (Map.empty(c \<mapsto> x)) {} s1" "background c s s1" "events s1 = events s"
    using sys_finalize [OF inv cpu, of False] by auto
  note b = background_onD [OF backgroundD(2) [OF s1(3)]]
  have sub1: "quanta s1 c \<subseteq> quantum_needed c (sched s1)" by (rule quanta_background [OF s1(3,4) sub])
  have cpu1: "current_cpu s1 = Some c" using same_machine_cpu [OF backgroundD(1) [OF s1(3)]] cpu by simp
  have k1: "kept s s1" by (rule kept_background [OF s1(3)])
  show ?thesis
  proof (cases "online (cpus (sched s1) c)")
    case False
    then have "finish_timer_interrupt c live now e s = Some (no_quantum_update, live, s1)"
      using s1(1) by (simp add: finish_timer_interrupt_def transition_finalize_retired_for_timer_def)
    moreover have "intent_ok c x no_quantum_update s1" using False sub1 by (simp add: intent_ok_def no_quantum_update_def)
    ultimately show ?thesis using s1(2) k1 by blast
  next
    case True
    obtain y where "current (cpus (sched s1) c) = Some y" by (rule online_current [OF s1(2) True])
    then have cur: "current (cpus (sched s1) c) = Some x" using x b(6) by simp
    have st1: "settled c (sched s1)" by (rule settled_background [OF st backgroundD(2) [OF s1(3)]])
    have fit1: "event_fits c (sched s1) ev" if "ev \<in> set evs" for ev
      using fit [OF that] b(2) by (auto simp: event_fits_def split: timed_event.splits)
    have start: "finish_timer_interrupt c live now e s = do {
        (woken, s) \<leftarrow> timed_wake_shortcut c live e s1;
        case woken of Some live \<Rightarrow> Some (no_quantum_update, live, s) | None \<Rightarrow> finish_timer_batch c x live now e s }"
      using s1(1) True cur by (simp add: finish_timer_interrupt_def transition_finalize_retired_for_timer_def running_thread_def)
    from timed_wake_shortcut_ok [OF s1(2) sub1 cpu1 True cur st1 h fit1, of live] show ?thesis
    proof
      assume "timed_wake_shortcut c live e s1 = Some (None, s1)"
      then show ?thesis unfolding start
        using finish_timer_batch_ok [OF s1(2) sub1 cpu1 True cur st1 h fit1, of live now] kept_trans [OF k1] by auto
    next
      assume "\<exists>live' s'. timed_wake_shortcut c live e s1 = Some (Some live', s') \<and> sys_inv_at {} (Map.empty(c \<mapsto> x)) {} s' \<and> kept s1 s' \<and>
       events s' = events s1 \<and> quanta s' c = {} \<and> quantum_needed c (sched s') = {}"
      then obtain live' s2 where s2: "timed_wake_shortcut c live e s1 = Some (Some live', s2)" "sys_inv_at {} (Map.empty(c \<mapsto> x)) {} s2"
        "kept s1 s2" "quanta s2 c = {}" "quantum_needed c (sched s2) = {}" by blast
      then have "intent_ok c x no_quantum_update s2" by (simp add: intent_ok_def no_quantum_update_def)
      then show ?thesis unfolding start using s2 kept_trans [OF k1 s2(3)] by simp
    qed
  qed
qed

lemma on_timer_interrupt_ok:
  assumes inv: "sys_inv s" and cpu: "current_cpu s = Some c" and st: "settled c (sched s)"
  shows "\<exists>live' s'. on_timer_interrupt live s = Some (live', s') \<and> sys_inv s' \<and> same_machine s s'"
proof -
  have inv0: "sys_inv_at {} Map.empty {} s" and nd: "\<And>c. c < cpus_registered s \<Longrightarrow> \<not> dispatching s c"
    using inv by (simp_all add: sys_inv_def)
  note d = sys_inv_atD [OF inv0] and c = current_cpu_less [OF cpu]
  obtain now e s1 evs where s1: "timer_interrupt_begin c s = Some (Some (now, e), s1)" "time_only s s1" "queues_sound s1"
    "events s1 = (events s)(c := events s c - set evs)" "dispatching s1 = (dispatching s)(c := True)"
    "holds_events e evs" "set evs \<subseteq> events s c" "queue_size \<le> length (expired_entries e)"
    using timer_begin_view [OF d(7) c nd [OF c]] by blast
  have n: "neutral s s1" by (rule time_only_neutral [OF s1(2)])
  note m = neutralD [OF n]
  have reg: "cpus_registered s1 = cpus_registered s" using m(1) by (simp add: same_machine_def)
  obtain x where x: "sys_inv_at {} (Map.empty(c \<mapsto> x)) {} s" "\<And>y. current (cpus (sched s) c) = Some y \<Longrightarrow> x = y"
    using sys_suspend_any [OF inv0, of c] by auto
  have "quanta_ok (Map.empty(c \<mapsto> x)) s1"
    by (rule quanta_ok_local [OF sys_inv_atD(5) [OF x(1)] reg, where c = c])
      (use s1(4) m(2) quanta_okD(1) [OF sys_inv_atD(5) [OF x(1)] c] in \<open>auto simp: quanta_at_def quanta_def\<close>)
  then have inv1: "sys_inv_at {} (Map.empty(c \<mapsto> x)) {} s1"
    using s1(4) by (intro sys_neutral [OF x(1) n s1(3)]) (auto split: if_splits)
  have sub1: "quanta s1 c \<subseteq> quantum_needed c (sched s1)"
    using quanta_okD(2) [OF d(5) c] s1(4) m(2) by (auto simp: quanta_def)
  have fit: "event_fits c (sched s1) ev" if "ev \<in> set evs" for ev
    using that s1(7) events_fit [OF inv0 c, of ev] events_own [OF d(7), of ev c] m(2) by auto
  have cpu1: "current_cpu s1 = Some c" using m(5) cpu by simp
  obtain q live' s2 where s2: "finish_timer_interrupt c live now e s1 = Some (q, live', s2)" "sys_inv_at {} (Map.empty(c \<mapsto> x)) {} s2"
    "kept s1 s2" "intent_ok c x q s2"
    using finish_timer_interrupt_ok [OF inv1 sub1 cpu1 _ _ s1(6) fit, of live now] x(2) st m(2) by auto
  note k = keptD [OF s2(3)]
  have cpu2: "current_cpu s2 = Some c" "dispatching s2 c" using k cpu1 s1(5) by simp_all
  obtain s3 where s3: "timer_interrupt_end c q e s2 = Some s3" "sys_inv_at {} Map.empty {} s3" "same_machine s2 s3"
    "dispatching s3 = (dispatching s2)(c := False)"
    using timer_end_ok [OF s2(2) cpu2 s1(8) s2(4)] by blast
  have sm: "same_machine s s3" using same_machine_trans [OF m(1) same_machine_trans [OF k(1) s3(3)]] .
  then have "cpus_registered s3 = cpus_registered s" by (simp add: same_machine_def)
  then have "sys_inv s3" using s3(2,4) k(2) s1(5) nd by (simp add: sys_inv_def)
  moreover have "sched_published s1" using d(8) m(1) by (simp add: same_machine_def)
  then have "on_timer_interrupt live s = Some (live', s3)"
    using cpu s1(1) s2(1) s3(1) by (simp add: on_timer_interrupt_def)
  ultimately show ?thesis using sm by blast
qed

end
