(* ===== verification/Sched_Calls.thy ===== *)
theory Sched_Calls
  imports Sched_Entry
begin

text \<open>
  The calls of a running thread: starting, committing and abandoning waits, sleeping, joining,
  exiting and creating threads. The preconditions are the protocol of the callers: the thread has
  no earlier wait, preemption is enabled where the code asserts it, and the wait sequence of the
  slot is not exhausted.
\<close>

section \<open>The calling thread\<close>

text \<open>Thread \<open>x\<close> with record \<open>a\<close> runs on the executing CPU \<open>c\<close>, is not its idle thread and has no wait.\<close>

definition calling :: "cpu_id \<Rightarrow> thread_id \<Rightarrow> thread \<Rightarrow> 'a system_scheme \<Rightarrow> bool" where
  "calling c x a s \<longleftrightarrow> current_cpu s = Some c \<and> online (cpus (sched s) c) \<and> current (cpus (sched s) c) = Some x \<and>
     idle (cpus (sched s) c) \<noteq> Some x \<and> lookup (sched s) x = Some a \<and> active (wait_md a) = None"

lemma callingD:
  assumes "calling c x a s"
  shows "current_cpu s = Some c" "online (cpus (sched s) c)" "current (cpus (sched s) c) = Some x"
    "idle (cpus (sched s) c) \<noteq> Some x" "lookup (sched s) x = Some a" "active (wait_md a) = None" "c < cpus_registered s"
  using assms current_cpu_less [of s c] by (simp_all add: calling_def)

lemma calling_running:
  assumes "sys_inv_at P Q U s" "calling c x a s"
  shows "home_cpu a = c" "tstate a = Running"
  using cpu_inv_current [OF sched_inv_atD(2) [OF sys_inv_atD(1) [OF assms(1)]] callingD(3) [OF assms(2)]] callingD(5) [OF assms(2)]
  by auto

lemma calling_background:
  assumes inv: "sys_inv_at P Q U s" and x: "calling c x a s" and bg: "background c s s'"
  shows "calling c x a s'"
proof -
  note d = callingD [OF x] and b = background_onD [OF backgroundD(2) [OF bg]]
  have run: "tstate a = Running" by (rule calling_running(2) [OF inv x])
  then obtain a' where "lookup (sched s') x = Some a'" "thread_stays a a'" using b(4) [OF d(5)] by auto
  then have "lookup (sched s') x = Some a" using run d(6) by (simp add: thread_stays_def)
  then show ?thesis using d b(6-8) same_machine_cpu [OF backgroundD(1) [OF bg]] by (simp add: calling_def)
qed

lemma kept_sched: "kept s (s\<lparr>sched := S\<rparr>)"
  by (simp add: kept_def)

section \<open>Committing a wait\<close>

text \<open>Thread \<open>x\<close> is about to commit its wait \<open>a0\<close>.\<close>

definition committing :: "cpu_id \<Rightarrow> thread_id \<Rightarrow> thread \<Rightarrow> prepared_wait \<Rightarrow> active_wait \<Rightarrow> 'a system_scheme \<Rightarrow> bool" where
  "committing c x a p a0 s \<longleftrightarrow> current_cpu s = Some c \<and> online (cpus (sched s) c) \<and> current (cpus (sched s) c) = Some x \<and>
     idle (cpus (sched s) c) \<noteq> Some x \<and> lookup (sched s) x = Some a \<and> active (wait_md a) = Some a0 \<and>
     aw_token a0 = pw_token p \<and> aw_consumption a0 = pw_consumption p \<and> assert_preemption_enabled_on c s = Some ()"

lemma committingD:
  assumes "committing c x a p a0 s"
  shows "current_cpu s = Some c" "online (cpus (sched s) c)" "current (cpus (sched s) c) = Some x"
    "idle (cpus (sched s) c) \<noteq> Some x" "lookup (sched s) x = Some a" "active (wait_md a) = Some a0"
    "aw_token a0 = pw_token p" "aw_consumption a0 = pw_consumption p" "assert_preemption_enabled_on c s = Some ()"
  using assms by (simp_all add: committing_def)

lemma blocked_wait_seq [simp]: "next_sequence (blocked_wait w) = next_sequence w"
  by (simp add: blocked_wait_def)

text \<open>Thread \<open>x\<close>, in state \<open>a\<close> before, is blocked in the wait it committed.\<close>

definition left_waiting :: "thread_id \<Rightarrow> thread \<Rightarrow> 'a system_scheme \<Rightarrow> 'a system_scheme \<Rightarrow> bool" where
  "left_waiting x a s s' \<longleftrightarrow> joiner_token (sched s') = joiner_token (sched s) \<and>
     (\<exists>a'. lookup (sched s') x = Some a' \<and> wait_md a' = blocked_wait (wait_md a) \<and> tstate a' = Blocked)"

lemma commit_block:
  assumes inv: "sys_inv_at P Q {} s" and P: "P \<subseteq> {x}" and q: "Q c = None \<or> Q c = Some x"
    and com: "committing c x a p a0 s" and ph: "aw_phase a0 = Prepared"
  obtains live' s1 y where "commit_wait_with c finish live p s =
      do { s' \<leftarrow> finish x s1; Some (CommitBlocked (Switch x y), live', s') }"
    "sys_inv_at {} (Q(c \<mapsto> x)) {} s1" "kept s s1" "events s1 = events s" "left_waiting x a s s1"
proof -
  note d = sys_inv_atD [OF inv] and m = committingD [OF com]
  let ?w = "blocked_wait (wait_md a)" and ?y = "next_thread c (sched s)"
  let ?S = "committed c x ?w (sched s)" let ?s1 = "s\<lparr>sched := ?S\<rparr>"
  obtain b where b: "lookup (sched s) ?y = Some b" "home_cpu b = c" "tstate b = Ready" "?y \<noteq> x"
    by (rule next_thread_ready [OF sched_inv_atD(2) [OF d(1)] m(3,4)])
  have ah: "home_cpu a = c" using cpu_inv_current [OF sched_inv_atD(2) [OF d(1)] m(3)] m(5) by auto
  note e = committed_effect [OF m(5) b(1,4), of ?w, simplified]
  have tr: "transition_commit_wait c p s = Some ((CommitBlock (pw_token p), Some (Switch x ?y)), ?s1)"
    by (rule transition_commit_wait_ok(1) [OF d(1) m(9,3,4,5,6,7,8) ph])
  have sw: "switch_on c {} (sched s) ?S"
    by (rule switch_on_upd2 [OF m(5) b(1) e(1) b(4) [symmetric]]) (use ah e in simp_all)
  have inv1: "sched_inv_at {} {} ?S" by (rule committed_inv [OF d(1) P m(3,4,5,6) ph])
  have s1: "sys_inv_at {} (Q(c \<mapsto> x)) {c} ?s1"
    using sw q m(3) d(7) inv1 by (intro sys_switch [OF inv]) auto
  have x1: "lookup (sched ?s1) x = Some (a\<lparr>wait_md := ?w, tstate := Blocked\<rparr>)" using b(4) by (simp add: e)
  have lv: "retains_live c ?y ?s1"
    using space_live_switch [OF sw] spaces_okD(3) [OF d(6)] current_cpu_executing [OF m(1)] by (simp add: retains_live_def)
  have pre: "current_cpu ?s1 = Some c" "current (cpus (sched ?s1) c) = Some ?y" "online (cpus (sched ?s1) c)"
    using m(1,2) by (simp_all add: e)
  obtain u b' where h: "handoff_selected c live (Switch x ?y) ?s1 = Some (restore_into (saved_ctx b') live,
        ?s1\<lparr>sched := upd_thread x (\<lambda>th. th\<lparr>saved_ctx := save_from (saved_ctx th) live\<rparr>) (sched ?s1), user_spaces := u\<rparr>)"
      "lookup (upd_thread x (\<lambda>th. th\<lparr>saved_ctx := save_from (saved_ctx th) live\<rparr>) (sched ?s1)) ?y = Some b'"
      "sys_inv_at {} (Q(c \<mapsto> x)) {} (?s1\<lparr>sched := upd_thread x (\<lambda>th. th\<lparr>saved_ctx := save_from (saved_ctx th) live\<rparr>) (sched ?s1), user_spaces := u\<rparr>)"
    by (rule sys_handoff [OF s1 pre x1 lv])
  show thesis
    by (rule that [OF _ h(3)]) (use tr h(1) x1 joiner_token_upd_thread [OF x1] e(6) in
        \<open>simp_all add: commit_wait_with_def kept_def same_machine_def left_waiting_def lookup_upd_thread\<close>)
qed

lemma commit_early:
  assumes inv: "sys_inv_at P Q U s" and P: "P \<subseteq> {x}" and com: "committing c x a p a0 s" and ph: "aw_phase a0 = Completed cause"
  shows "commit_wait_with c finish live p s =
      Some (CommittedEarly cause, live, s\<lparr>sched := set_wait x ((wait_md a)\<lparr>active := None\<rparr>) (sched s)\<rparr>)"
    "P = {} \<Longrightarrow> sys_inv_at {} Q U (s\<lparr>sched := set_wait x ((wait_md a)\<lparr>active := None\<rparr>) (sched s)\<rparr>)"
proof -
  note d = sys_inv_atD [OF inv] and m = committingD [OF com]
  show "commit_wait_with c finish live p s =
      Some (CommittedEarly cause, live, s\<lparr>sched := set_wait x ((wait_md a)\<lparr>active := None\<rparr>) (sched s)\<rparr>)"
    using transition_commit_wait_ok(2) [OF d(1) m(9,3,4,5,6,7,8) ph] by (simp add: commit_wait_with_def)
  have run: "tstate a = Running" using cpu_inv_current [OF sched_inv_atD(2) [OF d(1)] m(3)] m(5) by auto
  assume "P = {}"
  then show "sys_inv_at {} Q U (s\<lparr>sched := set_wait x ((wait_md a)\<lparr>active := None\<rparr>) (sched s)\<rparr>)"
    using inv by (intro sys_upd_thread [OF _ m(5)])
      (use sched_inv_atD(3) [OF d(1) m(5)] run m(6) ph in \<open>auto simp: thread_ok_def phase_ok_def wait_wf_def waits_as_def\<close>)
qed

text \<open>The two ways a block ends: with or without cancelling the quantum event of the blocked thread.\<close>

lemma finish_block_after_cancel_ok:
  assumes inv: "sys_inv_at {} Q {} s" and empty: "quanta s c = {}" and cpu: "current_cpu s = Some c"
  shows "\<exists>s'. finish_block_after_quantum_cancel c s = Some s' \<and> sys_inv_at {} (Q(c := None)) {} s' \<and> kept s s' \<and> sched s' = sched s"
proof -
  obtain r s1 where s1: "consume_checkpoint_on c (online (cpus (sched s) c)) s = Some (r, s1)" "neutral s s1" "queues_sound s1"
    "events s1 = events s" "dispatching s1 = dispatching s"
    using consume_checkpoint_on_view [OF cpu] sys_inv_atD(7) [OF inv] by blast
  have inv1: "sys_inv_at {} Q {} s1" by (rule sys_neutral_events [OF inv s1(2,4,3)])
  have "quanta s1 c = {}" "current_cpu s1 = Some c" using empty cpu s1(4) neutralD(5) [OF s1(2)] by (simp_all add: quanta_def)
  then obtain s2 where s2: "ensure_quantum_event c s1 = Some s2" "neutral s1 s2" "sys_inv_at {} (Q(c := None)) {} s2"
    "dispatching s2 = dispatching s1" using sys_ensure_quantum [OF inv1] by blast
  then show ?thesis using s1(1) kept_trans [OF kept_neutral [OF s1(2,5)] kept_neutral [OF s2(2,4)]]
      neutralD(2) [OF s1(2)] neutralD(2) [OF s2(2)]
    by (simp add: finish_block_after_quantum_cancel_def)
qed

lemma finish_block_current_ok:
  assumes inv: "sys_inv_at {} Q {} s" and Q: "Q c = Some x" and cpu: "current_cpu s = Some c"
  shows "\<exists>s'. finish_block_current c x s = Some s' \<and> sys_inv_at {} (Q(c := None)) {} s' \<and> kept s s' \<and> sched s' = sched s"
proof -
  obtain s1 where s1: "cancel_event (quantum_expired c x) s = Some s1" "neutral s s1" "sys_inv_at {} Q {} s1" "quanta s1 c = {}"
    "dispatching s1 = dispatching s" using sys_cancel_quantum [OF assms] by blast
  have "current_cpu s1 = Some c" using neutralD(5) [OF s1(2)] cpu by simp
  then obtain s2 where s2: "finish_block_after_quantum_cancel c s1 = Some s2" "sys_inv_at {} (Q(c := None)) {} s2" "kept s1 s2"
    "sched s2 = sched s1"
    using finish_block_after_cancel_ok [OF s1(3,4)] by blast
  then show ?thesis using s1(1) kept_trans [OF kept_neutral [OF s1(2,5)] s2(3)] neutralD(2) [OF s1(2)]
    by (simp add: finish_block_current_def)
qed

lemma commit_prepared_wait_ok:
  assumes inv: "sys_inv_at P Map.empty {} s" and P: "P = {} \<or> P = {x} \<and> aw_phase a0 = Prepared"
    and com: "committing c x a p a0 s" and ph: "aw_phase a0 \<noteq> PhaseBlocked"
  shows "\<exists>r live' s'. commit_prepared_wait c live p s = Some (r, live', s') \<and> r \<noteq> CommittedStale \<and>
    sys_inv_at {} Map.empty {} s' \<and> kept s s' \<and> 
    (aw_phase a0 = Prepared \<longrightarrow> (\<exists>w. r = CommitBlocked w) \<and> left_waiting x a s s')"
proof (cases "aw_phase a0")
  case Prepared
  have "P \<subseteq> {x}" using P by auto
  moreover have "(Map.empty :: cpu_id \<Rightarrow> thread_id option) c = None \<or> (Map.empty :: cpu_id \<Rightarrow> thread_id option) c = Some x" by simp
  ultimately obtain live' s1 y where s1: "commit_wait_with c (finish_block_current c) live p s =
      do { s' \<leftarrow> finish_block_current c x s1; Some (CommitBlocked (Switch x y), live', s') }"
    "sys_inv_at {} (Map.empty(c \<mapsto> x)) {} s1" "kept s s1" "events s1 = events s"
    "left_waiting x a s s1"
    by (rule commit_block [OF inv _ _ com Prepared])
  have "current_cpu s1 = Some c" using keptD(3) [OF s1(3)] committingD(1) [OF com] by simp
  then obtain s2 where "finish_block_current c x s1 = Some s2" "sys_inv_at {} ((Map.empty(c \<mapsto> x))(c := None)) {} s2" "kept s1 s2"
    "sched s2 = sched s1"
    using finish_block_current_ok [OF s1(2)] by auto
  then show ?thesis using s1(1,5) kept_trans [OF s1(3)] by (simp add: commit_prepared_wait_def left_waiting_def)
next
  case (Completed cause)
  then have "P = {}" using P by simp
  then show ?thesis using commit_early(1) [OF inv _ com Completed, of "finish_block_current c" live] commit_early(2) [OF inv _ com Completed]
    using Completed by (simp add: commit_prepared_wait_def kept_def same_machine_def)
qed (use ph in simp)

section \<open>Preparing a wait\<close>

lemma sys_prepare:
  assumes inv: "sys_inv_at {} Q U s" and x: "calling c x a s" and en: "assert_preemption_enabled_on c s = Some ()"
    and left: "sequence_left (wait_md a)"
  defines "tok \<equiv> WaitToken x c (next_sequence (wait_md a) + 1)"
  defines "s1 k \<equiv> s\<lparr>sched := set_wait x (prepared_md x c k (wait_md a)) (sched s)\<rparr>"
  shows "transition_prepare_wait c s = Some (PreparedWait tok Explicit, s1 Explicit)"
    "transition_prepare_automatic_wait c s = Some (PreparedWait tok Automatic, s1 Automatic)"
    "sys_inv_at {} Q U (s1 k)"
    "committing c x (a\<lparr>wait_md := prepared_md x c k (wait_md a)\<rparr>) (PreparedWait tok k)
      \<lparr>aw_token = tok, aw_phase = Prepared, aw_consumption = k\<rparr> (s1 k)"
    "slot_seq (sched (s1 k)) (tid_index x) = wt_sequence tok" "\<not> joiner_token (sched (s1 k)) tok"
proof -
  note d = sys_inv_atD [OF inv] and m = callingD [OF x] and r = calling_running [OF inv x]
  note p = transition_prepare_ok [OF d(1) en m(3,5,6) left]
  show "transition_prepare_wait c s = Some (PreparedWait tok Explicit, s1 Explicit)"
    "transition_prepare_automatic_wait c s = Some (PreparedWait tok Automatic, s1 Automatic)"
    using p by (simp_all add: s1_def tok_def)
  have l: "lookup (sched (s1 k)) x = Some (a\<lparr>wait_md := prepared_md x c k (wait_md a)\<rparr>)"
    using m(5) by (simp add: s1_def lookup_upd_thread)
  have seq: "next_sequence (wait_md a) \<le> next_sequence (prepared_md x c k (wait_md a))"
    using sequence_left_less [OF left] by (simp add: prepared_md_def)
  have ok: "thread_ok x (a\<lparr>wait_md := prepared_md x c k (wait_md a)\<rparr>)"
    using sched_inv_atD(3) [OF d(1) m(5)] r by (auto simp: thread_ok_def phase_ok_def wait_wf_def prepared_md_def)
  show inv1: "sys_inv_at {} Q U (s1 k)" unfolding s1_def
    using ok seq m(6) by (intro sys_upd_thread [OF inv m(5)]) (simp_all add: waits_as_def)
  show "committing c x (a\<lparr>wait_md := prepared_md x c k (wait_md a)\<rparr>) (PreparedWait tok k)
      \<lparr>aw_token = tok, aw_phase = Prepared, aw_consumption = k\<rparr> (s1 k)"
    using m l same_machine_enabled [of s "s1 k" c] en
    by (simp add: committing_def s1_def prepared_md_def tok_def)
  show "slot_seq (sched (s1 k)) (tid_index x) = wt_sequence tok"
    using slot_seq_lookup [OF l] by (simp add: prepared_md_def tok_def)
  show "\<not> joiner_token (sched (s1 k)) tok"
  proof
    assume "joiner_token (sched (s1 k)) tok"
    then obtain t th where t: "lookup (sched (s1 k)) t = Some th" "joiner th = Some tok" by (auto simp: joiner_token_def)
    obtain jt a0 where "lookup (sched (s1 k)) (wt_thread tok) = Some jt" "active (wait_md jt) = Some a0" "aw_phase a0 = PhaseBlocked"
      by (rule joiner_not_exited [OF sys_inv_atD(1) [OF inv1] t])
    then show False using l by (auto simp: tok_def prepared_md_def)
  qed
qed

section \<open>Sleeping\<close>

text \<open>The thread has no deadline of an earlier wait pending.\<close>

definition no_deadline :: "cpu_id \<Rightarrow> thread_id \<Rightarrow> 'a system_scheme \<Rightarrow> bool" where
  "no_deadline c x s \<longleftrightarrow> (\<forall>cpu tok. WaitDeadline cpu tok \<in> events s c \<longrightarrow> tid_index (wt_thread tok) \<noteq> tid_index x)"

lemma wait_deadline_cpu [simp]: "event_cpu (wait_deadline tok) = wt_cpu tok"
  by (simp add: wait_deadline_def)

lemma deadlines_ok_insert:
  assumes ok: "deadlines_ok s" and c: "c < cpus_registered s" and n: "cpus_registered s' = cpus_registered s" and S: "sched s' = sched s"
    and ev: "events s' = (events s)(c := insert (wait_deadline tok) X)" "X \<subseteq> events s c"
    and tok: "wt_cpu tok = c" "tid_index (wt_thread tok) < length (slots (lifecycle (sched s)))"
      "wt_sequence tok \<le> slot_seq (sched s) (tid_index (wt_thread tok))" "\<not> joiner_token (sched s) tok"
    and fresh: "no_deadline c (wt_thread tok) s"
  shows "deadlines_ok s'"
proof (rule deadlines_okI)
  have old: "(c' = c \<and> tok' = tok \<and> cpu = c) \<or> WaitDeadline cpu tok' \<in> events s c'" if "WaitDeadline cpu tok' \<in> events s' c'" for c' cpu tok'
    using that ev tok(1) by (auto simp: wait_deadline_def split: if_splits)
  fix c' cpu tok' assume c': "c' < cpus_registered s'" "WaitDeadline cpu tok' \<in> events s' c'"
  then show "cpu = c' \<and> wt_cpu tok' = c' \<and> tid_index (wt_thread tok') < length (slots (lifecycle (sched s'))) \<and>
      wt_sequence tok' \<le> slot_seq (sched s') (tid_index (wt_thread tok')) \<and> \<not> joiner_token (sched s') tok'"
    using old [OF c'(2)] deadlines_okD(1) [OF ok, of c' cpu tok'] n S tok by auto
  fix tok'' assume t: "WaitDeadline c' tok' \<in> events s' c'" "WaitDeadline c' tok'' \<in> events s' c'" "tid_index (wt_thread tok') = tid_index (wt_thread tok'')"
  then show "tok' = tok''"
    using old [OF t(1)] old [OF t(2)] deadlines_okD(2) [OF ok, of c' tok' tok''] c'(1) n fresh
    unfolding no_deadline_def by fastforce
qed

lemma sys_schedule_deadline:
  assumes inv: "sys_inv_at {} Q U s" and cpu: "current_cpu s = Some c"
    and tok: "wt_cpu tok = c" "tid_index (wt_thread tok) < length (slots (lifecycle (sched s)))"
      "wt_sequence tok \<le> slot_seq (sched s) (tid_index (wt_thread tok))" "\<not> joiner_token (sched s) tok"
    and fresh: "no_deadline c (wt_thread tok) s"
  shows "\<exists>s'. schedule_event until (wait_deadline tok) s = Some s' \<and> sys_inv_at {} Q U s' \<and> neutral s s' \<and>
    dispatching s' = dispatching s \<and> wait_deadline tok \<in> events s' c"
proof -
  note d = sys_inv_atD [OF inv] and c = current_cpu_less [OF cpu]
  have "event_cpu (wait_deadline tok) = c" using tok(1) by simp
  then obtain s' where s': "schedule_event until (wait_deadline tok) s = Some s'" "time_only s s'" "queues_sound s'"
    "events s' = (events s)(c := insert (wait_deadline tok) (events s c))" "dispatching s' = dispatching s"
    using schedule_event_view [OF d(7) cpu, of "wait_deadline tok" until] sys_inv_room(3) [OF inv c] by blast
  have n: "neutral s s'" by (rule time_only_neutral [OF s'(2)])
  note m = neutralD [OF n]
  have reg: "cpus_registered s' = cpus_registered s" using m(1) by (simp add: same_machine_def)
  have q: "quanta s' c' = quanta s c'" for c' using s'(4) by (auto simp: quanta_def wait_deadline_def)
  have "quanta_ok Q s'"
  proof (rule quanta_ok_local [OF d(5) reg, where c = c])
    assume "c < cpus_registered s"
    then have "quanta_at (Q c) c s" using d(5) by (simp add: quanta_ok_def)
    then show "quanta_at (Q c) c s'" using m(2) q [of c] s'(4) by (cases "Q c") (auto simp: quanta_at_def)
  qed (use s'(4) m(2) in simp_all)
  moreover have "deadlines_ok s'" by (rule deadlines_ok_insert [OF d(4) c reg m(2) s'(4) order_refl tok fresh])
  moreover have "spaces_ok U s'" using d(6) m(2,3) by (simp add: spaces_ok_def)
  moreover have "homes_ok s'" using d(3) m(2) reg by (simp add: homes_ok_def)
  moreover have "machine_ok s'" by (rule machine_ok_next [OF d(2) m(1) s'(3)])
  ultimately have "sys_inv_at {} Q U s'" using d(1) m(2) by (simp add: sys_inv_at_def)
  then show ?thesis using s' n by simp
qed

lemma sys_read_counter:
  fixes s :: "'a system_scheme"
  assumes "sys_inv_at P Q U s"
  shows "sys_inv_at P Q U (snd (now_counter s))" "neutral s (snd (now_counter s))" "dispatching (snd (now_counter s)) = dispatching s"
proof -
  show n: "neutral s (snd (now_counter s))" by (simp add: now_counter_def neutral_def same_machine_def)
  show "sys_inv_at P Q U (snd (now_counter s))"
    using sys_inv_atD(7) [OF assms] by (intro sys_neutral_events [OF assms n]) (simp_all add: now_counter_def)
qed (simp add: now_counter_def)

lemma sys_cancel_deadline:
  assumes inv: "sys_inv_at P Map.empty U s" and cpu: "current_cpu s = Some c" "wt_cpu tok < cpus_registered s"
  shows "\<exists>s'. cancel_event (wait_deadline tok) s = Some s' \<and> sys_inv_at P Map.empty U s' \<and> neutral s s' \<and>
    dispatching s' = dispatching s"
proof -
  note d = sys_inv_atD [OF inv]
  obtain s' where s': "cancel_event (wait_deadline tok) s = Some s'" "time_only s s'" "queues_sound s'"
    "events s' = (events s)(wt_cpu tok := events s (wt_cpu tok) - {wait_deadline tok})" "dispatching s' = dispatching s"
    using cancel_event_view [OF d(7) cpu(1) wait_deadline_cpu cpu(2)] by blast
  have n: "neutral s s'" by (rule time_only_neutral [OF s'(2)])
  have reg: "cpus_registered s' = cpus_registered s" using neutralD(1) [OF n] by (simp add: same_machine_def)
  have "quanta s' c' = quanta s c'" for c' using s'(4) by (auto simp: quanta_def wait_deadline_def)
  then have "quanta_ok Map.empty s'" using d(5) reg neutralD(2) [OF n] s'(4)
    by (auto simp: quanta_ok_def quanta_at_def quantum_needed_def quantum_expired_def wait_deadline_def split: option.splits)
  then have "sys_inv_at P Map.empty U s'" using s'(4) by (intro sys_neutral [OF inv n s'(3)]) (auto split: if_splits)
  then show ?thesis using s'(1,5) n by blast
qed

lemma committing_neutral:
  assumes "committing c x a p a0 s" "neutral s s'"
  shows "committing c x a p a0 s'"
  using committingD [OF assms(1)] neutralD [OF assms(2)] same_machine_enabled [of s s' c] by (simp add: committing_def)

text \<open>A sleep of the calling thread blocks it with its deadline queued.\<close>

lemma on_sleep_sync_ok:
  assumes inv: "sys_inv_at {} Map.empty {} s" and x: "calling c x a s" and en: "assert_preemption_enabled_on c s = Some ()"
    and left: "sequence_left (wait_md a)" and fresh: "no_deadline c x s"
  shows "\<exists>out' live' s'. on_sleep_sync live until out s = Some (out', live', s') \<and> sys_inv_at {} Map.empty {} s' \<and> kept s s'"
proof -
  let ?tok = "WaitToken x c (next_sequence (wait_md a) + 1)"
  let ?s1 = "s\<lparr>sched := set_wait x (prepared_md x c Explicit (wait_md a)) (sched s)\<rparr>"
  let ?a0 = "\<lparr>aw_token = ?tok, aw_phase = Prepared, aw_consumption = Explicit\<rparr>"
  note m = callingD [OF x] and p = sys_prepare [OF inv x en left]
  have cpu1: "current_cpu ?s1 = Some c" using m(1) by simp
  have "no_deadline c (wt_thread ?tok) ?s1" using fresh by (simp add: no_deadline_def)
  moreover have "tid_index (wt_thread ?tok) < length (slots (lifecycle (sched ?s1)))" using lookup_index_less [OF m(5)] by simp
  moreover have "wt_sequence ?tok \<le> slot_seq (sched ?s1) (tid_index (wt_thread ?tok))" using p(5) [of Explicit] by simp
  ultimately obtain s2 where s2: "schedule_event until (wait_deadline ?tok) ?s1 = Some s2" "sys_inv_at {} Map.empty {} s2" "neutral ?s1 s2"
    "dispatching s2 = dispatching ?s1"
    using sys_schedule_deadline [OF p(3) [of Explicit] cpu1, of ?tok until] p(6) [of Explicit] by auto
  have com: "committing c x (a\<lparr>wait_md := prepared_md x c Explicit (wait_md a)\<rparr>) (PreparedWait ?tok Explicit) ?a0 s2"
    by (rule committing_neutral [OF p(4) s2(3)])
  obtain r live' s3 where s3: "commit_prepared_wait c live (PreparedWait ?tok Explicit) s2 = Some (r, live', s3)" "r \<noteq> CommittedStale"
    "sys_inv_at {} Map.empty {} s3" "kept s2 s3"
    using commit_prepared_wait_ok [OF s2(2) _ com, of live] by auto
  have pub: "sched_published s" "sched_published s2"
    using sys_inv_atD(8) [OF inv] sys_inv_atD(8) [OF s2(2)] by simp_all
  have cpu2: "current_cpu s2 = Some c" using neutralD(5) [OF s2(3)] cpu1 by simp
  have "\<exists>out'. on_sleep_sync live until out s = Some (out', live', s3)"
    using m(1) pub p(1) s2(1) cpu2 s3(1,2)
    by (cases r) (simp_all add: on_sleep_sync_def prepare_wait_def commit_wait_def)
  moreover have "kept s s2" by (rule kept_trans [OF kept_sched kept_neutral [OF s2(3,4)]])
  ultimately show ?thesis using s3(3) kept_trans [OF _ s3(4), of s] by blast
qed

lemma sys_publish_sleep:
  assumes inv: "sys_inv_at {} Q U s" and cpu: "current_cpu s = Some c" and cur: "current (cpus (sched s) c) = Some x" and Q: "Q c = None"
    and tok: "wt_thread tok = x" "wt_cpu tok = c" "tid_index x < length (slots (lifecycle (sched s)))"
      "wt_sequence tok \<le> slot_seq (sched s) (tid_index x)" "\<not> joiner_token (sched s) tok"
    and fresh: "no_deadline c x s"
  shows "\<exists>s'. publish_sleep until tok s = Some s' \<and> sys_inv_at {} (Q(c \<mapsto> x)) U s' \<and> quanta s' c = {} \<and> neutral s s' \<and>
    dispatching s' = dispatching s"
proof -
  note inv' = sys_suspend [OF inv, of c x]
  note d = sys_inv_atD [OF inv] and c = current_cpu_less [OF cpu]
  obtain s' where s': "publish_sleep until tok s = Some s'" "time_only s s'" "queues_sound s'"
    "events s' = (events s)(c := insert (wait_deadline tok) (events s c - {quantum_expired c x}))" "dispatching s' = dispatching s"
    using publish_sleep_view [OF d(7) cpu tok(2) sys_inv_room(1,3) [OF inv c], of until] tok(1) by blast
  have n: "neutral s s'" by (rule time_only_neutral [OF s'(2)])
  note m = neutralD [OF n]
  have reg: "cpus_registered s' = cpus_registered s" using m(1) by (simp add: same_machine_def)
  have "quanta s c \<subseteq> {quantum_expired c x}"
    using quanta_okD(2) [OF d(5) c Q] cur by (auto simp: quantum_needed_def split: if_splits)
  then have empty: "quanta s' c = {}" using s'(4) by (auto simp: quanta_def wait_deadline_def)
  have "quanta_ok (Q(c \<mapsto> x)) s'"
    by (rule quanta_ok_local [OF d(5) reg, where c = c]) (use s'(4) m(2) empty in \<open>simp_all add: quanta_at_def\<close>)
  moreover have "deadlines_ok s'"
    by (rule deadlines_ok_insert [OF d(4) c reg m(2) s'(4)]) (use tok fresh in auto)
  moreover have "spaces_ok U s'" using d(6) m(2,3) by (simp add: spaces_ok_def)
  moreover have "homes_ok s'" using d(3) m(2) reg by (simp add: homes_ok_def)
  moreover have "machine_ok s'" by (rule machine_ok_next [OF d(2) m(1) s'(3)])
  ultimately have "sys_inv_at {} (Q(c \<mapsto> x)) U s'" using d(1) m(2) by (simp add: sys_inv_at_def)
  then show ?thesis using s' n empty by simp
qed

text \<open>The sleep of a user thread: the quantum event goes and the deadline comes in one step.\<close>

lemma sleep_user_ok:
  assumes inv: "sys_inv_at {} Map.empty {} s" and x: "calling c x a s" and en: "assert_preemption_enabled_on c s = Some ()"
    and left: "sequence_left (wait_md a)" and fresh: "no_deadline c x s"
  shows "\<exists>live' s'. sleep_user_until_counter live until s = Some (True, live', s') \<and> sys_inv_at {} Map.empty {} s' \<and> kept s s'"
proof -
  let ?tok = "WaitToken x c (next_sequence (wait_md a) + 1)"
  let ?s1 = "s\<lparr>sched := set_wait x (prepared_md x c Automatic (wait_md a)) (sched s)\<rparr>"
  let ?a0 = "\<lparr>aw_token = ?tok, aw_phase = Prepared, aw_consumption = Automatic\<rparr>" and ?p = "PreparedWait ?tok Automatic"
  note m = callingD [OF x] and p = sys_prepare [OF inv x en left]
  have cpu1: "current_cpu ?s1 = Some c" "current (cpus (sched ?s1) c) = Some x" using m(1,3) by simp_all
  have "no_deadline c x ?s1" using fresh by (simp add: no_deadline_def)
  moreover have "tid_index x < length (slots (lifecycle (sched ?s1)))" using lookup_index_less [OF m(5)] by simp
  moreover have "wt_sequence ?tok \<le> slot_seq (sched ?s1) (tid_index x)" using p(5) [of Automatic] by simp
  ultimately obtain s2 where s2: "publish_sleep until ?tok ?s1 = Some s2" "sys_inv_at {} (Map.empty(c \<mapsto> x)) {} s2" "quanta s2 c = {}"
    "neutral ?s1 s2" "dispatching s2 = dispatching ?s1"
    using sys_publish_sleep [OF p(3) [of Automatic] cpu1 _ _ _ _ _ p(6), of until] by auto
  have com: "committing c x (a\<lparr>wait_md := prepared_md x c Automatic (wait_md a)\<rparr>) ?p ?a0 s2"
    by (rule committing_neutral [OF p(4) s2(4)])
  obtain live' s3 y where s3: "commit_wait_with c (\<lambda>_. finish_block_after_quantum_cancel c) live ?p s2 =
      do { s' \<leftarrow> finish_block_after_quantum_cancel c s3; Some (CommitBlocked (Switch x y), live', s') }"
    "sys_inv_at {} ((Map.empty(c \<mapsto> x))(c \<mapsto> x)) {} s3" "kept s2 s3" "events s3 = events s2"
    "left_waiting x (a\<lparr>wait_md := prepared_md x c Automatic (wait_md a)\<rparr>) s2 s3"
    by (rule commit_block [OF s2(2) _ _ com]) simp_all
  have "quanta s3 c = {}" "current_cpu s3 = Some c"
    using s2(3) s3(4) keptD(3) [OF s3(3)] neutralD(5) [OF s2(4)] cpu1 by (simp_all add: quanta_def)
  then obtain s4 where s4: "finish_block_after_quantum_cancel c s3 = Some s4" "sys_inv_at {} (((Map.empty(c \<mapsto> x))(c \<mapsto> x))(c := None)) {} s4" "kept s3 s4"
    using finish_block_after_cancel_ok [OF s3(2)] by blast
  have "sleep_user_until_counter live until s = Some (True, live', s4)"
    using m(1) sys_inv_atD(8) [OF inv] p(2) s2(1) s3(1) s4(1) by (simp add: sleep_user_until_counter_def commit_prepared_sleep_def)
  moreover have "kept s s2" by (rule kept_trans [OF kept_sched kept_neutral [OF s2(4,5)]])
  ultimately show ?thesis using s4(2) kept_trans [OF _ kept_trans [OF s3(3) s4(3)], of s] by simp
qed

end
