(* ===== verification/Sched_Threads.thy ===== *)
theory Sched_Threads
  imports Sched_Calls
begin

text \<open>Thread exit, join and creation by a running thread.\<close>

section \<open>Exit\<close>

lemma exited_on:
  assumes inv: "sched_inv_at P R S" and cur: "current (cpus S c) = Some x" and ni: "idle (cpus S c) \<noteq> Some x" and a: "lookup S x = Some a"
  shows "switch_on c {x} S ((exited_to c x code S)\<lparr>scheduler_ipi_pending := p\<rparr>)"
proof -
  obtain b where b: "lookup S (next_thread c S) = Some b" "home_cpu b = c" "tstate b = Ready" "next_thread c S \<noteq> x"
    by (rule next_thread_ready [OF sched_inv_atD(2) [OF inv] cur ni])
  have ah: "home_cpu a = c" using cpu_inv_current [OF sched_inv_atD(2) [OF inv] cur] a by auto
  note e = exited_to_effect [OF a b(1,4), where code = code]
  have g: "grows S ((exited_to c x code S)\<lparr>scheduler_ipi_pending := p\<rparr>)" by (rule grows_trans [OF e(5)]) simp
  have l: "lookup ((exited_to c x code S)\<lparr>scheduler_ipi_pending := p\<rparr>) =
      (lookup S)(x \<mapsto> a\<lparr>exit_code := Some code, tstate := Exited\<rparr>, next_thread c S \<mapsto> b\<lparr>tstate := Running\<rparr>)"
    by (simp add: e)
  show ?thesis by (rule switch_on_upd2 [OF a b(1) l b(4) [symmetric]]) (use ah e g in simp_all)
qed

text \<open>The root of the exiting thread is detached before the idle thread would retain it.\<close>

lemma exit_detach:
  assumes inv: "sys_inv_at P Q {} s" and cpu: "current_cpu s = Some c" and a: "lookup (sched s) x = Some a"
    and sw: "switch_on c {x} (sched s) (sched s')" and inv': "sys_inv_at P' Q' {c} s'" and same: "same_machine s s'" "user_spaces s' = user_spaces s"
  shows "\<exists>u. (if thread_space a \<noteq> None \<and> idle (cpus (sched s') c) = Some y then clear_current_space s' else Some s') =
      Some (s'\<lparr>user_spaces := u\<rparr>) \<and> sys_inv_at P' Q' {c} (s'\<lparr>user_spaces := u\<rparr>) \<and> retains_live c y (s'\<lparr>user_spaces := u\<rparr>)"
proof -
  note d = sys_inv_atD [OF inv] and d' = sys_inv_atD [OF inv']
  have c: "c < KERNEL_CPU_CAPACITY" using current_cpu_executing [OF cpu] by simp
  have cpu': "current_cpu s' = Some c" using cpu same_machine_cpu [OF same(1)] by simp
  show ?thesis
  proof (cases "thread_space a \<noteq> None \<and> idle (cpus (sched s') c) = Some y")
    case False
    have "retains_live c y s'" unfolding retains_live_def
    proof (intro impI)
      assume i: "idle (cpus (sched s') c) = Some y" and r: "installed (user_spaces s' c) \<noteq> NO_ACTIVE_USER_ROOT"
      then obtain z b p where z: "lookup (sched s) z = Some b" "home_cpu b = c" "tstate b \<noteq> Exited" "thread_space b = Some p"
        "root_pa p = installed (user_spaces s' c)"
        using spaces_okD(3) [OF d(6) c] same(2) by (auto simp: space_live_def)
      obtain b' where b': "lookup (sched s') z = Some b'" "home_cpu b' = home_cpu b" "thread_space b' = thread_space b"
        "tstate b' = Exited \<longrightarrow> tstate b = Exited \<or> z \<in> {x}" using switch_onD(4) [OF sw z(1)] by blast
      have "z \<noteq> x" using z(1,4) a False i by auto
      then have "tstate b' \<noteq> Exited" using b'(4) z(3) by auto
      then show "space_live (sched s') c (installed (user_spaces s' c))" unfolding space_live_def using b' z by auto
    qed
    then show ?thesis using False inv' by (intro exI [of _ "user_spaces s'"]) auto
  next
    case True
    let ?sp = "user_spaces s'"
    let ?st = "if installed (?sp c) = NO_ACTIVE_USER_ROOT then (?sp c)\<lparr>user_access := False\<rparr>
      else (?sp c)\<lparr>user_access := False, installed := NO_ACTIVE_USER_ROOT\<rparr>"
    let ?u = "?sp(c := ?st)"
    have "vm_result (arch_clear s') = Inr ()" using d'(9) by (simp add: arch_ok_def vm_result_def)
    then have run: "clear_current_space s' = Some (s'\<lparr>user_spaces := ?u\<rparr>)"
      using cpu' by (simp add: clear_current_space_def clear_user_address_space_def Let_def)
    have inst: "installed (?u c) = NO_ACTIVE_USER_ROOT" by simp
    have "spaces_inv ?u" using spaces_okD(1) [OF d'(6)] c by (intro spaces_inv_same_root) (auto split: if_splits)
    then have "spaces_ok {c} (s'\<lparr>user_spaces := ?u\<rparr>)" using spaces_okD [OF d'(6)] by (intro spaces_okI) auto
    moreover have "quanta_ok Q' (s'\<lparr>user_spaces := ?u\<rparr>)" by (rule quanta_ok_cong [OF d'(5)]) simp_all
    moreover have "deadlines_ok (s'\<lparr>user_spaces := ?u\<rparr>)" "homes_ok (s'\<lparr>user_spaces := ?u\<rparr>)"
      using d'(3,4) by (simp_all add: deadlines_ok_def homes_ok_def)
    moreover have "machine_ok (s'\<lparr>user_spaces := ?u\<rparr>)" using d'(7) by (intro machine_ok_next [OF d'(2)]) simp_all
    ultimately have "sys_inv_at P' Q' {c} (s'\<lparr>user_spaces := ?u\<rparr>)" using d'(1) by (simp add: sys_inv_at_def)
    moreover have "retains_live c y (s'\<lparr>user_spaces := ?u\<rparr>)" by (simp add: retains_live_def)
    ultimately show ?thesis using True run by (intro exI [of _ ?u]) simp
  qed
qed

lemma on_thread_exit_ok:
  assumes inv: "sys_inv_at {} Map.empty {} s" and x: "calling c x a s" and en: "assert_preemption_enabled_on c s = Some ()"
  shows "\<exists>live' s'. on_thread_exit_sync live code s = Some (live', s') \<and> sys_inv_at {} Map.empty {} s' \<and> kept s s'"
proof -
  note cpu = callingD(1) [OF x]
  obtain s1 where s1: "finalize_retired c True s = Some s1" "sys_inv_at {} Map.empty {} s1" "background c s s1"
    "retired (cpus (sched s1) c) = None" using sys_finalize [OF inv cpu, of True] by auto
  have x1: "calling c x a s1" by (rule calling_background [OF inv x s1(3)])
  note m = callingD [OF x1] and d = sys_inv_atD [OF s1(2)]
  let ?y = "next_thread c (sched s1)"
  obtain l S' where tr: "transition_exit_current c code s1 = Some (Switch x ?y, s1\<lparr>ipi_sent := l, sched := S'\<rparr>)"
    "S' = (exited_to c x code (sched s1))\<lparr>scheduler_ipi_pending := (scheduler_ipi_pending (sched s1))(c := True)\<rparr>" "sched_inv_at {} {} S'"
    using exit_ok [OF d(1) sys_inv_ready [OF s1(2) m(1)] m(3,4) s1(4) m(5,6), of code] by blast
  let ?s2 = "s1\<lparr>ipi_sent := l, sched := S'\<rparr>"
  have sw: "switch_on c {x} (sched s1) (sched ?s2)" using exited_on [OF d(1) m(3,4,5)] tr(2) by simp
  have inv2: "sys_inv_at {} (Map.empty(c \<mapsto> x)) {c} ?s2"
  proof -
    have "sys_inv_at {} (Map.empty(c \<mapsto> x)) (insert c {}) ?s2"
      using m(3) d(7) tr(3) by (intro sys_switch [OF s1(2) sw]) (simp_all add: same_machine_def)
    then show ?thesis by simp
  qed
  obtain b where b: "lookup (sched s1) ?y = Some b" "?y \<noteq> x"
    by (rule next_thread_ready [OF sched_inv_atD(2) [OF d(1)] m(3,4)])
  note e = exited_to_effect [OF m(5) b, where code = code]
  have x2: "lookup S' x = Some (a\<lparr>exit_code := Some code, tstate := Exited\<rparr>)" "lookup S' ?y = Some (b\<lparr>tstate := Running\<rparr>)"
    using b(2) by (simp_all add: tr(2) e)
  have asp: "thread_address_space (tid_index x) S' = Some (thread_space a)"
    by (simp add: thread_address_space_def lookup_thread_at [OF x2(1)] thread_space_def)
  obtain u where u: "(if thread_space a \<noteq> None \<and> idle (cpus (sched ?s2) c) = Some ?y then clear_current_space ?s2 else Some ?s2) =
      Some (?s2\<lparr>user_spaces := u\<rparr>)" "sys_inv_at {} (Map.empty(c \<mapsto> x)) {c} (?s2\<lparr>user_spaces := u\<rparr>)" "retains_live c ?y (?s2\<lparr>user_spaces := u\<rparr>)"
    using exit_detach [OF s1(2) m(1,5) sw inv2, of ?y] by (auto simp: same_machine_def)
  have pre: "current_cpu (?s2\<lparr>user_spaces := u\<rparr>) = Some c" "current (cpus (sched (?s2\<lparr>user_spaces := u\<rparr>)) c) = Some ?y"
    "online (cpus (sched (?s2\<lparr>user_spaces := u\<rparr>)) c)" using m(1,2) by (simp_all add: tr(2) e)
  obtain u' where u': "activate_thread_address_space c ?y (?s2\<lparr>user_spaces := u\<rparr>) = Some (?s2\<lparr>user_spaces := u\<rparr>\<lparr>user_spaces := u'\<rparr>)"
    "sys_inv_at {} (Map.empty(c \<mapsto> x)) {} (?s2\<lparr>user_spaces := u\<rparr>\<lparr>user_spaces := u'\<rparr>)"
    using sys_activate [OF u(2) pre u(3)] by blast
  let ?s3 = "?s2\<lparr>user_spaces := u\<rparr>\<lparr>user_spaces := u'\<rparr>"
  have "current_cpu ?s3 = Some c" using m(1) by simp
  then obtain s4 where s4: "finish_block_current c x ?s3 = Some s4" "sys_inv_at {} ((Map.empty(c \<mapsto> x))(c := None)) {} s4" "kept ?s3 s4"
    using finish_block_current_ok [OF u'(2)] by auto
  have "exit_current c live code s = Some (restore_into (saved_ctx (b\<lparr>tstate := Running\<rparr>)) live, s4)"
    using s1(1) tr(1) asp u(1) u'(1) s4(1) lookup_thread_at [OF x2(2)]
    by (simp add: exit_current_def transition_finalize_retired_def saved_context_of_def)
  then have "on_thread_exit_sync live code s = Some (restore_into (saved_ctx (b\<lparr>tstate := Running\<rparr>)) live, s4)"
    using cpu en sys_inv_atD(8) [OF inv] by (simp add: on_thread_exit_sync_def)
  moreover have "kept s1 ?s3" by (simp add: kept_def same_machine_def)
  ultimately show ?thesis using s4(2) kept_trans [OF kept_background [OF s1(3)] kept_trans [OF _ s4(3)]] by simp
qed

section \<open>Join\<close>

text \<open>A sequence number that the slot has not issued yet names no pending deadline and no join.\<close>

lemma register_joiner_inv:
  assumes inv: "sched_inv_at {} R S" and t: "lookup S t = Some th" "joinable th" "joiner th = None"
      "tstate th = Exited \<Longrightarrow> retired_on S (home_cpu th) = Some t"
    and x: "lookup S x = Some a" "reaped_user a = None" "active (wait_md a) = Some a0" "aw_token a0 = tok" "aw_phase a0 = Prepared"
      "aw_consumption a0 = Explicit" "wt_thread tok = x" and ne: "t \<noteq> x" and nj: "\<not> joiner_token S tok"
  shows "sched_inv_at {x} R (upd_thread t (\<lambda>th. th\<lparr>joiner := Some tok\<rparr>) S)"
proof (rule sched_inv_atI)
  let ?f = "\<lambda>th::thread. th\<lparr>joiner := Some tok\<rparr>" let ?S = "upd_thread t ?f S"
  note i = sched_inv_atD [OF inv] and l = lookup_upd_thread_fun [OF t(1), of ?f]
  show "table_ok R ?S" using i(1) t(1) by simp
  have "placed ?S = placed S" using t(1) by simp
  then show "cpu_inv ?S c" for c using i(2) [of c] by (simp only: cpu_inv_def upd_thread_frame)
  show "thread_ok z b" if "lookup ?S z = Some b" for z b
    using that i(3) i(3) [OF t(1)] by (auto simp: l thread_ok_def split: if_splits)
  show "idle_ok ?S" by (rule idle_ok_upd_thread [OF i(5) t(1)]) simp_all
  have wx: "waits_as {x} a tok" using x by (simp add: waits_as_def)
  have cases': "z = t \<and> b = ?f th \<and> tok' = tok \<or> z \<noteq> t \<and> lookup S z = Some b \<and> joiner_token S tok'"
    if z: "lookup ?S z = Some b" "joiner b = Some tok'" for z b tok'
    using z by (cases "z = t") (auto simp: l joiner_token_def)
  show "join_ok {x} (lookup ?S) (retired_on ?S)"
  proof (rule join_okI)
    fix z b tok' assume z: "lookup ?S z = Some b" "joiner b = Some tok'"
    from cases' [OF z] show "joinable b \<and> (tstate b = Exited \<longrightarrow> retired_on ?S (home_cpu b) = Some z) \<and>
        (\<exists>jt. lookup ?S (wt_thread tok') = Some jt \<and> waits_as {x} jt tok')"
    proof
      assume "z = t \<and> b = ?f th \<and> tok' = tok"
      then show ?thesis using t(2,4) x ne wx by (auto simp: l)
    next
      assume zz: "z \<noteq> t \<and> lookup S z = Some b \<and> joiner_token S tok'"
      then have z': "lookup S z = Some b" by simp
      note d = join_okD [OF i(4) z' z(2)]
      obtain jt where jt: "lookup S (wt_thread tok') = Some jt" "waits_as {} jt tok'" using d(3) by blast
      have "\<exists>jt. lookup ?S (wt_thread tok') = Some jt \<and> waits_as {x} jt tok'"
        using jt t(1) by (cases "wt_thread tok' = t") (auto simp: l waits_as_def)
      then show ?thesis using d(1,2) by simp
    qed
  next
    fix z b z' b' tok'
    assume z: "lookup ?S z = Some b" "joiner b = Some tok'" and z': "lookup ?S z' = Some b'" "joiner b' = Some tok'"
    show "z = z'"
      using cases' [OF z] cases' [OF z'] nj join_okD(4) [OF i(4), of z b tok' z' b'] z(2) z'(2) by auto
  qed
qed

lemma sys_register_joiner:
  assumes inv: "sys_inv_at {} Q U s" and t: "lookup (sched s) t = Some th" "joinable th" "joiner th = None"
      "tstate th = Exited \<Longrightarrow> retired_on (sched s) (home_cpu th) = Some t"
    and x: "lookup (sched s) x = Some a" "reaped_user a = None" "active (wait_md a) = Some a0" "aw_token a0 = tok" "aw_phase a0 = Prepared"
      "aw_consumption a0 = Explicit" "wt_thread tok = x" and ne: "t \<noteq> x" and nj: "\<not> joiner_token (sched s) tok"
    and nd: "\<And>c cpu. c < cpus_registered s \<Longrightarrow> WaitDeadline cpu tok \<notin> events s c"
  shows "sys_inv_at {x} Q U (s\<lparr>sched := upd_thread t (\<lambda>th. th\<lparr>joiner := Some tok\<rparr>) (sched s)\<rparr>)"
proof -
  let ?f = "\<lambda>th::thread. th\<lparr>joiner := Some tok\<rparr>" let ?S = "upd_thread t ?f (sched s)" let ?s = "s\<lparr>sched := ?S\<rparr>"
  note d = sys_inv_atD [OF inv] and l = lookup_upd_thread_fun [OF t(1), of ?f]
  have S: "sched_inv_at {x} {} ?S" by (rule register_joiner_inv [OF d(1) t x ne nj])
  have tokens: "joiner_token ?S tok' \<Longrightarrow> tok' = tok \<or> joiner_token (sched s) tok'" for tok'
    by (auto simp: joiner_token_def l split: if_splits)
  have g: "grows (sched s) ?S" using t(1) by (simp add: grows_upd_thread)
  have "deadlines_ok ?s"
  proof (rule deadlines_okI)
    fix c cpu tok' assume c: "c < cpus_registered ?s" "WaitDeadline cpu tok' \<in> events ?s c"
    have "tok' \<noteq> tok" using nd [of c cpu] c by auto
    then have "\<not> joiner_token ?S tok'" if "\<not> joiner_token (sched s) tok'" using that tokens by blast
    then show "cpu = c \<and> wt_cpu tok' = c \<and> tid_index (wt_thread tok') < length (slots (lifecycle (sched ?s))) \<and>
      wt_sequence tok' \<le> slot_seq (sched ?s) (tid_index (wt_thread tok')) \<and> \<not> joiner_token (sched ?s) tok'"
      using deadlines_okD(1) [OF d(4), of c cpu tok'] c t(1) by (auto simp: slot_seq_upd_thread slot_seq_lookup)
  qed (use deadlines_okD(2) [OF d(4)] in simp)
  moreover have "quanta_ok Q ?s" by (rule quanta_ok_cong [OF d(5)]) simp_all
  moreover have "homes_ok ?s" using d(3) t(1) by (auto simp: homes_ok_def l)
  moreover have "machine_ok ?s" using d(7) by (intro machine_ok_next [OF d(2)]) simp_all
  moreover have "spaces_ok U ?s"
  proof -
    note u = spaces_okD [OF d(6)]
    have "thread_space (?f th) = thread_space th" by (simp add: thread_space_def)
    then have "roots_ok ?S" "user_context c ?S = user_context c (sched s)" for c
      using u(2) t(1) unfolding roots_ok_def l
      by (auto split: if_splits) (cases "current (cpus (sched s) c)"; simp add: user_context_def l)
    moreover have "space_live (sched s) c r \<Longrightarrow> space_live ?S c r" for c r
      using t(1) by (intro space_live_upd_thread [of "sched s"]) simp_all
    ultimately show ?thesis using u by (intro spaces_okI) simp_all
  qed
  ultimately show ?thesis using S by (simp add: sys_inv_at_def)
qed

lemma retiring_lookup:
  assumes "lookup S t = Some th"
  shows "thread_is_retiring t S = Some (retired_on S (home_cpu th) = Some t)"
  using assms lookup_thread_at [OF assms]
  by (simp add: thread_is_retiring_def thread_matches_lookup thread_home_cpu_def retired_on_def)

text \<open>A refusal is an answer, and its absence says that the target can be joined.\<close>

lemma join_refusal_cases:
  assumes ni: "idle (cpus S c) \<noteq> Some x"
  obtains err where "join_refusal c x t S = Some (Some err)"
  | th where "join_refusal c x t S = Some None" "lookup S t = Some th" "joinable th" "joiner th = None" "t \<noteq> x"
      "idle (cpus S (home_cpu th)) \<noteq> Some t"
proof (cases "lookup S t")
  case None
  then show ?thesis using that(1) [of InvalidThread] ni by (simp add: join_refusal_def thread_matches_lookup)
next
  case (Some th)
  then have "join_refusal c x t S = Some (if idle (cpus S (home_cpu th)) = Some t then Some NotJoinable
      else if tid_index t = tid_index x then Some SelfJoin else if \<not> joinable th then Some NotJoinable
      else if joiner th \<noteq> None then Some JoinInProgress else None)"
    using ni by (simp add: join_refusal_def thread_matches_lookup lookup_thread_at [OF Some])
  then show ?thesis using that Some by (fastforce split: if_splits)
qed

text \<open>Joining a thread that has exited and retired reaps it at once.\<close>

lemma reap_join_ok:
  assumes inv: "sched_inv_at P R S" and t: "lookup S t = Some th" "tstate th = Exited" "retired_on S (home_cpu th) \<noteq> Some t"
  shows "transition_reap_exited t S = Some (user_res th, released t th S)"
proof -
  note i = sched_inv_atD [OF inv]
  have "idle (cpus S (home_cpu th)) \<noteq> Some t" "current (cpus S (home_cpu th)) \<noteq> Some t"
    using cpu_inv_idle [OF i(2)] cpu_inv_current [OF i(2)] t(1,2) by fastforce+
  moreover have "\<not> list_ex (\<lambda>q. tid_index q = tid_index t) (ready_queue (cpus S (home_cpu th)))"
  proof
    assume "list_ex (\<lambda>q. tid_index q = tid_index t) (ready_queue (cpus S (home_cpu th)))"
    then obtain q where q: "q \<in> set (ready_queue (cpus S (home_cpu th)))" "tid_index q = tid_index t" by (auto simp: list_ex_iff)
    then obtain b where "lookup S q = Some b" "tstate b = Ready" using cpu_inv_queued [OF i(2), of q "home_cpu th"] by blast
    then show False using lookup_index_inj [OF _ t(1), of q] q(2) t by auto
  qed
  moreover have "active (wait_md th) = None" using i(3) [OF t(1)] t(2) by (auto simp: thread_ok_def phase_ok_def split: option.splits wait_phase.splits)
  ultimately show ?thesis
    using t(2,3) lookup_index_less [OF t(1)] reap_exited_ok [OF t(1)] lookup_thread_at [OF t(1)] retiring_lookup [OF t(1)] t(1)
    by (simp add: transition_reap_exited_def thread_matches_lookup Let_def)
qed

lemma sys_own_result:
  assumes inv: "sys_inv_at {} Q {} s" and x: "lookup (sched s) x = Some a" "active (wait_md a) = None"
  shows "sys_inv_at {} Q {} (s\<lparr>sched := upd_thread x (\<lambda>th. th\<lparr>last_join_result := r\<rparr>) (sched s)\<rparr>)"
    "sys_inv_at {} Q {} (s\<lparr>sched := upd_thread x (\<lambda>th. th\<lparr>reaped_user := u\<rparr>) (sched s)\<rparr>)"
  using sched_inv_atD(3) [OF sys_inv_atD(1) [OF inv] x(1)] x(2)
  by (intro sys_upd_thread [OF inv x(1)]; simp add: thread_ok_def waits_as_def)+

lemma join_exited_ok:
  assumes inv: "sys_inv_at {} Q {} s" and x: "calling c x a s" and free: "reaped_user a = None"
    and t: "lookup (sched s) t = Some th" "tstate th = Exited" "retired_on (sched s) (home_cpu th) \<noteq> Some t" and ne: "t \<noteq> x"
  shows "\<exists>S' code. exit_code th = Some code \<and> join_exited x t th s = Some (s\<lparr>sched := S'\<rparr>) \<and> sys_inv_at {} Q {} (s\<lparr>sched := S'\<rparr>) \<and>
    lookup S' = (lookup (sched s))(t := None, x \<mapsto> a\<lparr>reaped_user := user_res th, last_join_result := Some (Inr code)\<rparr>)"
proof -
  note d = sys_inv_atD [OF inv] and m = callingD [OF x]
  let ?S1 = "released t th (sched s)"
  let ?S2 = "upd_thread x (\<lambda>th'. th'\<lparr>reaped_user := user_res th\<rparr>) ?S1"
  obtain code where code: "exit_code th = Some code" using sched_inv_atD(3) [OF d(1) t(1)] t(2) by (auto simp: thread_ok_def)
  let ?S3 = "upd_thread x (\<lambda>th. th\<lparr>last_join_result := Some (Inr code)\<rparr>) ?S2"
  have l1: "lookup ?S1 = (lookup (sched s))(t := None)" by (rule lookup_released [OF t(1)])
  then have x1: "lookup ?S1 x = Some a" using m(5) ne by simp
  then have x2: "lookup ?S2 x = Some (a\<lparr>reaped_user := user_res th\<rparr>)" by (simp add: lookup_upd_thread)
  have "background c s (s\<lparr>sched := ?S1\<rparr>)" using released_background [OF t(1,2)] by (intro background_sched) simp_all
  moreover have "sched_inv_at {} {} ?S1" using t(3) by (intro release_inv [OF d(1) t(1,2)]) (simp add: retired_on_def)
  moreover have "quantum_needed c ?S1 = quantum_needed c (sched s)" by (simp add: quantum_needed_def split: option.split)
  ultimately have inv1: "sys_inv_at {} Q {} (s\<lparr>sched := ?S1\<rparr>)" using d(7)
    by (intro sys_background [OF inv]) (auto simp: adds_quantum_def keeps_quantum_def fun_upd_idem intro!: exI [of _ "{}"])
  have inv2: "sys_inv_at {} Q {} (s\<lparr>sched := ?S2\<rparr>)" using sys_own_result(2) [OF inv1, of x a] x1 m(6) by simp
  have inv3: "sys_inv_at {} Q {} (s\<lparr>sched := ?S3\<rparr>)" using sys_own_result(1) [OF inv2, of x] x2 m(6) by simp
  have "join_exited x t th s = Some (s\<lparr>sched := ?S3\<rparr>)"
    using reap_join_ok [OF d(1) t] code x1 free update_thread_lookup [OF x1] update_thread_lookup [OF x2]
    by (simp add: join_exited_def set_reaped_user_def set_join_result_def lookup_def)
  moreover have "lookup ?S3 = (lookup (sched s))(t := None, x \<mapsto> a\<lparr>reaped_user := user_res th, last_join_result := Some (Inr code)\<rparr>)"
    by (simp add: lookup_upd_thread_fun [OF x2] lookup_upd_thread_fun [OF x1] l1)
  ultimately show ?thesis using code inv3 by blast
qed

lemma join_block_ok:
  assumes inv: "sys_inv_at {} Map.empty {} s" and x: "calling c x a s" and free: "reaped_user a = None"
    and en: "assert_preemption_enabled_on c s = Some ()" and left: "sequence_left (wait_md a)"
    and t: "lookup (sched s) t = Some th" "joinable th" "joiner th = None"
      "tstate th = Exited \<Longrightarrow> retired_on (sched s) (home_cpu th) = Some t" and ne: "t \<noteq> x"
  shows "\<exists>out' live' s'. join_block c live t out s = Some (out', live', s') \<and> sys_inv_at {} Map.empty {} s' \<and> kept s s'"
proof -
  let ?tok = "WaitToken x c (next_sequence (wait_md a) + 1)"
  let ?a1 = "a\<lparr>wait_md := prepared_md x c Explicit (wait_md a)\<rparr>"
  let ?s1 = "s\<lparr>sched := set_wait x (prepared_md x c Explicit (wait_md a)) (sched s)\<rparr>"
  let ?a0 = "\<lparr>aw_token = ?tok, aw_phase = Prepared, aw_consumption = Explicit\<rparr>" and ?p = "PreparedWait ?tok Explicit"
  let ?S2 = "upd_thread t (\<lambda>th. th\<lparr>joiner := Some ?tok\<rparr>) (sched ?s1)" let ?s2 = "?s1\<lparr>sched := ?S2\<rparr>"
  note m = callingD [OF x] and p = sys_prepare [OF inv x en left]
  note com = committingD [OF p(4) [of Explicit]]
  have t1: "lookup (sched ?s1) t = Some th" using t(1) m(5) ne by (simp add: lookup_upd_thread)
  have seq: "slot_seq (sched s) (tid_index x) < wt_sequence ?tok"
    using sequence_left_less [OF left] by (simp add: slot_seq_lookup [OF m(5)])
  have "WaitDeadline cpu ?tok \<notin> events ?s1 c'" if "c' < cpus_registered ?s1" for c' cpu
    using deadlines_okD(1) [OF sys_inv_atD(4) [OF inv], of c' cpu ?tok] that seq by auto
  then have inv2: "sys_inv_at {x} Map.empty {} ?s2"
    using t free com(5) by (intro sys_register_joiner [OF p(3) [of Explicit] t1 t(2,3) _ com(5) _ com(6) _ _ _ _ ne p(6)]) simp_all
  have "lookup ?S2 x = Some ?a1" using lookup_upd_thread [OF t1] com(5) ne by simp
  then have com2: "committing c x ?a1 ?p ?a0 ?s2"
    using com same_machine_enabled [of ?s1 ?s2 c] by (simp add: committing_def same_machine_def)
  obtain r live' s3 where s3: "commit_prepared_wait c live ?p ?s2 = Some (r, live', s3)" "r \<noteq> CommittedStale"
    "sys_inv_at {} Map.empty {} s3" "kept ?s2 s3"
    using commit_prepared_wait_ok [OF inv2 _ com2, of live] by auto
  have "kept s ?s2" by (rule kept_trans [OF kept_sched kept_sched])
  moreover have "\<exists>out'. join_block c live t out s = Some (out', live', s3)"
    using en p(1) update_thread_lookup [OF t1] s3(1,2) by (cases r) (simp_all add: join_block_def Let_def)
  ultimately show ?thesis using s3(3) kept_trans [OF _ s3(4), of s] by blast
qed

lemma on_thread_join_ok:
  assumes inv: "sys_inv_at {} Map.empty {} s" and x: "calling c x a s" and free: "last_join_result a = None" "reaped_user a = None"
    and en: "assert_preemption_enabled_on c s = Some ()" and left: "sequence_left (wait_md a)"
  shows "\<exists>out' live' s'. on_thread_join_sync live t out s = Some (out', live', s') \<and> sys_inv_at {} Map.empty {} s' \<and> kept s s'"
proof -
  note cpu = callingD(1) [OF x]
  obtain s1 where s1: "finalize_retired c True s = Some s1" "sys_inv_at {} Map.empty {} s1" "background c s s1"
    using sys_finalize [OF inv cpu, of True] by auto
  have x1: "calling c x a s1" by (rule calling_background [OF inv x s1(3)])
  note m = callingD [OF x1] and at = lookup_thread_at [OF callingD(5) [OF x1]]
  have en1: "assert_preemption_enabled_on c s1 = Some ()" using en same_machine_enabled [OF backgroundD(1) [OF s1(3)]] by simp
  have kept1: "kept s s1" by (rule kept_background [OF s1(3)])
  have eq: "on_thread_join_sync live t out s = (do {
      refusal \<leftarrow> join_refusal c x t (sched s1);
      case refusal of Some err \<Rightarrow> do { S \<leftarrow> set_join_result (tid_index x) (Inl err) (sched s1); Some (out, live, s1\<lparr>sched := S\<rparr>) }
      | None \<Rightarrow> do { th \<leftarrow> thread_at (tid_index t) (sched s1); retiring \<leftarrow> thread_is_retiring t (sched s1);
          if tstate th = Exited \<and> \<not> retiring then do { s \<leftarrow> join_exited x t th s1; Some (out, live, s) }
          else join_block c live t out s1 } })"
    using cpu sys_inv_atD(8) [OF inv] s1(1) m(3) at free
    by (simp add: on_thread_join_sync_def join_thread_def transition_finalize_retired_def running_thread_def)
  show ?thesis
  proof (rule join_refusal_cases [OF m(4), of t])
    fix err assume r: "join_refusal c x t (sched s1) = Some (Some err)"
    have "sys_inv_at {} Map.empty {} (s1\<lparr>sched := upd_thread x (\<lambda>th. th\<lparr>last_join_result := Some (Inl err)\<rparr>) (sched s1)\<rparr>)"
      by (rule sys_own_result(1) [OF s1(2) m(5,6)])
    then show ?thesis
      using eq r kept_trans [OF kept1 kept_sched] by (simp add: set_join_result_def update_thread_lookup [OF m(5)])
  next
    fix th assume r: "join_refusal c x t (sched s1) = Some None" and t: "lookup (sched s1) t = Some th" "joinable th" "joiner th = None" "t \<noteq> x"
    show ?thesis
    proof (cases "tstate th = Exited \<and> retired_on (sched s1) (home_cpu th) \<noteq> Some t")
      case True
      then show ?thesis
        using eq r lookup_thread_at [OF t(1)] retiring_lookup [OF t(1)] join_exited_ok [OF s1(2) x1 free(2) t(1) _ _ t(4)]
          kept_trans [OF kept1 kept_sched] by auto
    next
      case False
      then obtain out' live' s2 where "join_block c live t out s1 = Some (out', live', s2)" "sys_inv_at {} Map.empty {} s2" "kept s1 s2"
        using join_block_ok [OF s1(2) x1 free(2) en1 left t(1-3) _ t(4), of live out] by auto
      then show ?thesis using eq r lookup_thread_at [OF t(1)] retiring_lookup [OF t(1)] False kept_trans [OF kept1] by auto
    qed
  qed
qed

end
