(* ===== verification/Sched_Spawn.thy ===== *)
theory Sched_Spawn
  imports Sched_Threads
begin

text \<open>
  Creating threads and replacing the resources of the running one, on whole systems: every spawn
  returns, either an error with nothing changed or the identity of a published thread, and the
  invariant survives. The address space of a new program has a root no thread uses.
\<close>

section \<open>New roots\<close>

definition fresh_root :: "address_space_id \<Rightarrow> scheduler \<Rightarrow> bool" where
  "fresh_root p S \<longleftrightarrow> root_pa p \<noteq> NO_ACTIVE_USER_ROOT \<and>
     (\<forall>x a q. lookup S x = Some a \<longrightarrow> thread_space a = Some q \<longrightarrow> root_pa q \<noteq> root_pa p)"

lemma roots_ok_new:
  assumes "roots_ok S" "lookup S' = (lookup S)(x \<mapsto> th)" "\<And>p. thread_space th = Some p \<Longrightarrow> fresh_root p S"
  shows "roots_ok S'"
  using assms(1,3) unfolding roots_ok_def fresh_root_def assms(2) by (auto split: if_splits) metis+

section \<open>Publication\<close>

lemma published_slot_taken:
  assumes "published c x th (slot_taken S) S'"
  shows "published c x th S S'"
  using assms grows_trans [of S "slot_taken S" S'] by (simp add: published_def)

lemma published_spaces:
  assumes ok: "spaces_ok U s" and pub: "published c x th (sched s) (sched s')" and u: "user_spaces s' = user_spaces s"
    and fresh: "\<And>p. thread_space th = Some p \<Longrightarrow> fresh_root p (sched s)" and inv: "sched_inv_at P R (sched s)"
  shows "spaces_ok U s'"
proof -
  note d = spaces_okD [OF ok]
  have l: "lookup (sched s') = (lookup (sched s))(x \<mapsto> th)" "lookup (sched s) x = None" using pub by (simp_all add: published_def)
  have cpu: "current (cpus (sched s') c') = current (cpus (sched s) c')" "online (cpus (sched s') c') = online (cpus (sched s) c')" for c'
    using pub by (cases "c' = c"; simp add: published_def)+
  have "user_context c' (sched s') = user_context c' (sched s)" for c'
  proof (cases "current (cpus (sched s) c')")
    case (Some y)
    then obtain a where "lookup (sched s) y = Some a" using cpu_inv_current [OF sched_inv_atD(2) [OF inv]] by blast
    then show ?thesis using Some cpu l by (auto simp: user_context_def)
  qed (simp add: user_context_def cpu)
  moreover have "space_live (sched s') c' r" if live: "space_live (sched s) c' r" for c' r
  proof -
    obtain y a p where "lookup (sched s) y = Some a" "home_cpu a = c'" "tstate a \<noteq> Exited" "thread_space a = Some p" "root_pa p = r"
      using live by (auto simp: space_live_def)
    then show ?thesis unfolding space_live_def using l by (intro exI [of _ y] exI [of _ a] exI [of _ p]) auto
  qed
  moreover have "roots_ok (sched s')" by (rule roots_ok_new [OF d(2) l(1) fresh])
  ultimately show ?thesis using d u by (intro spaces_okI) simp_all
qed

lemma sys_published:
  assumes inv: "sys_inv_at {} Map.empty U s" and pub: "published c x th (sched s) (sched s')" and inv': "sched_inv_at {} {} (sched s')"
    and m: "same_machine (with_more m s) s'" and u: "user_spaces s' = user_spaces s" and add: "adds_quantum c s s'" and keep: "keeps_quantum c s s'"
    and home: "home_cpu th < cpus_registered s" and fresh: "\<And>p. thread_space th = Some p \<Longrightarrow> fresh_root p (sched s)"
  shows "sys_inv_at {} Map.empty U s'" "kept (with_more m s) s'"
proof -
  note d = sys_inv_atD [OF inv] and q = quanta_adds [OF add]
  have n: "cpus_registered s' = cpus_registered s" using m by (simp add: same_machine_def)
  have p: "grows (sched s) (sched s')" "joiner_token (sched s') = joiner_token (sched s)" "lookup (sched s') = (lookup (sched s))(x \<mapsto> th)"
    "current (cpus (sched s') c) = current (cpus (sched s) c)" "online (cpus (sched s') c) = online (cpus (sched s) c)"
    "prefix (ready_queue (cpus (sched s) c)) (ready_queue (cpus (sched s') c))" "\<And>c'. c' \<noteq> c \<Longrightarrow> cpus (sched s') c' = cpus (sched s) c'"
    using pub by (simp_all add: published_def)
  have "quanta_ok Map.empty s'"
  proof (rule quanta_ok_local [OF d(5) n, where c = c])
    assume c: "c < cpus_registered s"
    have "quanta s' c \<subseteq> quantum_needed c (sched s')" using q(1) quanta_okD(2) [OF d(5) c] quantum_needed_prefix [OF p(4,6)] by blast
    moreover have "quantum_needed c (sched s') \<subseteq> events s' c" if "online (cpus (sched s') c)"
      using keep quanta_okD(3) [OF d(5) c] that p(5) by (simp add: keeps_quantum_def)
    ultimately show "quanta_at (Map.empty c) c s'" by (simp add: quanta_at_def)
  qed (use q(3) p(7) in simp_all)
  moreover have "machine_ok s'" using d(2) m q(4) by (simp add: machine_ok_def same_machine_def arch_ok_def)
  moreover have "deadlines_ok s'" using q(2) p(2) by (intro deadlines_ok_mono [OF d(4) p(1) n]) simp_all
  moreover have "homes_ok s'" using d(3) home n by (auto simp: homes_ok_def p(3))
  ultimately show "sys_inv_at {} Map.empty U s'"
    using inv' published_spaces [OF d(6) pub u fresh d(1)] by (simp add: sys_inv_at_def)
  show "kept (with_more m s) s'" using m q(5) by (simp add: kept_def)
qed

text \<open>Publishing a thread in the slot that the free list offers.\<close>

lemma spawn_core:
  fixes s :: "'a system_scheme" and ctx :: trap_frame
  assumes inv: "sys_inv_at {} Map.empty {} s" and cpu: "current_cpu s = Some c"
    and home: "home < cpus_registered s" "online (cpus (sched s) home)" and fs: "free_slots (lifecycle (sched s)) \<noteq> []"
    and user: "\<And>u. user = Some u \<Longrightarrow> joins \<and> owner_cpu (res_address_space u) = home \<and> fresh_root (res_address_space u) (sched s)"
  defines "i \<equiv> last (free_slots (lifecycle (sched s)))"
  defines "x \<equiv> ThreadId i (next_generation (generation (slots (lifecycle (sched s)) ! i)))"
  assumes cb: "\<And>S. cb x home (map_option res_address_space user) (s\<lparr>sched := S\<rparr>) = Some ((with_more m s)\<lparr>sched := S\<rparr>)"
  shows "\<exists>s' th. publish c home i ctx user joins (tid_generation x) False False cb (s\<lparr>sched := slot_taken (sched s)\<rparr>) = Some s' \<and>
    sys_inv_at {} Map.empty {} s' \<and> kept (with_more m s) s' \<and> published c x th (sched s) (sched s') \<and>
    home_cpu th = home \<and> tstate th = Ready \<and> saved_ctx th = ctx \<and> user_res th = user \<and> joinable th = joins"
proof -
  let ?s = "s\<lparr>sched := slot_taken (sched s)\<rparr>"
  note d = sys_inv_atD [OF inv] and t = take_free_slot_ok [OF sys_inv_atD(1) [OF inv] fs, folded i_def]
  obtain stack where stack: "slot_stack (slots (lifecycle (sched s)) ! i) = Some stack" using t(6) by blast
  define th where "th = new_thread home ctx user joins (next_wait_sequence (slots (lifecycle (sched ?s)) ! i)) stack"
  have rdy: "sys_ready c ?s" using sys_inv_ready [OF inv cpu] by (simp add: sys_ready_def homes_ok_def)
  obtain y where y: "current (cpus (sched s) home) = Some y" by (rule online_current [OF inv home(2)])
  have idl: "idle (cpus (sched ?s) home) \<noteq> None" using cpu_inv_current [OF sched_inv_atD(2) [OF d(1)] y] by auto
  have x: "x = ThreadId i (tid_generation x)" by (simp add: x_def)
  have "\<exists>s'. publish c home i ctx user joins (tid_generation x) False False cb ?s = Some s' \<and> sched_inv_at {} {} (sched s') \<and>
    published c (ThreadId i (tid_generation x)) th (sched ?s) (sched s') \<and> same_machine (with_more m ?s) s' \<and>
    user_spaces s' = user_spaces ?s \<and> adds_quantum c ?s s' \<and> keeps_quantum c ?s s'" unfolding th_def
    using t(2-5) idl home(1) stack rdy sys_inv_room(3) [OF inv current_cpu_less [OF cpu]] user cb x [symmetric]
    by (intro publish_ok) simp_all
  then obtain s' where s': "publish c home i ctx user joins (tid_generation x) False False cb ?s = Some s'" "sched_inv_at {} {} (sched s')"
    "published c x th (sched s) (sched s')" "same_machine (with_more m ?s) s'" "user_spaces s' = user_spaces s"
    "adds_quantum c ?s s'" "keeps_quantum c ?s s'" using x published_slot_taken by auto
  have "quantum_needed c (slot_taken (sched s)) = quantum_needed c (sched s)" by (rule quantum_needed_cong) simp
  then have add: "adds_quantum c s s'" "keeps_quantum c s s'" "same_machine (with_more m s) s'"
    using s'(4,6,7) by (simp_all add: adds_quantum_def keeps_quantum_def same_machine_def)
  have th: "home_cpu th = home" "tstate th = Ready" "saved_ctx th = ctx" "user_res th = user" "joinable th = joins"
    by (simp_all add: th_def new_thread_def)
  have "thread_space th = Some p \<Longrightarrow> fresh_root p (sched s)" for p using user th(4) by (auto simp: thread_space_def)
  then show ?thesis using sys_published [OF inv s'(3,2) add(3) s'(5) add(1,2)] s'(1,3) th home(1) by blast
qed

section \<open>The spawn calls\<close>

lemma lookup_thread_id: "lookup S x = Some a \<Longrightarrow> thread_id_of (tid_index x) S = Some x"
  by (cases x) (auto simp: lookup_def table_get_def thread_id_of_def idx_def split: if_splits option.splits)

lemma resolve_affinity_target:
  assumes "resolve_affinity c aff s = Inr home"
  shows "home < cpus_registered s" "online (cpus (sched s) home)"
  using assms by (auto simp: resolve_affinity_def Let_def split: if_splits)

lemma stack_top_free:
  assumes "sched_inv_at P R S" "free_slots (lifecycle S) \<noteq> []"
  shows "\<exists>top. stack_top (last (free_slots (lifecycle S))) (slot_taken S) = Some top"
  using take_free_slot_ok(3,4,6) [OF assms] by (auto simp: stack_top_def idx_def)

lemma take_free_slot_none: "free_slots (lifecycle S) = [] \<Longrightarrow> take_free_slot S = (None, S)"
  by (simp add: take_free_slot_def)

lemma thread_spawn_ok:
  assumes inv: "sys_inv_at {} Map.empty {} s" and cpu: "current_cpu s = Some c"
  shows "\<exists>r s'. thread_spawn pc entry arg attrs s = Some (r, s') \<and> sys_inv_at {} Map.empty {} s' \<and> kept s s' \<and>
    (\<forall>x. r = Inr x \<longrightarrow> (\<exists>th. lookup (sched s') x = Some th \<and> tstate th = Ready \<and> user_res th = None \<and> joinable th = attr_joinable attrs))"
proof -
  obtain s1 where s1: "finalize_retired c True s = Some s1" "sys_inv_at {} Map.empty {} s1" "background c s s1"
    using sys_finalize [OF inv cpu, of True] by auto
  have cpu1: "current_cpu s1 = Some c" using cpu same_machine_cpu [OF backgroundD(1) [OF s1(3)]] by simp
  have kept1: "kept s s1" by (rule kept_background [OF s1(3)])
  have start: "thread_spawn pc entry arg attrs s = (case resolve_affinity c (attr_affinity attrs) s1 of
      Inl err \<Rightarrow> Some (Inl err, s1)
    | Inr target \<Rightarrow> (case take_free_slot (sched s1) of
        (None, S) \<Rightarrow> Some (Inl NoThreadSlots, s1\<lparr>sched := S\<rparr>)
      | (Some i, S) \<Rightarrow> do {
          top \<leftarrow> stack_top i S;
          let ctx = saved_context_kernel_entry top entry arg pc;
          (tid, s) \<leftarrow> transition_publish_runtime c target i ctx None (attr_joinable attrs) (s1\<lparr>sched := S\<rparr>);
          Some (Inr tid, s) }))"
    using cpu s1(1) sys_inv_atD(8) [OF inv] by (simp add: thread_spawn_def spawn_thread_def transition_finalize_retired_def)
  show ?thesis
  proof (cases "resolve_affinity c (attr_affinity attrs) s1")
    case (Inl err)
    then show ?thesis using start s1(2) kept1 by simp
  next
    case (Inr home)
    show ?thesis
    proof (cases "free_slots (lifecycle (sched s1)) = []")
      case True
      then show ?thesis using start Inr s1(2) kept1 by (simp add: take_free_slot_none)
    next
      case False
      note d = sys_inv_atD [OF s1(2)] and t = take_free_slot_ok [OF sys_inv_atD(1) [OF s1(2)] False]
      let ?i = "last (free_slots (lifecycle (sched s1)))" and ?S = "slot_taken (sched s1)"
      obtain top where top: "stack_top ?i ?S = Some top" using stack_top_free [OF d(1) False] by blast
      obtain s' th where s': "publish c home ?i (saved_context_kernel_entry top entry arg pc) None (attr_joinable attrs)
            (tid_generation (ThreadId ?i (next_generation (generation (slots (lifecycle (sched s1)) ! ?i))))) False False no_pre_ready
            (s1\<lparr>sched := ?S\<rparr>) = Some s'" "sys_inv_at {} Map.empty {} s'" "kept (with_more (system.more s1) s1) s'"
          "published c (ThreadId ?i (next_generation (generation (slots (lifecycle (sched s1)) ! ?i)))) th (sched s1) (sched s')"
          "tstate th = Ready" "user_res th = None" "joinable th = attr_joinable attrs"
        using spawn_core [OF s1(2) cpu1 resolve_affinity_target [OF Inr] False, of None "attr_joinable attrs" no_pre_ready "system.more s1"
            "saved_context_kernel_entry top entry arg pc"] by (auto simp: no_pre_ready_def)
      have x: "lookup (sched s') (ThreadId ?i (next_generation (generation (slots (lifecycle (sched s1)) ! ?i)))) = Some th"
        using s'(4) by (simp add: published_def)
      show ?thesis using start Inr t(1,3) top s' x lookup_thread_id [OF x] kept_trans [OF kept1]
        by (simp add: transition_publish_runtime_def idx_def Let_def)
    qed
  qed
qed

text \<open>
  The two user spawns differ in the first frame. The callback that registers the new thread
  changes nothing of the scheduler.
\<close>

definition registers :: "(thread_id \<Rightarrow> cpu_id \<Rightarrow> address_space_id \<Rightarrow> 'a system_scheme \<Rightarrow> 'a system_scheme option) \<Rightarrow>
    (thread_id \<Rightarrow> cpu_id \<Rightarrow> address_space_id \<Rightarrow> 'a) \<Rightarrow> 'a system_scheme \<Rightarrow> bool" where
  "registers cb m s \<longleftrightarrow> (\<forall>x home p S. cb x home p (s\<lparr>sched := S\<rparr>) = Some ((with_more (m x home p) s)\<lparr>sched := S\<rparr>))"

lemma spawn_user_with_ok:
  assumes inv: "sys_inv_at {} Map.empty {} s" and cpu: "current_cpu s = Some c" and fresh: "fresh_root aspace (sched s)"
    and own: "\<And>home. resolve_affinity c (attr_affinity attrs) s = Inr home \<Longrightarrow> owner_cpu aspace = home" and cb: "registers cb m s"
  shows "\<exists>r s'. spawn_user_with ctx c aspace stack attrs cb s = Some (r, s') \<and> sys_inv_at {} Map.empty {} s' \<and>
    (\<forall>e st. r = Inl (e, st) \<longrightarrow> st = stack \<and> s' = s) \<and>
    (\<forall>x. r = Inr x \<longrightarrow> (\<exists>th home. lookup (sched s') x = Some th \<and> tstate th = Ready \<and> lookup (sched s) x = None \<and>
      user_res th = Some \<lparr>res_address_space = aspace, res_stack = stack\<rparr> \<and> kept (with_more (m x home aspace) s) s'))"
proof (cases "resolve_affinity c (attr_affinity attrs) s")
  case (Inl err)
  then show ?thesis using inv by (simp add: spawn_user_with_def)
next
  case (Inr home)
  show ?thesis
  proof (cases "attr_joinable attrs \<and> free_slots (lifecycle (sched s)) \<noteq> []")
    case False
    then show ?thesis using Inr inv by (auto simp: spawn_user_with_def take_free_slot_none)
  next
    case True
    then have fs: "free_slots (lifecycle (sched s)) \<noteq> []" by simp
    note d = sys_inv_atD [OF inv] and t = take_free_slot_ok [OF sys_inv_atD(1) [OF inv] fs]
    let ?i = "last (free_slots (lifecycle (sched s)))" and ?S = "slot_taken (sched s)"
    let ?x = "ThreadId ?i (next_generation (generation (slots (lifecycle (sched s)) ! ?i)))"
    let ?u = "\<lparr>res_address_space = aspace, res_stack = stack\<rparr>"
    obtain top where top: "stack_top ?i ?S = Some top" using stack_top_free [OF d(1) fs] by blast
    obtain s' th where s': "publish c home ?i (ctx top) (Some ?u) True (tid_generation ?x) False False (with_user_space cb)
          (s\<lparr>sched := ?S\<rparr>) = Some s'" "sys_inv_at {} Map.empty {} s'" "kept (with_more (m ?x home aspace) s) s'"
        "published c ?x th (sched s) (sched s')" "tstate th = Ready" "user_res th = Some ?u"
      using spawn_core [OF inv cpu resolve_affinity_target [OF Inr] fs, of "Some ?u" True "with_user_space cb" "m ?x home aspace" "ctx top"]
        own [OF Inr] fresh cb by (auto simp: with_user_space_def registers_def)
    have x: "lookup (sched s') ?x = Some th" "lookup (sched s) ?x = None" using s'(4) by (simp_all add: published_def)
    have "spawn_user_with ctx c aspace stack attrs cb s = Some (Inr ?x, s')"
      using Inr True t(1,3) top s'(1) lookup_thread_id [OF x(1)]
      by (simp add: spawn_user_with_def transition_publish_runtime_with_pre_ready_def idx_def Let_def)
    then show ?thesis using s' x by auto
  qed
qed

section \<open>Exec\<close>

lemma activate_fresh:
  assumes inv: "sys_inv_at P Q {} s" and c: "c < KERNEL_CPU_CAPACITY" and fresh: "fresh_root p (sched s)" and own: "owner_cpu p = c"
  defines "u \<equiv> (user_spaces s)(c := \<lparr>installed = root_pa p, user_access = True\<rparr>)"
  shows "activate_user_address_space (arch_activate s) (Some c) p (user_spaces s) = (Inr (), u)" "spaces_inv u"
    "for_usercopy c (u c) = Some p"
proof -
  note d = sys_inv_atD [OF inv] and sp = spaces_okD [OF sys_inv_atD(6) [OF inv]]
  have root: "root_pa p \<noteq> NO_ACTIVE_USER_ROOT" using fresh by (simp add: fresh_root_def)
  have nowhere: "installed (user_spaces s c') \<noteq> root_pa p" if "c' < KERNEL_CPU_CAPACITY" for c'
    using sp(3) [OF that] fresh by (auto simp: fresh_root_def space_live_def)
  then have "\<not> installed_elsewhere c (root_pa p) (user_spaces s)" by (auto simp: installed_elsewhere_def list_ex_iff)
  moreover have "vm_result (arch_activate s (root_pa p)) = Inr ()" using d(9) root by (simp add: arch_ok_def vm_result_def)
  ultimately show act: "activate_user_address_space (arch_activate s) (Some c) p (user_spaces s) = (Inr (), u)"
    using own nowhere [OF c] by (simp add: activate_user_address_space_def Let_def u_def)
  show "spaces_inv u" by (rule activate_spaces_inv [OF sp(1) c root act])
  show "for_usercopy c (u c) = Some p" using root own by (cases p) (simp add: for_usercopy_def u_def)
qed

text \<open>The replacement keeps the old resources for its caller and selects the new address space.\<close>

lemma exec_inv:
  assumes inv: "sys_inv_at {} Map.empty {} s" and x: "calling c x a s" and old: "user_res a = Some v"
    and fresh: "fresh_root p (sched s)" and own: "owner_cpu p = c"
  shows "sys_inv_at {} Map.empty {} (s\<lparr>user_spaces := (user_spaces s)(c := \<lparr>installed = root_pa p, user_access = True\<rparr>),
    sched := upd_thread x (\<lambda>th. th\<lparr>user_res := Some \<lparr>res_address_space = p, res_stack = st\<rparr>\<rparr>) (sched s)\<rparr>)"
    (is "sys_inv_at _ _ _ (s\<lparr>user_spaces := ?u, sched := ?S\<rparr>)")
proof -
  note d = sys_inv_atD [OF inv] and m = callingD [OF x] and r = calling_running [OF inv x]
  let ?f = "\<lambda>th::thread. th\<lparr>user_res := Some \<lparr>res_address_space = p, res_stack = st\<rparr>\<rparr>" let ?s = "s\<lparr>user_spaces := ?u, sched := ?S\<rparr>"
  have c: "c < KERNEL_CPU_CAPACITY" using current_cpu_executing [OF m(1)] by simp
  note act = activate_fresh [OF inv c fresh own] and l = lookup_upd_thread_fun [OF m(5), of ?f] and sp = spaces_okD [OF d(6)]
  have ok: "thread_ok x (?f a)" using sched_inv_atD(3) [OF d(1) m(5)] old own r by (auto simp: thread_ok_def)
  have S: "sched_inv_at {} {} ?S" using ok old by (intro upd_inv [OF d(1) m(5)]) (simp_all add: waits_as_def)
  have g: "grows (sched s) (sched ?s)" using m(5) by (simp add: grows_upd_thread)
  have "quanta_ok Map.empty ?s" by (rule quanta_ok_cong [OF d(5)]) simp_all
  moreover have "deadlines_ok ?s" using m(5) by (intro deadlines_ok_mono [OF d(4) g]) (simp_all add: joiner_token_upd_thread)
  moreover have "homes_ok ?s" using d(3) m(5) by (auto simp: homes_ok_def l)
  moreover have "machine_ok ?s" using d(2,7) by (intro machine_ok_next [OF d(2)]) (simp_all add: same_machine_def)
  moreover have "spaces_ok {} ?s"
  proof (rule spaces_okI)
    have "thread_space (?f a) = Some p" by (simp add: thread_space_def)
    then show "roots_ok (sched ?s)" using fresh by (intro roots_ok_new [OF sp(2)]) (auto simp: l thread_space_def)
    show "spaces_inv (user_spaces ?s)" using act(2) by simp
    fix c' assume c': "c' < KERNEL_CPU_CAPACITY"
    show "for_usercopy c' (user_spaces ?s c') = user_context c' (sched ?s)"
    proof (cases "c' = c")
      case True
      then show ?thesis using act(3) m(2,3) by (simp add: user_context_def l thread_space_def)
    next
      case False
      then have "current (cpus (sched s) c') \<noteq> Some x"
        using cpu_inv_current [OF sched_inv_atD(2) [OF d(1)], of c' x] m(5) r by auto
      then have "user_context c' (sched ?s) = user_context c' (sched s)"
        by (cases "current (cpus (sched s) c')") (auto simp: user_context_def l)
      then show ?thesis using sp(4) [OF c'] False by simp
    qed
    assume "installed (user_spaces ?s c') \<noteq> NO_ACTIVE_USER_ROOT"
    then show "space_live (sched ?s) c' (installed (user_spaces ?s c'))"
    proof (cases "c' = c")
      case True
      then show ?thesis unfolding space_live_def using r by (intro exI [of _ x] exI [of _ "?f a"] exI [of _ p]) (simp add: l thread_space_def)
    next
      case False
      assume "installed (user_spaces ?s c') \<noteq> NO_ACTIVE_USER_ROOT"
      then obtain z b q where z: "lookup (sched s) z = Some b" "home_cpu b = c'" "tstate b \<noteq> Exited" "thread_space b = Some q"
        "root_pa q = installed (user_spaces s c')" using sp(3) [OF c'] False by (auto simp: space_live_def)
      then have "z \<noteq> x" using m(5) r False by auto
      then show ?thesis unfolding space_live_def using z False by (intro exI [of _ z] exI [of _ b] exI [of _ q]) (simp add: l)
    qed
  qed
  ultimately show ?thesis using S by (simp add: sys_inv_at_def)
qed

lemma replace_current_ok:
  assumes inv: "sys_inv_at {} Map.empty {} s" and x: "calling c x a s" and fresh: "fresh_root p (sched s)"
  shows "\<exists>r s'. replace_current_user_resources p st s = Some (r, s') \<and> sys_inv_at {} Map.empty {} s' \<and> kept s s' \<and>
    (if user_res a = None \<or> owner_cpu p \<noteq> c then r = Inl st \<and> s' = s
     else user_res a = Some (projr r) \<and> \<not> isl r \<and> user_context c (sched s') = Some p)"
proof -
  note m = callingD [OF x] and r = calling_running [OF inv x] and at = lookup_thread_at [OF callingD(5) [OF x]]
  have start: "replace_current_user_resources p st s = (if thread_space a = None \<or> owner_cpu p \<noteq> c then Some (Inl st, s) else do {
      let (r, spaces) = activate_user_address_space (arch_activate s) (Some c) p (user_spaces s);
      let s = s\<lparr>user_spaces := spaces\<rparr>;
      if isl r then Some (Inl st, s) else do {
        (res, S) \<leftarrow> replace_current_user_payload c \<lparr>res_address_space = p, res_stack = st\<rparr> (sched s);
        case res of Inr prev \<Rightarrow> Some (Inr prev, s\<lparr>sched := S\<rparr>) | Inl _ \<Rightarrow> None } })"
    using m(1,3) sys_inv_atD(8) [OF inv] at r(1)
    by (simp add: replace_current_user_resources_def running_thread_def thread_address_space_def thread_home_cpu_def thread_space_def)
  show ?thesis
  proof (cases "user_res a = None \<or> owner_cpu p \<noteq> c")
    case True
    then show ?thesis using start inv by (auto simp: thread_space_def)
  next
    case False
    then obtain v where v: "user_res a = Some v" by (cases "user_res a") auto
    have own: "owner_cpu p = c" using False by simp
    have c: "c < KERNEL_CPU_CAPACITY" using current_cpu_executing [OF m(1)] by simp
    let ?S = "upd_thread x (\<lambda>th. th\<lparr>user_res := Some \<lparr>res_address_space = p, res_stack = st\<rparr>\<rparr>) (sched s)"
    let ?s = "s\<lparr>user_spaces := (user_spaces s)(c := \<lparr>installed = root_pa p, user_access = True\<rparr>), sched := ?S\<rparr>"
    have "replace_current_user_resources p st s = Some (Inr v, ?s)"
      using start v own activate_fresh(1) [OF inv c fresh own] m(3) at
      by (simp add: thread_space_def replace_current_user_payload_def update_thread_lookup [OF m(5)])
    moreover have "user_context c (sched ?s) = Some p" using m(2,3,5) by (simp add: user_context_def lookup_upd_thread thread_space_def)
    moreover have "kept s ?s" by (simp add: kept_def same_machine_def)
    ultimately show ?thesis using exec_inv [OF inv x v fresh own] v own by auto
  qed
qed

end
