(* ===== verification/Sched_Boot.thy ===== *)
theory Sched_Boot
  imports Sched_Spawn
begin

text \<open>
  The way to a running system: the bootstrap CPU builds the table, its idle thread and the static
  threads and selects the first one; every other CPU publishes its idle thread in a free slot; each
  CPU then enters its selected thread. Each of these establishes or keeps the invariant.
\<close>

section \<open>Idle threads\<close>

lemma cpu_ok_new_idle:
  assumes "cpu_ok r c k rem pend" "idle k = None" "r x = None"
  shows "cpu_ok (r(x \<mapsto> (c, Ready))) c (k\<lparr>idle := Some x\<rparr>) rem pend"
proof -
  note d = cpu_okD [OF assms(1)]
  have none: "r y \<noteq> Some (c, st)" for y st using d(11) [of y st] assms(2) by auto
  have e: "ready_queue k = []" "rem = []" "current k = None" "retired k = None"
    using d(2) d(3) d(5) none by (metis Un_iff last_in_set, metis Un_iff last_in_set, metis option.exhaust, metis option.exhaust)
  show ?thesis using e none d(6-10) by (intro cpu_okI) (auto split: if_splits)
qed

lemma idle_inv:
  fixes i :: usize and stack :: kernel_stack and ctx :: trap_frame and gen :: u32 and c :: cpu_id
  assumes inv: "sched_inv_at {} (insert i R) S" and R: "i \<notin> R" and idl: "idle (cpus S c) = None"
    and slot: "i < length (slots (lifecycle S))" "slot_thread (slots (lifecycle S) ! i) = None" and c: "c < KERNEL_CPU_CAPACITY"
  defines "th \<equiv> new_thread c ctx None False (next_wait_sequence (slots (lifecycle S) ! i)) stack"
  defines "S' \<equiv> upd_cpu c (\<lambda>k. k\<lparr>idle := Some (ThreadId i gen)\<rparr>) (occupied i gen th S)"
  shows "sched_inv_at {} R S'" "published c (ThreadId i gen) th S (occupied i gen th S)"
proof -
  let ?x = "ThreadId i gen" and ?O = "occupied i gen th S"
  note v = sched_inv_atD [OF inv] and e = occupied_effect [OF slot]
  have th: "home_cpu th = c" "tstate th = Ready" "joiner th = None" "user_res th = None" "\<not> joinable th"
    "wait_md th = with_next_sequence (next_wait_sequence (slots (lifecycle S) ! i))" by (simp_all add: th_def new_thread_def)
  have ok: "thread_ok ?x th" using th c by (auto simp: thread_ok_def phase_ok_def with_next_sequence_def wait_wf_def)
  have l: "lookup S' = (lookup S)(?x \<mapsto> th)" by (rule ext) (simp add: S'_def e(1))
  have place: "placed S' = (placed S)(?x \<mapsto> (c, Ready))" using placed_upd1 [OF l] th by simp
  have none: "placed S ?x = None" using e(2) by (simp add: placed_def)
  show "sched_inv_at {} R S'"
  proof (rule inv_local [OF inv, where c = c])
    have "insert i R - {i} = R" using R by simp
    then show "table_ok R S'" using e(5) [OF v(1)] by (simp add: S'_def table_ok_def)
    show "same_on c' (placed S) (placed S')" if "c' \<noteq> c" for c' unfolding place using none that by (auto simp: same_on_def)
    show "cpu_inv S' c" using cpu_ok_new_idle [OF v(2) [of c, unfolded cpu_inv_def] idl none]
      by (simp add: cpu_inv_def place) (simp add: S'_def)
    show "lookup S z = Some b \<or> thread_ok z b" if "lookup S' z = Some b" for z b using that ok by (auto simp: l split: if_splits)
    have ret: "retired_on S' = retired_on S" by (simp add: S'_def retired_on_def fun_eq_iff)
    show "join_ok {} (lookup S') (retired_on S')" unfolding l ret by (rule join_ok_new [OF v(4) e(2) th(3)])
    have "idle (cpus S c') \<noteq> Some ?x" for c' using cpu_inv_idle [OF v(2), of c' ?x] e(2) by auto
    then show "idle_ok S'" using v(5) th(4,5) by (auto simp: idle_ok_def S'_def e(1) split: if_splits)
  qed (simp_all add: S'_def)
  have "grows S ?O" using e(4) th(6) by (simp add: with_next_sequence_def)
  then show "published c ?x th S ?O" using e th(3) by (simp add: published_def)
qed

section \<open>The table grows\<close>

definition extended :: "kernel_stack \<Rightarrow> scheduler \<Rightarrow> scheduler" where
  "extended stack S = S\<lparr>lifecycle := (lifecycle S)\<lparr>slots := slots (lifecycle S) @ [slot_free stack]\<rparr>\<rparr>"

lemma lookup_append_free:
  assumes "\<And>sl. sl \<in> set new \<Longrightarrow> slot_thread sl = None"
  shows "lookup (S\<lparr>lifecycle := \<lparr>slots = slots (lifecycle S) @ new, free_slots = f\<rparr>\<rparr>) = lookup S"
proof
  fix x
  have "slot_thread ((slots (lifecycle S) @ new) ! tid_index x) = None"
    if "length (slots (lifecycle S)) \<le> tid_index x" "tid_index x < length (slots (lifecycle S)) + length new"
    using that assms by (simp add: nth_append)
  then show "lookup (S\<lparr>lifecycle := \<lparr>slots = slots (lifecycle S) @ new, free_slots = f\<rparr>\<rparr>) x = lookup S x"
    by (auto simp: lookup_def table_get_def idx_def nth_append)
qed

lemma extended_frame [simp]:
  "lookup (extended stack S) = lookup S" "cpus (extended stack S) = cpus S" "remote_ready (extended stack S) = remote_ready S"
  "scheduler_ipi_pending (extended stack S) = scheduler_ipi_pending S" "queue_room (extended stack S) = queue_room S"
  "length (slots (lifecycle (extended stack S))) = Suc (length (slots (lifecycle S)))"
  "slots (lifecycle (extended stack S)) ! length (slots (lifecycle S)) = slot_free stack"
proof -
  have "extended stack S = S\<lparr>lifecycle := \<lparr>slots = slots (lifecycle S) @ [slot_free stack], free_slots = free_slots (lifecycle S)\<rparr>\<rparr>"
    by (cases "lifecycle S") (simp add: extended_def)
  then show "lookup (extended stack S) = lookup S" using lookup_append_free [of "[slot_free stack]" S] by (simp add: slot_free_def)
qed (simp_all add: extended_def)

lemma sched_inv_same_threads:
  assumes inv: "sched_inv_at P R S" and t: "table_ok R' S'" and eq: "lookup S' = lookup S" "cpus S' = cpus S" "remote_ready S' = remote_ready S"
    "scheduler_ipi_pending S' = scheduler_ipi_pending S"
  shows "sched_inv_at P R' S'"
proof (rule sched_inv_atI [OF t])
  note v = sched_inv_atD [OF inv]
  have "placed S' = placed S" "retired_on S' = retired_on S" using eq by (simp_all add: placed_def retired_on_def fun_eq_iff)
  then show "cpu_inv S' c" "join_ok P (lookup S') (retired_on S')" for c using v(2) [of c] v(4) eq by (simp_all add: cpu_inv_def)
  show "idle_ok S'" using v(5) eq by (simp add: idle_ok_def)
  show "lookup S' x = Some th \<Longrightarrow> thread_ok x th" for x th using v(3) eq by simp
qed

lemma extended_inv:
  assumes inv: "sched_inv_at {} {} S" and room: "length (slots (lifecycle S)) < KERNEL_THREAD_CAPACITY" "length (slots (lifecycle S)) \<le> queue_room S"
  shows "sched_inv_at {} {length (slots (lifecycle S))} (extended stack S)"
proof (rule sched_inv_same_threads [OF inv])
  have t: "table_ok {} S" by (rule sched_inv_atD(1) [OF inv])
  let ?n = "length (slots (lifecycle S))"
  have "{i. i < Suc ?n \<and> slot_thread (slots (lifecycle (extended stack S)) ! i) = None} =
      insert ?n {i. i < ?n \<and> slot_thread (slots (lifecycle S) ! i) = None}"
    by (auto simp: extended_def nth_append slot_free_def)
  then show "table_ok {?n} (extended stack S)" using t room unfolding table_ok_def Let_def
    by (auto simp: extended_def nth_append slot_free_def)
qed simp_all

lemma filled_inv:
  assumes inv: "sched_inv_at {} {} S" and cap: "cap \<le> KERNEL_THREAD_CAPACITY" "cap \<le> queue_room S + 1"
  shows "sched_inv_at {} {} (transition_fill_free_slots alloc cap S)" "lookup (transition_fill_free_slots alloc cap S) = lookup S"
proof -
  let ?n = "length (slots (lifecycle S))" and ?S = "transition_fill_free_slots alloc cap S"
  show l: "lookup ?S = lookup S" unfolding transition_fill_free_slots_def Let_def
    by (rule lookup_append_free) (auto simp: slot_free_def)
  have t: "table_ok {} S" by (rule sched_inv_atD(1) [OF inv])
  have len: "length (slots (lifecycle ?S)) = max ?n cap" by (simp add: transition_fill_free_slots_def Let_def max_def)
  have old: "i < ?n \<Longrightarrow> slots (lifecycle ?S) ! i = slots (lifecycle S) ! i" for i
    by (simp add: transition_fill_free_slots_def Let_def nth_append)
  have new: "?n \<le> i \<Longrightarrow> i < cap \<Longrightarrow> slots (lifecycle ?S) ! i = slot_free (alloc i)" for i
    by (simp add: transition_fill_free_slots_def Let_def nth_append)
  have free: "free_slots (lifecycle ?S) = free_slots (lifecycle S) @ [?n..<cap]" by (simp add: transition_fill_free_slots_def Let_def)
  have room: "queue_room ?S = queue_room S" by (simp add: transition_fill_free_slots_def Let_def)
  have slots: "slot_thread (slots (lifecycle ?S) ! i) = (if i < ?n then slot_thread (slots (lifecycle S) ! i) else None)"
    "slot_stack (slots (lifecycle ?S) ! i) = (if i < ?n then slot_stack (slots (lifecycle S) ! i) else Some (alloc i))" if "i < max ?n cap" for i
    using that old [of i] new [of i] by (auto simp: slot_free_def)
  have "table_ok {} ?S" unfolding table_ok_def Let_def len free room
  proof (intro conjI)
    show "\<forall>i<max ?n cap. (slot_thread (slots (lifecycle ?S) ! i) = None) = (slot_stack (slots (lifecycle ?S) ! i) \<noteq> None)"
      using t slots by (auto simp: table_ok_def Let_def)
    show "{} \<union> set (free_slots (lifecycle S) @ [?n..<cap]) = {i. i < max ?n cap \<and> slot_thread (slots (lifecycle ?S) ! i) = None}"
    proof -
      have "set (free_slots (lifecycle S)) = {i. i < ?n \<and> slot_thread (slots (lifecycle S) ! i) = None}" using t by (simp add: table_ok_def Let_def)
      then show ?thesis using slots(1) by (auto simp: less_max_iff_disj split: if_splits)
    qed
    have "set (free_slots (lifecycle S)) \<subseteq> {..<?n}" using t by (auto simp: table_ok_def Let_def)
    then show "distinct (free_slots (lifecycle S) @ [?n..<cap])" using t by (auto simp: table_ok_def Let_def)
  qed (use t cap in \<open>simp_all add: table_ok_def Let_def\<close>)
  then show "sched_inv_at {} {} ?S"
    using l by (intro sched_inv_same_threads [OF inv]) (simp_all add: transition_fill_free_slots_def Let_def)
qed

section \<open>Bootstrap\<close>

text \<open>
  The table under construction on CPU \<open>c\<close> with room for \<open>cap\<close> threads: all threads are kernel
  threads of that CPU, and none runs.
\<close>

definition booting :: "cpu_id \<Rightarrow> usize \<Rightarrow> scheduler \<Rightarrow> bool" where
  "booting c cap S \<longleftrightarrow> sched_inv_at {} {} S \<and> current (cpus S c) = None \<and> queue_room S = cap - 1 \<and> (\<forall>c'. \<not> online (cpus S c')) \<and>
     (\<forall>x a. lookup S x = Some a \<longrightarrow> home_cpu a = c \<and> user_res a = None)"

lemma bootingD:
  assumes "booting c cap S"
  shows "sched_inv_at {} {} S" "current (cpus S c) = None" "queue_room S = cap - 1" "\<not> online (cpus S c')"
    "lookup S x = Some a \<Longrightarrow> home_cpu a = c \<and> user_res a = None"
  using assms by (auto simp: booting_def)

lemma push_new:
  fixes i :: usize and stack :: kernel_stack and ctx :: trap_frame and gen :: u32 and c :: cpu_id
  assumes inv: "sched_inv_at {} (insert i R) S" and idl: "idle (cpus S c) = Some w"
    and slot: "i < length (slots (lifecycle S))" "slot_thread (slots (lifecycle S) ! i) = None" and th: "home_cpu th = c"
  shows "ready_push_back c (ThreadId i gen) (occupied i gen th S) = Some (arrived c (ThreadId i gen) c (occupied i gen th S))"
proof -
  let ?x = "ThreadId i gen" and ?O = "occupied i gen th S"
  note v = sched_inv_atD [OF inv] and e = occupied_effect [OF slot]
  have q: "queues_ok ?O c"
  proof -
    have "lookup ?O y \<noteq> None" if "lookup S y \<noteq> None" for y using that by (simp add: e(1))
    then show ?thesis using queues_okI [OF v(2) idl] unfolding queues_ok_def by (auto simp: idl)
  qed
  have t: "table_ok (insert i R - {i}) ?O" by (rule e(5) [OF v(1)]) simp
  have x: "lookup ?O ?x = Some th" by (simp add: e(1))
  have "?x \<notin> set (ready_queue (cpus S c)) \<union> set (remote_ready S c)" "idle (cpus S c) \<noteq> Some ?x"
    using cpu_okD(2,4) [OF v(2) [of c, unfolded cpu_inv_def], of ?x] e(2) [of gen] by (auto simp: placed_def)
  then show ?thesis using ready_push_back_ok [OF q t x th] by (simp add: arrived_def)
qed

lemma append_bootstrap_ok:
  fixes s :: "'a system_scheme"
  assumes b: "booting c cap (sched s)" and c: "c < KERNEL_CPU_CAPACITY"
    and room: "length (slots (lifecycle (sched s))) < cap" "cap \<le> KERNEL_THREAD_CAPACITY"
    and idl: "is_idle \<longleftrightarrow> idle (cpus (sched s) c) = None"
  shows "\<exists>i S'. transition_append_bootstrap alloc pc c entry arg is_idle s = Some (i, s\<lparr>sched := S'\<rparr>) \<and> booting c cap S' \<and>
    idle (cpus S' c) \<noteq> None \<and> length (slots (lifecycle S')) = Suc (length (slots (lifecycle (sched s))))"
proof -
  let ?i = "length (slots (lifecycle (sched s)))" let ?S0 = "extended (alloc ?i) (sched s)"
  note d = bootingD [OF b]
  have inv: "sched_inv_at {} {?i} ?S0" using room d(3) by (intro extended_inv [OF d(1)]) simp_all
  define ctx where "ctx = saved_context_kernel_entry (stack_top_of (alloc ?i)) entry arg pc"
  define th where "th = new_thread c ctx None False (next_wait_sequence (slots (lifecycle ?S0) ! ?i)) (alloc ?i)"
  let ?x = "ThreadId ?i INITIAL_THREAD_GENERATION" let ?O = "occupied ?i INITIAL_THREAD_GENERATION th ?S0"
  have slot: "?i < length (slots (lifecycle ?S0))" "slot_thread (slots (lifecycle ?S0) ! ?i) = None" by (simp_all add: slot_free_def)
  have st: "slot_stack (slots (lifecycle ?S0) ! ?i) = Some (alloc ?i)" by (simp add: slot_free_def)
  have th: "home_cpu th = c" "user_res th = None" by (simp_all add: th_def new_thread_def)
  note e = occupied_effect [OF slot]
  have stack: "slot_stack (slot_free st) = Some st" for st by (simp add: slot_free_def)
  have ext: "(sched s)\<lparr>lifecycle := (lifecycle (sched s))\<lparr>slots := slots (lifecycle (sched s)) @ [slot_free (alloc ?i)]\<rparr>\<rparr> = ?S0"
    by (simp add: extended_def)
  have "publish c c ?i ctx None False INITIAL_THREAD_GENERATION True is_idle no_pre_ready (s\<lparr>sched := ?S0\<rparr>) = (if is_idle then
      Some (s\<lparr>sched := upd_cpu c (\<lambda>k. k\<lparr>idle := Some ?x\<rparr>) ?O\<rparr>)
    else do { S \<leftarrow> ready_push_back c ?x ?O; Some (s\<lparr>sched := S\<rparr>) })"
    using idl by (simp add: publish_def no_pre_ready_def Let_def idx_def occupied_def th_def slot_free_def)
  then have run: "transition_append_bootstrap alloc pc c entry arg is_idle s = (if is_idle then
      Some (?i, s\<lparr>sched := upd_cpu c (\<lambda>k. k\<lparr>idle := Some ?x\<rparr>) ?O\<rparr>)
    else do { S \<leftarrow> ready_push_back c ?x ?O; Some (?i, s\<lparr>sched := S\<rparr>) })"
    by (simp add: transition_append_bootstrap_def ext transition_publish_bootstrap_def idx_def stack ctx_def Let_def)
  have len: "length (slots (lifecycle ?O)) = Suc ?i" by (simp add: occupied_def)
  show ?thesis
  proof (cases is_idle)
    case True
    have "sched_inv_at {} {} (upd_cpu c (\<lambda>k. k\<lparr>idle := Some ?x\<rparr>) ?O)" unfolding th_def
      using idl True by (intro idle_inv [OF inv _ _ slot c]) simp_all
    then have "booting c cap (upd_cpu c (\<lambda>k. k\<lparr>idle := Some ?x\<rparr>) ?O)" using d th e(1) by (auto simp: booting_def split: if_splits)
    then show ?thesis using run True len by (intro exI [of _ ?i] exI [of _ "upd_cpu c (\<lambda>k. k\<lparr>idle := Some ?x\<rparr>) ?O"]) simp
  next
    case False
    then obtain w where w: "idle (cpus ?S0 c) = Some w" using idl by auto
    have "sched_inv_at {} {} (arrived c ?x c ?O)" unfolding th_def
      using w c by (intro arrived_inv(1) [OF inv _ _ slot]) simp_all
    then have "booting c cap (arrived c ?x c ?O)" using d th e(1) by (auto simp: booting_def arrived_def split: if_splits)
    moreover have "idle (cpus (arrived c ?x c ?O) c) = Some w" "length (slots (lifecycle (arrived c ?x c ?O))) = Suc ?i"
      using w len by (simp_all add: arrived_def)
    ultimately show ?thesis using run False push_new [OF inv w slot th(1)]
      by (intro exI [of _ ?i] exI [of _ "arrived c ?x c ?O"]) simp
  qed
qed

lemma append_all_ok:
  fixes s :: "'a system_scheme"
  assumes "booting c cap (sched s)" "c < KERNEL_CPU_CAPACITY" "length (slots (lifecycle (sched s))) + length ts \<le> cap"
    "cap \<le> KERNEL_THREAD_CAPACITY" "idle (cpus (sched s) c) \<noteq> None"
  shows "\<exists>S'. append_bootstrap_all alloc pc c ts s = Some (s\<lparr>sched := S'\<rparr>) \<and> booting c cap S' \<and> idle (cpus S' c) \<noteq> None \<and>
    length (slots (lifecycle S')) = length (slots (lifecycle (sched s))) + length ts"
  using assms
proof (induction ts arbitrary: s)
  case (Nil s)
  then show ?case by (intro exI [of _ "sched s"]) simp
next
  case (Cons t ts)
  obtain entry arg where t: "t = (entry, arg)" by (cases t)
  obtain i S1 where S1: "transition_append_bootstrap alloc pc c entry arg False s = Some (i, s\<lparr>sched := S1\<rparr>)" "booting c cap S1"
    "idle (cpus S1 c) \<noteq> None" "length (slots (lifecycle S1)) = Suc (length (slots (lifecycle (sched s))))"
    using append_bootstrap_ok [OF Cons.prems(1,2), of False alloc pc entry arg] Cons.prems by auto
  obtain S2 where "append_bootstrap_all alloc pc c ts (s\<lparr>sched := S1\<rparr>) = Some (s\<lparr>sched := S2\<rparr>)" "booting c cap S2"
    "idle (cpus S2 c) \<noteq> None" "length (slots (lifecycle S2)) = length (slots (lifecycle S1)) + length ts"
    using Cons.IH [of "s\<lparr>sched := S1\<rparr>"] S1 Cons.prems by auto
  then show ?case using t S1 by auto
qed

section \<open>First selection\<close>

lemma cpu_ok_first:
  assumes "cpu_ok r c k rem pend" "current k = None"
    "case ready_queue k of to' # rest' \<Rightarrow> to = to' \<and> rest = rest' | [] \<Rightarrow> idle k = Some to \<and> rest = []"
  shows "cpu_ok (r(to \<mapsto> (c, Running))) c (k\<lparr>ready_queue := rest, current := Some to, initialized := True\<rparr>) rem pend"
    "r to = Some (c, Ready)"
proof -
  note d = cpu_okD [OF assms(1)]
  have run: "r x \<noteq> Some (c, Running)" for x using d(3) [of x] assms(2) by auto
  show to: "r to = Some (c, Ready)" using d(2) [of to] d(4) [of to] run [of to] assms(3) by (auto split: list.splits)
  then have idl: "idle k \<noteq> None" "retired k \<noteq> Some to" using d(11) d(5) [of to] by auto
  have mem: "x \<in> set rest \<union> set rem \<longleftrightarrow> x \<noteq> to \<and> r x = Some (c, Ready) \<and> idle k \<noteq> Some x" for x
    using d(2) [of x] d(2) [of to] d(1) assms(3) by (auto split: list.splits)
  have dist: "distinct (rest @ rem)" using d(1) assms(3) by (auto split: list.splits)
  show "cpu_ok (r(to \<mapsto> (c, Running))) c (k\<lparr>ready_queue := rest, current := Some to, initialized := True\<rparr>) rem pend"
    using idl run mem dist to d(4,5,9,10,11) by (intro cpu_okI) (auto split: if_splits)
qed

lemma initial_dispatch_ok:
  assumes inv: "sched_inv_at {} {} S" and cur: "current (cpus S c) = None" and idl: "idle (cpus S c) \<noteq> None"
  shows "\<exists>S' a. transition_initial_dispatch c S = Some (Inr (), S') \<and> sched_inv_at {} {} S' \<and>
    lookup S (next_thread c S) = Some a \<and> lookup S' = (lookup S)(next_thread c S \<mapsto> a\<lparr>tstate := Running\<rparr>) \<and>
    cpus S' = (cpus S)(c := (cpus S c)\<lparr>ready_queue := tl (ready_queue (cpus S c)), current := Some (next_thread c S), initialized := True\<rparr>) \<and>
    grows S S' \<and> joiner_token S' = joiner_token S"
proof -
  note v = sched_inv_atD [OF inv]
  let ?y = "next_thread c S" and ?k = "cpus S c"
  have sel: "case ready_queue ?k of to' # rest' \<Rightarrow> ?y = to' \<and> tl (ready_queue ?k) = rest' | [] \<Rightarrow> idle ?k = Some ?y \<and> tl (ready_queue ?k) = []"
    using idl by (auto simp: next_thread_def split: list.splits)
  note f = cpu_ok_first [OF v(2) [of c, unfolded cpu_inv_def] cur sel]
  obtain a where a: "lookup S ?y = Some a" "home_cpu a = c" "tstate a = Ready" using f(2) by (auto simp: placed_Some)
  let ?S' = "upd_cpu c (\<lambda>k. k\<lparr>initialized := True\<rparr>) (run_next c ?y (drop_front c S))"
  have ad: "lookup (drop_front c S) ?y = Some a" using a by (simp add: drop_front_def)
  have run: "transition_initial_dispatch c S = Some (Inr (), ?S')"
    using cur pop_front_or_idle_ok [OF v(2) idl] make_running_ok [OF ad a(3,2)] by (simp add: transition_initial_dispatch_def)
  have l: "lookup ?S' = (lookup S)(?y \<mapsto> a\<lparr>tstate := Running\<rparr>)"
    using run_next_frame(5) [OF ad] by simp
  have k: "cpus ?S' = (cpus S)(c := ?k\<lparr>ready_queue := tl (ready_queue ?k), current := Some ?y, initialized := True\<rparr>)"
    using run_next_frame(8) [OF ad] by simp
  have fr: "remote_ready ?S' = remote_ready S" "scheduler_ipi_pending ?S' = scheduler_ipi_pending S" using run_next_frame(3,4) [OF ad] by simp_all
  have place: "placed ?S' = (placed S)(?y \<mapsto> (c, Running))" using placed_upd1 [OF l] a(2) by simp
  have ok: "thread_ok ?y (a\<lparr>tstate := Running\<rparr>)" using v(3) [OF a(1)] a(3) by (auto simp: thread_ok_def intro: phase_ok_run)
  have "sched_inv_at {} {} ?S'"
  proof (rule inv_local [OF inv, where c = c])
    show "table_ok {} ?S'" using v(1) run_next_frame(6) [OF ad] by simp
    show "same_on c' (placed S) (placed ?S')" if "c' \<noteq> c" for c' unfolding place using f(2) that by (auto simp: same_on_def)
    show "cpu_inv ?S' c" using f(1) unfolding cpu_inv_def place k fr by simp
    show "lookup S z = Some b \<or> thread_ok z b" if "lookup ?S' z = Some b" for z b
      using that ok unfolding l by (auto split: if_splits)
    have "retired_on ?S' = retired_on S" unfolding retired_on_def k by (simp add: fun_eq_iff)
    then show "join_ok {} (lookup ?S') (retired_on ?S')" unfolding l using a(3)
      by (auto intro!: join_ok_upd [OF v(4) a(1)] simp: waits_as_def)
    show "idle_ok ?S'" using v(5) a(1) unfolding idle_ok_def l k by (auto split: if_splits)
  qed (simp_all only: k fr fun_upd_apply if_False)
  moreover have "grows S ?S'"
    by (rule grows_trans [OF grows_trans [OF drop_front_frame(1) run_next_frame(1) [OF ad, of c]]]) simp
  moreover have "joiner_token ?S' = joiner_token S" using run_next_frame(2) [OF ad] by simp
  ultimately show ?thesis using run a(1) l k by blast
qed

section \<open>The published scheduler\<close>

text \<open>The machine before bootstrap: empty deadline queues, no address space installed, working hardware.\<close>

definition boot_machine :: "'a system_scheme \<Rightarrow> bool" where
  "boot_machine s \<longleftrightarrow> \<not> sched_published s \<and> queues_sound s \<and> (\<forall>c<cpus_registered s. events s c = {} \<and> \<not> dispatching s c) \<and>
     cpus_registered s \<le> KERNEL_CPU_CAPACITY \<and> (\<forall>c<cpus_registered s. ipi_ok s c) \<and> arch_ok s \<and>
     (\<forall>c. user_spaces s c = user_space_new)"

lemma new_sched_inv: "sched_inv_at {} {} \<lparr>lifecycle = \<lparr>slots = [], free_slots = []\<rparr>, cpus = (\<lambda>_. cpu_sched_new),
       remote_ready = (\<lambda>_. []), scheduler_ipi_pending = (\<lambda>_. False), rr_quantum_ms = q, queue_room = n\<rparr>" (is "sched_inv_at {} {} ?S")
proof -
  have "lookup S = Map.empty" if "slots (lifecycle S) = []" for S using that by (simp add: lookup_def table_get_def idx_def fun_eq_iff)
  then show ?thesis
    by (intro sched_inv_atI) (simp_all add: table_ok_def cpu_inv_def cpu_ok_def placed_def join_ok_def idle_ok_def cpu_sched_new_def)
qed

lemma bootstrap_new_ok:
  fixes s :: "'a system_scheme"
  assumes c: "c < KERNEL_CPU_CAPACITY" and n: "1 \<le> expected" "length threads + expected \<le> capacity" and cap: "capacity \<le> KERNEL_THREAD_CAPACITY"
  shows "\<exists>S'. bootstrap_new alloc pc expected c idle_entry idle_arg threads quantum capacity s = Some (Inr (), s\<lparr>sched := S'\<rparr>) \<and>
    sched_inv_at {} {} S' \<and> (\<forall>c'. \<not> online (cpus S' c')) \<and> current (cpus S' c) \<noteq> None \<and>
    (\<forall>x a. lookup S' x = Some a \<longrightarrow> home_cpu a = c \<and> user_res a = None)"
proof -
  have nat: "required_bootstrap_slots (length threads) expected = Inr (length threads + expected)"
    using n cap by (simp add: required_bootstrap_slots_def checked_add_usize_def usize_max_def KERNEL_THREAD_CAPACITY_def)
  obtain S0 where S0: "transition_new capacity quantum = Some S0" "booting c capacity S0" "idle (cpus S0 c) = None" "slots (lifecycle S0) = []"
    using cap new_sched_inv [of "max quantum 1" "capacity - 1"]
    by (auto simp: transition_new_def booting_def cpu_sched_new_def lookup_def table_get_def idx_def)
  obtain i S1 where S1: "transition_append_bootstrap alloc pc c idle_entry idle_arg True (s\<lparr>sched := S0\<rparr>) = Some (i, s\<lparr>sched := S1\<rparr>)"
    "booting c capacity S1" "idle (cpus S1 c) \<noteq> None" "length (slots (lifecycle S1)) = 1"
    using append_bootstrap_ok [of c capacity "s\<lparr>sched := S0\<rparr>" True alloc pc idle_entry idle_arg] S0 c n cap by auto
  obtain S2 where S2: "append_bootstrap_all alloc pc c threads (s\<lparr>sched := S1\<rparr>) = Some (s\<lparr>sched := S2\<rparr>)" "booting c capacity S2"
    "idle (cpus S2 c) \<noteq> None" using append_all_ok [of c capacity "s\<lparr>sched := S1\<rparr>" threads alloc pc] S1 c n cap by auto
  let ?S3 = "transition_fill_free_slots alloc capacity S2"
  note d = bootingD [OF S2(2)]
  have f: "sched_inv_at {} {} ?S3" "lookup ?S3 = lookup S2" using cap n d(3) by (intro filled_inv [OF d(1)]; simp)+
  have k: "cpus ?S3 = cpus S2" by (simp add: transition_fill_free_slots_def Let_def)
  obtain S4 a where S4: "transition_initial_dispatch c ?S3 = Some (Inr (), S4)" "sched_inv_at {} {} S4" "lookup ?S3 (next_thread c ?S3) = Some a"
    "lookup S4 = (lookup ?S3)(next_thread c ?S3 \<mapsto> a\<lparr>tstate := Running\<rparr>)"
    "cpus S4 = (cpus ?S3)(c := (cpus ?S3 c)\<lparr>ready_queue := tl (ready_queue (cpus ?S3 c)), current := Some (next_thread c ?S3), initialized := True\<rparr>)"
    using initial_dispatch_ok [OF f(1), of c] d(2) S2(3) k by auto
  have "bootstrap_new alloc pc expected c idle_entry idle_arg threads quantum capacity s = Some (Inr (), s\<lparr>sched := S4\<rparr>)"
    using nat n S0(1) S1(1) S2(1) S4(1) by (simp add: bootstrap_new_def Let_def)
  moreover have "\<forall>x a. lookup S4 x = Some a \<longrightarrow> home_cpu a = c \<and> user_res a = None"
    using d(5) S4(3,4) f(2) by auto
  ultimately show ?thesis using S4(2,5) d(4) k by (intro exI [of _ S4]) auto
qed

lemma bootstrap_ok:
  assumes m: "boot_machine s" and cpu: "current_cpu s = Some c" and quiet: "assert_pre_scheduler_state_quiescent c s = Some ()"
    and n: "1 \<le> expected" "length threads + expected \<le> capacity" "capacity \<le> KERNEL_THREAD_CAPACITY"
  shows "\<exists>s'. sched_bootstrap alloc pc expected idle_entry idle_arg threads quantum capacity s = Some (Inr (), s') \<and> sys_inv s' \<and>
    current (cpus (sched s') c) \<noteq> None"
proof -
  have c: "c < KERNEL_CPU_CAPACITY" using current_cpu_executing [OF cpu] by simp
  obtain S' where S': "bootstrap_new alloc pc expected c idle_entry idle_arg threads quantum capacity s = Some (Inr (), s\<lparr>sched := S'\<rparr>)"
    "sched_inv_at {} {} S'" "\<And>c'. \<not> online (cpus S' c')" "current (cpus S' c) \<noteq> None"
    "\<And>x a. lookup S' x = Some a \<Longrightarrow> home_cpu a = c \<and> user_res a = None"
    using bootstrap_new_ok [OF c n, of alloc pc idle_entry idle_arg quantum s] by blast
  let ?s = "s\<lparr>sched := S'\<rparr>\<lparr>sched_published := True\<rparr>"
  have ev: "events ?s = events s" "dispatching ?s = dispatching s" "queues_sound ?s = queues_sound s"
    by (simp_all add: events_def dispatching_def queues_sound_def time_abs_def time_inv_def fun_eq_iff)
  have "sched_bootstrap alloc pc expected idle_entry idle_arg threads quantum capacity s = Some (Inr (), ?s)"
    using m cpu S'(1) quiet by (simp add: sched_bootstrap_def boot_machine_def assert_pre_scheduler_state_quiescent_def)
  moreover have "sys_inv ?s" unfolding sys_inv_def sys_inv_at_def
  proof (intro conjI)
    show "machine_ok ?s" using m ev by (simp add: boot_machine_def machine_ok_def arch_ok_def)
    show "homes_ok ?s" using S'(5) current_cpu_less [OF cpu] by (auto simp: homes_ok_def)
    show "deadlines_ok ?s" using m ev by (auto simp: boot_machine_def deadlines_ok_def)
    show "quanta_ok Map.empty ?s" using m ev S'(3) by (auto simp: boot_machine_def quanta_ok_def quanta_at_def quanta_def)
    have "thread_space a = None" if "lookup S' x = Some a" for x a using S'(5) [OF that] by (simp add: thread_space_def)
    then show "spaces_ok {} ?s" using m S'(3)
      by (auto simp: boot_machine_def spaces_ok_def spaces_inv_def roots_ok_def user_space_new_def for_usercopy_def user_context_def)
    show "\<forall>c<cpus_registered ?s. \<not> dispatching ?s c" using m ev by (simp add: boot_machine_def)
  qed (use S'(2) in simp)
  ultimately show ?thesis using S'(4) by auto
qed

section \<open>First entry\<close>

lemma enter_running_ok:
  assumes inv: "sys_inv_at {} Map.empty {} s" and cpu: "current_cpu s = Some c" and cur: "current (cpus (sched s) c) = Some y"
    and off: "\<not> online (cpus (sched s) c)"
  shows "\<exists>frame s'. enter_running_thread s = Some (frame, s') \<and> sys_inv_at {} Map.empty {} s' \<and> kept s s' \<and> online (cpus (sched s') c)"
proof -
  note d = sys_inv_atD [OF inv] and c = current_cpu_less [OF cpu]
  obtain s1 where s1: "ensure_quantum_event c s = Some s1" "time_only s s1" "queues_sound s1"
    "events s1 = (events s)(c := quantum_needed c (sched s) \<union> events s c)" "dispatching s1 = dispatching s"
    using ensure_quantum_view [OF d(7) cpu sys_inv_room(3) [OF inv c]] by blast
  have n: "neutral s s1" by (rule time_only_neutral [OF s1(2)])
  note e = neutralD [OF n]
  have reg: "cpus_registered s1 = cpus_registered s" using e(1) by (simp add: same_machine_def)
  have q: "quanta s1 c \<subseteq> quantum_needed c (sched s)" using s1(4) quanta_okD(2) [OF d(5) c] by (auto simp: quanta_def)
  have "quanta_ok Map.empty s1"
    by (rule quanta_ok_local [OF d(5) reg, where c = c]) (use s1(4) e(2) q in \<open>simp_all add: quanta_at_def\<close>)
  moreover have "WaitDeadline cpu tok \<notin> quantum_needed c (sched s)" for cpu tok
    by (auto simp: quantum_needed_def quantum_expired_def split: option.splits)
  ultimately have inv1: "sys_inv_at {} Map.empty {} s1" using s1(4) by (intro sys_neutral [OF inv n s1(3)]) (auto split: if_splits)
  note d1 = sys_inv_atD [OF inv1]
  have cpu1: "current_cpu s1 = Some c" using e(5) cpu by simp
  have "current (cpus (sched s1) c) = Some y" using cur e(2) by simp
  then obtain b where b: "lookup (sched s1) y = Some b" "home_cpu b = c" "tstate b \<noteq> Exited"
    using cpu_inv_current [OF sched_inv_atD(2) [OF d1(1)]] by (metis thread_state.distinct(9))
  have ck: "c < KERNEL_CPU_CAPACITY" using current_cpu_executing [OF cpu] by simp
  have "spaces_ok {c} s1" "retains_live c y s1" using spaces_okD [OF d1(6)] ck by (auto simp: spaces_ok_def retains_live_def)
  then obtain u where u: "activate_thread_address_space c y s1 = Some (s1\<lparr>user_spaces := u\<rparr>)" "spaces_inv u"
    "\<And>c'. c' \<noteq> c \<Longrightarrow> u c' = user_spaces s1 c'" "for_usercopy c (u c) = thread_space b"
    "installed (u c) \<noteq> NO_ACTIVE_USER_ROOT \<Longrightarrow> space_live (sched s1) c (installed (u c))"
    using activate_thread_ok [OF _ cpu1 d1(9) d1(1) b] by blast
  let ?S = "upd_cpu c (\<lambda>k. k\<lparr>online := True\<rparr>) (sched s1)" let ?s = "s1\<lparr>user_spaces := u\<rparr>\<lparr>sched := ?S\<rparr>"
  have run: "enter_running_thread s = Some (saved_ctx b, ?s)"
    using cpu d(8) cur off s1(1) u(1) lookup_thread_at [OF b(1)]
    by (simp add: enter_running_thread_def prepare_running_thread_entry_def running_thread_def saved_context_of_def thread_at_def Let_def)
  have "sched_inv_at {} {} ?S"
  proof (rule inv_local [OF d1(1), where c = c])
    have "cpu_ok (placed (sched s1)) c (cpus (sched s1) c) (remote_ready (sched s1) c) (scheduler_ipi_pending (sched s1) c)"
      using sched_inv_atD(2) [OF d1(1)] by (simp add: cpu_inv_def)
    then show "cpu_inv ?S c" using cur e(2) by (auto simp: cpu_inv_def cpu_ok_def)
    show "join_ok {} (lookup ?S) (retired_on ?S)" using sched_inv_atD(4) [OF d1(1)] by (simp add: retired_on_upd_cpu)
    show "idle_ok ?S" by (rule idle_ok_upd_cpu [OF sched_inv_atD(5) [OF d1(1)]]) simp
  qed (use sched_inv_atD(1) [OF d1(1)] in simp_all)
  moreover have "quanta_ok Map.empty ?s"
  proof (rule quanta_ok_local [OF d1(5), where c = c])
    have "quantum_needed c ?S = quantum_needed c (sched s)" using e(2) by (simp add: quantum_needed_def split: option.split)
    then show "quanta_at (Map.empty c) c ?s" using q s1(4) by (simp add: quanta_at_def) (simp add: quanta_def)
  qed simp_all
  moreover have "deadlines_ok ?s" using d1(4) by (intro deadlines_ok_mono [OF d1(4)]) simp_all
  moreover have "homes_ok ?s" using d1(3) by (simp add: homes_ok_def)
  moreover have "machine_ok ?s" using d1(7) by (intro machine_ok_next [OF d1(2)]) (simp_all add: same_machine_def)
  moreover have "spaces_ok {} ?s"
  proof (rule spaces_okI)
    note sp = spaces_okD [OF d1(6)]
    have same: "user_context c' ?S = user_context c' (sched s1)" if "c' \<noteq> c" for c' using that by (simp add: user_context_def)
    fix c' assume c': "c' < KERNEL_CPU_CAPACITY"
    show "for_usercopy c' (user_spaces ?s c') = user_context c' (sched ?s)"
      using u(3,4) sp(4) [OF c'] same [of c'] b(1) cur e(2) by (cases "c' = c") (simp_all add: user_context_def)
    assume "installed (user_spaces ?s c') \<noteq> NO_ACTIVE_USER_ROOT"
    then show "space_live (sched ?s) c' (installed (user_spaces ?s c'))"
      using u(3,5) sp(3) [OF c'] by (cases "c' = c") (simp_all add: space_live_def)
  qed (use u(2) spaces_okD(2) [OF d1(6)] in \<open>simp_all add: roots_ok_def\<close>)
  ultimately have "sys_inv_at {} Map.empty {} ?s" by (simp add: sys_inv_at_def)
  moreover have "kept s ?s" using e(1) s1(5) by (simp add: kept_def same_machine_def)
  ultimately show ?thesis using run by auto
qed

section \<open>Further CPUs\<close>

lemma initialize_current_ok:
  assumes inv: "sys_inv_at {} Map.empty {} s" and cpu: "current_cpu s = Some c" and quiet: "assert_pre_scheduler_state_quiescent c s = Some ()"
  shows "\<exists>r s'. initialize_current_cpu pc entry arg s = Some (r, s') \<and> sys_inv_at {} Map.empty {} s' \<and> kept s s'"
proof (cases "c = 0 \<or> initialized (cpus (sched s) c) \<or> current (cpus (sched s) c) \<noteq> None \<or> idle (cpus (sched s) c) \<noteq> None \<or>
    free_slots (lifecycle (sched s)) = []")
  case True
  then show ?thesis using inv cpu quiet sys_inv_atD(8) [OF inv] current_cpu_less [OF cpu]
    by (auto simp: initialize_current_cpu_def transition_initialize_idle_current_def Let_def take_free_slot_none)
next
  case False
  then have fs: "free_slots (lifecycle (sched s)) \<noteq> []" by simp
  note d = sys_inv_atD [OF inv] and t = take_free_slot_ok [OF sys_inv_atD(1) [OF inv] fs] and creg = current_cpu_less [OF cpu]
  have ck: "c < KERNEL_CPU_CAPACITY" using current_cpu_executing [OF cpu] by simp
  let ?i = "last (free_slots (lifecycle (sched s)))" and ?T = "slot_taken (sched s)"
  obtain stack where stack: "slot_stack (slots (lifecycle (sched s)) ! ?i) = Some stack" using t(6) by blast
  define th where "th = new_thread c (saved_context_kernel_entry (stack_top_of stack) entry arg pc) None False
    (next_wait_sequence (slots (lifecycle ?T) ! ?i)) stack"
  let ?x = "ThreadId ?i INITIAL_THREAD_GENERATION" let ?O = "occupied ?i INITIAL_THREAD_GENERATION th ?T"
  let ?S1 = "upd_cpu c (\<lambda>k. k\<lparr>idle := Some ?x\<rparr>) ?O"
  have slot: "?i < length (slots (lifecycle ?T))" "slot_thread (slots (lifecycle ?T) ! ?i) = None" using t(3,4) by simp_all
  have i: "sched_inv_at {} {} ?S1" "published c ?x th ?T ?O" unfolding th_def using False
    by (intro idle_inv [OF t(2) _ _ slot ck]; simp)+
  have p: "published c ?x th (sched s) ?O" by (rule published_slot_taken [OF i(2)])
  have k1: "ready_queue (cpus (sched s) c) = []" "\<not> online (cpus (sched s) c)"
    using cpu_okD [OF sched_inv_atD(2) [OF d(1), of c, unfolded cpu_inv_def]] False
    by (metis (no_types, lifting) Un_iff last_in_set, blast)
  obtain S2 a where S2: "transition_initial_dispatch c ?S1 = Some (Inr (), S2)" "sched_inv_at {} {} S2" "lookup ?S1 (next_thread c ?S1) = Some a"
    "lookup S2 = (lookup ?S1)(next_thread c ?S1 \<mapsto> a\<lparr>tstate := Running\<rparr>)"
    "cpus S2 = (cpus ?S1)(c := (cpus ?S1 c)\<lparr>ready_queue := tl (ready_queue (cpus ?S1 c)), current := Some (next_thread c ?S1), initialized := True\<rparr>)"
    "grows ?S1 S2" "joiner_token S2 = joiner_token ?S1"
    using initial_dispatch_ok [OF i(1), of c] False by auto
  have x: "next_thread c ?S1 = ?x" using k1(1) by (simp add: next_thread_def)
  have l1: "lookup ?S1 = (lookup (sched s))(?x \<mapsto> th)" "lookup (sched s) ?x = None" "joiner_token ?S1 = joiner_token (sched s)" "grows (sched s) ?O"
    using p by (simp_all add: published_def)
  have l2: "lookup S2 = (lookup (sched s))(?x \<mapsto> th\<lparr>tstate := Running\<rparr>)" using S2(3,4) x l1 by simp
  have g: "grows (sched s) S2" by (rule grows_trans [OF l1(4) grows_trans [OF _ S2(6)]]) simp
  have k2: "cpus S2 c' = (if c' = c then (cpus (sched s) c)\<lparr>idle := Some ?x, ready_queue := [], current := Some ?x, initialized := True\<rparr> else cpus (sched s) c')" for c'
    using S2(5) x k1(1) by simp
  let ?s = "s\<lparr>sched := S2\<rparr>"
  have "publish c c ?i (saved_context_kernel_entry (stack_top_of stack) entry arg pc) None False INITIAL_THREAD_GENERATION True True no_pre_ready
      (s\<lparr>sched := ?T\<rparr>) = Some (s\<lparr>sched := ?S1\<rparr>)"
    using slot stack False by (simp add: publish_def no_pre_ready_def Let_def idx_def occupied_def th_def)
  then have run: "initialize_current_cpu pc entry arg s = Some (True, ?s)"
    using False cpu creg quiet d(8) t(1) slot(1) stack S2(1)
    by (simp add: initialize_current_cpu_def transition_initialize_idle_current_def transition_publish_bootstrap_def idx_def Let_def)
  have th: "home_cpu th = c" "user_res th = None" by (simp_all add: th_def new_thread_def)
  have "quanta_ok Map.empty ?s"
  proof (rule quanta_ok_local [OF d(5), where c = c])
    have "quantum_needed c (sched s) = {}" "quantum_needed c S2 = {}" using False by (simp_all add: quantum_needed_def k2)
    then show "quanta_at (Map.empty c) c ?s" using quanta_okD(2) [OF d(5) creg] by (simp add: quanta_at_def) (simp add: quanta_def)
  qed (simp_all add: k2)
  moreover have "deadlines_ok ?s" using g S2(7) l1(3) by (intro deadlines_ok_mono [OF d(4)]) simp_all
  moreover have "homes_ok ?s" using d(3) th(1) creg by (auto simp: homes_ok_def l2)
  moreover have "machine_ok ?s" using d(7) by (intro machine_ok_next [OF d(2)]) simp_all
  moreover have "spaces_ok {} ?s"
  proof (rule spaces_okI)
    note sp = spaces_okD [OF d(6)]
    show "roots_ok (sched ?s)" by (rule roots_ok_new [OF sp(2)]) (use l2 th(2) in \<open>auto simp: thread_space_def\<close>)
    fix c' assume c': "c' < KERNEL_CPU_CAPACITY"
    have "user_context c' S2 = user_context c' (sched s)"
    proof (cases "c' = c \<or> current (cpus (sched s) c') = None")
      case True
      then show ?thesis using k1(2) by (auto simp: user_context_def k2)
    next
      case other: False
      then obtain z b where z: "current (cpus (sched s) c') = Some z" "lookup (sched s) z = Some b"
        using cpu_inv_current [OF sched_inv_atD(2) [OF d(1)]] by blast
      then show ?thesis using other l1(2) by (auto simp: user_context_def k2 l2)
    qed
    then show "for_usercopy c' (user_spaces ?s c') = user_context c' (sched ?s)" using sp(4) [OF c'] by simp
    assume "installed (user_spaces ?s c') \<noteq> NO_ACTIVE_USER_ROOT"
    then obtain z b q where z: "lookup (sched s) z = Some b" "home_cpu b = c'" "tstate b \<noteq> Exited" "thread_space b = Some q"
      "root_pa q = installed (user_spaces s c')" using sp(3) [OF c'] by (auto simp: space_live_def)
    then have "z \<noteq> ?x" using l1(2) by auto
    then show "space_live (sched ?s) c' (installed (user_spaces ?s c'))"
      unfolding space_live_def using z by (intro exI [of _ z] exI [of _ b] exI [of _ q]) (simp add: l2)
  qed (use spaces_okD(1) [OF d(6)] in simp)
  ultimately have "sys_inv_at {} Map.empty {} ?s" using S2(2) by (simp add: sys_inv_at_def)
  then show ?thesis using run kept_sched by blast
qed

end
