(* ===== verification/Sched_Reach.thy ===== *)
theory Sched_Reach
  imports Sched_Boot
begin

text \<open>
  The scheduler as a transition system. A step is a kernel entry or call on the executing CPU, or
  the decision that another CPU executes next, so a run is an interleaving of the CPUs; the
  source serializes the modelled sections with the scheduler lock and masked interrupts. The
  calls are the complete operations of \<^verbatim>\<open>kernel/src/sched\<close>. Beside them the theory
  models \<open>PreemptGuard\<close> of \<^verbatim>\<open>kernel/src/sync/preempt.rs\<close> and \<open>yield_now\<close>.
\<close>

section \<open>Preemption guards\<close>

definition preempt_guard_enter :: "'a machine_scheme \<Rightarrow> (cpu_id \<times> 'a machine_scheme) option" where
  "preempt_guard_enter m = do {
     c \<leftarrow> current_cpu m;
     (_, m) \<leftarrow> with_state c (\<lambda>p. map_option (Pair ()) (preempt_enter p)) m;
     Some (c, m)
   }"

text \<open>
  Dropping the guard of CPU \<open>owner\<close> tells whether the checkpoint call follows;
  \<open>irq_allows\<close> is the architecture's answer for the saved interrupt state.
\<close>

definition preempt_guard_drop :: "cpu_id \<Rightarrow> bool \<Rightarrow> 'a system_scheme \<Rightarrow> (bool \<times> 'a system_scheme) option" where
  "preempt_guard_drop owner irq_allows s = do {
     c \<leftarrow> current_cpu s;
     panic_if (c \<noteq> owner);
     (pending, s) \<leftarrow> with_state owner preempt_leave s;
     Some (pending \<and> scheduler_online owner s \<and> irq_allows, s)
   }"

definition yield_now :: "trap_frame \<Rightarrow> 'a system_scheme \<Rightarrow> (trap_frame \<times> 'a system_scheme) option" where
  "yield_now live s = do {
     s \<leftarrow> request_reschedule s;
     on_preempt_checkpoint live s
   }"

section \<open>Calls\<close>

datatype sys_call =
    RunOn cpu_id
  | InitializeCpu usize usize usize
  | EnterThread
  | TimerInterrupt
  | SchedulerIpi
  | PreemptCheckpoint
  | YieldNow
  | GuardEnter
  | GuardDrop bool
  | SleepSync u64
  | SleepUser u64
  | ExitSync usize
  | JoinSync thread_id
  | TakeJoinResult
  | SpawnKernel usize usize usize thread_attrs
  | SpawnUser address_space_id owned_user_stack usize usize usize thread_attrs
  | ForkUser address_space_id owned_user_stack thread_attrs
  | ReplaceUser address_space_id owned_user_stack
  | PrepareWait
  | CommitWait prepared_wait
  | CancelWait prepared_wait
  | FinishWait wait_token
  | CompleteWait wait_token wait_cause
  | ScheduleDeadline u64 wait_token
  | CancelDeadline wait_token
  | ReadCounter

text \<open>The state after a call by the interrupted context \<open>live\<close>; \<open>None\<close> is a panic.\<close>

fun sys_run :: "trap_frame \<Rightarrow> sys_call \<Rightarrow> 'a system_scheme \<Rightarrow> 'a system_scheme option" where
  "sys_run live (RunOn c) s = Some (s\<lparr>executing := c\<rparr>)"
| "sys_run live (InitializeCpu pc entry arg) s = map_option snd (initialize_current_cpu pc entry arg s)"
| "sys_run live EnterThread s = map_option snd (enter_running_thread s)"
| "sys_run live TimerInterrupt s = map_option snd (on_timer_interrupt live s)"
| "sys_run live SchedulerIpi s = map_option snd (on_scheduler_ipi live s)"
| "sys_run live PreemptCheckpoint s = map_option snd (on_preempt_checkpoint live s)"
| "sys_run live YieldNow s = map_option snd (yield_now live s)"
| "sys_run live GuardEnter s = map_option snd (preempt_guard_enter s)"
| "sys_run live (GuardDrop irq_allows) s = do { c \<leftarrow> current_cpu s; map_option snd (preempt_guard_drop c irq_allows s) }"
| "sys_run live (SleepSync until) s = map_option (snd \<circ> snd) (on_sleep_sync live until wait_output_new s)"
| "sys_run live (SleepUser until) s = map_option (snd \<circ> snd) (sleep_user_until_counter live until s)"
| "sys_run live (ExitSync code) s = map_option snd (on_thread_exit_sync live code s)"
| "sys_run live (JoinSync target) s = map_option (snd \<circ> snd) (on_thread_join_sync live target wait_output_new s)"
| "sys_run live TakeJoinResult s = map_option snd (take_current_join_result_irqsave s)"
| "sys_run live (SpawnKernel pc entry arg attrs) s = map_option snd (thread_spawn pc entry arg attrs s)"
| "sys_run live (SpawnUser aspace stack entry sp arg attrs) s =
     map_option snd (thread_spawn_user aspace stack entry sp arg attrs (\<lambda>_ _ _. Some) s)"
| "sys_run live (ForkUser aspace stack attrs) s =
     map_option snd (thread_spawn_user_from_context aspace stack live attrs (\<lambda>_ _ _. Some) s)"
| "sys_run live (ReplaceUser aspace stack) s = map_option snd (replace_current_user_resources aspace stack s)"
| "sys_run live PrepareWait s = map_option snd (prepare_wait s)"
| "sys_run live (CommitWait p) s = map_option (snd \<circ> snd) (commit_wait live p s)"
| "sys_run live (CancelWait p) s = map_option snd (cancel_wait p s)"
| "sys_run live (FinishWait tok) s = map_option snd (finish_wait tok s)"
| "sys_run live (CompleteWait tok cause) s = map_option snd (complete_wait tok cause s)"
| "sys_run live (ScheduleDeadline d tok) s = schedule_event d (wait_deadline tok) s"
| "sys_run live (CancelDeadline tok) s = cancel_event (wait_deadline tok) s"
| "sys_run live ReadCounter s = Some (snd (now_counter s))"

text \<open>
  What the callers guarantee. An interrupt or a checkpoint never finds a wait between its
  preparation and its commit, because that interval has interrupts masked. A thread that blocks
  has no unfinished wait and holds no preemption guard. An external owner completes its own
  tokens, never the one of a join, and has one deadline per waiting thread. An address space given
  to a new program has a root of its own and belongs to the CPU of the program.
\<close>

definition may_block :: "'a system_scheme \<Rightarrow> (cpu_id \<Rightarrow> thread_id \<Rightarrow> thread \<Rightarrow> bool) \<Rightarrow> bool" where
  "may_block s P \<longleftrightarrow> (\<exists>c x a. calling c x a s \<and> assert_preemption_enabled_on c s = Some () \<and> P c x a)"

definition interruptible :: "'a system_scheme \<Rightarrow> bool" where
  "interruptible s \<longleftrightarrow> (\<exists>c. current_cpu s = Some c \<and> settled c (sched s))"

definition own_space :: "address_space_id \<Rightarrow> thread_attrs \<Rightarrow> 'a system_scheme \<Rightarrow> bool" where
  "own_space aspace attrs s \<longleftrightarrow> fresh_root aspace (sched s) \<and>
     (\<exists>c. current_cpu s = Some c \<and> (\<forall>home. resolve_affinity c (attr_affinity attrs) s = Inr home \<longrightarrow> owner_cpu aspace = home))"

fun permitted :: "sys_call \<Rightarrow> 'a system_scheme \<Rightarrow> bool" where
  "permitted (RunOn c) s \<longleftrightarrow> c < cpus_registered s"
| "permitted (InitializeCpu pc entry arg) s \<longleftrightarrow> (\<exists>c. current_cpu s = Some c \<and> assert_pre_scheduler_state_quiescent c s = Some ())"
| "permitted EnterThread s \<longleftrightarrow> (\<exists>c. current_cpu s = Some c \<and> current (cpus (sched s) c) \<noteq> None \<and> \<not> online (cpus (sched s) c))"
| "permitted TimerInterrupt s \<longleftrightarrow> interruptible s"
| "permitted SchedulerIpi s \<longleftrightarrow> interruptible s"
| "permitted PreemptCheckpoint s \<longleftrightarrow> interruptible s"
| "permitted YieldNow s \<longleftrightarrow> interruptible s"
| "permitted GuardEnter s \<longleftrightarrow> (\<exists>c. current_cpu s = Some c \<and> disable_depth (cpu_preemption s c) < usize_max)"
| "permitted (GuardDrop irq_allows) s \<longleftrightarrow> (\<exists>c. current_cpu s = Some c \<and> disable_depth (cpu_preemption s c) \<noteq> 0)"
| "permitted (SleepSync until) s \<longleftrightarrow> may_block s (\<lambda>c x a. sequence_left (wait_md a) \<and> no_deadline c x s)"
| "permitted (SleepUser until) s \<longleftrightarrow> may_block s (\<lambda>c x a. sequence_left (wait_md a) \<and> no_deadline c x s)"
| "permitted (ExitSync code) s \<longleftrightarrow> may_block s (\<lambda>c x a. True)"
| "permitted (JoinSync target) s \<longleftrightarrow>
     may_block s (\<lambda>c x a. sequence_left (wait_md a) \<and> last_join_result a = None \<and> reaped_user a = None)"
| "permitted TakeJoinResult s \<longleftrightarrow> (\<exists>c x a. calling c x a s)"
| "permitted (SpawnKernel pc entry arg attrs) s \<longleftrightarrow> current_cpu s \<noteq> None"
| "permitted (SpawnUser aspace stack entry sp arg attrs) s \<longleftrightarrow> own_space aspace attrs s"
| "permitted (ForkUser aspace stack attrs) s \<longleftrightarrow> own_space aspace attrs s"
| "permitted (ReplaceUser aspace stack) s \<longleftrightarrow> (\<exists>c x a. calling c x a s \<and> fresh_root aspace (sched s))"
| "permitted PrepareWait s \<longleftrightarrow> may_block s (\<lambda>c x a. sequence_left (wait_md a))"
| "permitted (CommitWait p) s \<longleftrightarrow> (\<exists>c x a a0. committing c x a p a0 s \<and> aw_phase a0 \<noteq> PhaseBlocked)"
| "permitted (CancelWait p) s \<longleftrightarrow> True"
| "permitted (FinishWait tok) s \<longleftrightarrow> True"
| "permitted (CompleteWait tok cause) s \<longleftrightarrow> current_cpu s \<noteq> None \<and> \<not> joiner_token (sched s) tok"
| "permitted (ScheduleDeadline d tok) s \<longleftrightarrow> current_cpu s = Some (wt_cpu tok) \<and> no_deadline (wt_cpu tok) (wt_thread tok) s \<and>
     tid_index (wt_thread tok) < length (slots (lifecycle (sched s))) \<and>
     wt_sequence tok \<le> slot_seq (sched s) (tid_index (wt_thread tok)) \<and> \<not> joiner_token (sched s) tok"
| "permitted (CancelDeadline tok) s \<longleftrightarrow> current_cpu s \<noteq> None \<and> wt_cpu tok < cpus_registered s"
| "permitted ReadCounter s \<longleftrightarrow> True"

text \<open>Reachability: a successful bootstrap, then permitted calls in any order on any CPU.\<close>

inductive sys_reach :: "'a system_scheme \<Rightarrow> bool" where
  boot: "\<lbrakk>boot_machine s; current_cpu s = Some c; assert_pre_scheduler_state_quiescent c s = Some ();
    1 \<le> expected; length threads + expected \<le> capacity; capacity \<le> KERNEL_THREAD_CAPACITY;
    sched_bootstrap alloc pc expected idle_entry idle_arg threads quantum capacity s = Some (Inr (), s')\<rbrakk> \<Longrightarrow> sys_reach s'"
| call: "\<lbrakk>sys_reach s; permitted call s; sys_run live call s = Some s'\<rbrakk> \<Longrightarrow> sys_reach s'"

section \<open>The remaining calls keep the invariant\<close>

text \<open>The running thread gives up a wait that no join is registered on.\<close>

lemma sys_own_wait:
  assumes inv: "sys_inv_at {} Q U s" and a: "lookup (sched s) x = Some a" "tstate a = Running"
    and w: "w = wait_md a \<or> w = (wait_md a)\<lparr>active := None\<rparr>"
  shows "sys_inv_at {} Q U (s\<lparr>sched := set_wait x w (sched s)\<rparr>)"
proof -
  note ok = sched_inv_atD(3) [OF sys_inv_atD(1) [OF inv] a(1)]
  have "\<not> waits_as {} a tok" for tok
    using ok a(2) by (auto simp: thread_ok_def phase_ok_def waits_as_def split: option.splits wait_phase.splits)
  moreover have "thread_ok x (a\<lparr>wait_md := w\<rparr>)" using ok a(2) w by (auto simp: thread_ok_def phase_ok_def wait_wf_def)
  ultimately show ?thesis using w by (intro sys_upd_thread [OF inv a(1)]) auto
qed

lemma own_wait_results:
  "snd (wait_finish tok w) = w \<or> snd (wait_finish tok w) = w\<lparr>active := None\<rparr>"
  "snd (wait_cancel p w) = w \<or> snd (wait_cancel p w) = w\<lparr>active := None\<rparr>"
  by (auto simp: wait_finish_def wait_cancel_def split: option.splits wait_phase.splits)

text \<open>A wait call on a thread that does not run any more, or is another one by now, changes nothing.\<close>

lemma wait_target_cases:
  assumes inv: "sys_inv_at {} Q U s"
  obtains "lookup (sched s) x = None"
  | a where "lookup (sched s) x = Some a" "current (cpus (sched s) (home_cpu a)) \<noteq> Some x"
  | a where "lookup (sched s) x = Some a" "current (cpus (sched s) (home_cpu a)) = Some x" "tstate a = Running"
      "assert_current_running x (sched s) = Some ()"
proof (cases "lookup (sched s) x")
  case (Some a)
  show ?thesis
  proof (cases "current (cpus (sched s) (home_cpu a)) = Some x")
    case True
    note i = sched_inv_atD(2) [OF sys_inv_atD(1) [OF inv]]
    have "tstate a = Running" using cpu_inv_current [OF i True] Some by auto
    then show ?thesis using that(3) [OF Some True] assert_current_running_ok [OF i True] by simp
  qed (use that(2) Some in simp)
qed (use that(1) in simp)

lemma finish_wait_ok:
  assumes inv: "sys_inv_at {} Q U s"
  shows "\<exists>r S'. finish_wait tok s = Some (r, s\<lparr>sched := S'\<rparr>) \<and> sys_inv_at {} Q U (s\<lparr>sched := S'\<rparr>)"
proof (cases rule: wait_target_cases [OF inv, of "wt_thread tok"])
  case 1
  then show ?thesis using inv sys_inv_atD(8) [OF inv]
    by (intro exI [of _ "Inl FinishStale"] exI [of _ "sched s"]) (simp add: finish_wait_def transition_finish_wait_def thread_matches_lookup)
next
  case (2 a)
  then show ?thesis using inv sys_inv_atD(8) [OF inv] lookup_thread_at [OF 2(1)]
    by (intro exI [of _ "Inl FinishStale"] exI [of _ "sched s"]) (simp add: finish_wait_def transition_finish_wait_def thread_matches_lookup Let_def)
next
  case (3 a)
  obtain r w where w: "wait_finish tok (wait_md a) = (r, w)" by fastforce
  then have "sys_inv_at {} Q U (s\<lparr>sched := set_wait (wt_thread tok) w (sched s)\<rparr>)"
    using own_wait_results(1) [of tok "wait_md a"] by (intro sys_own_wait [OF inv 3(1,3)]) simp
  moreover have "finish_wait tok s = Some (r, s\<lparr>sched := set_wait (wt_thread tok) w (sched s)\<rparr>)"
    using 3 w sys_inv_atD(8) [OF inv] lookup_thread_at [OF 3(1)] update_thread_lookup [OF 3(1)]
    by (simp add: finish_wait_def transition_finish_wait_def thread_matches_lookup Let_def)
  ultimately show ?thesis by blast
qed

lemma cancel_wait_ok:
  assumes inv: "sys_inv_at {} Q U s"
  shows "\<exists>r S'. cancel_wait p s = Some (r, s\<lparr>sched := S'\<rparr>) \<and> sys_inv_at {} Q U (s\<lparr>sched := S'\<rparr>)"
proof (cases rule: wait_target_cases [OF inv, of "wt_thread (pw_token p)"])
  case 1
  then show ?thesis using inv sys_inv_atD(8) [OF inv]
    by (intro exI [of _ CancelStale] exI [of _ "sched s"]) (simp add: cancel_wait_def transition_cancel_wait_def thread_matches_lookup Let_def)
next
  case (2 a)
  then show ?thesis using inv sys_inv_atD(8) [OF inv] lookup_thread_at [OF 2(1)]
    by (intro exI [of _ CancelStale] exI [of _ "sched s"]) (simp add: cancel_wait_def transition_cancel_wait_def thread_matches_lookup Let_def)
next
  case (3 a)
  let ?x = "wt_thread (pw_token p)"
  obtain r w where w: "wait_cancel p (wait_md a) = (r, w)" by fastforce
  then have "sys_inv_at {} Q U (s\<lparr>sched := set_wait ?x w (sched s)\<rparr>)"
    using own_wait_results(2) [of p "wait_md a"] by (intro sys_own_wait [OF inv 3(1,3)]) simp
  moreover have "cancel_wait p s = Some (r, s\<lparr>sched := set_wait ?x w (sched s)\<rparr>)"
    using 3 w sys_inv_atD(8) [OF inv] lookup_thread_at [OF 3(1)] update_thread_lookup [OF 3(1)]
    by (simp add: cancel_wait_def transition_cancel_wait_def thread_matches_lookup Let_def)
  ultimately show ?thesis by blast
qed

lemma complete_call_ok:
  assumes inv: "sys_inv_at {} Map.empty {} s" and cpu: "current_cpu s = Some c" and nj: "\<not> joiner_token (sched s) tok"
  shows "\<exists>r s'. complete_wait tok cause s = Some (r, s') \<and> sys_inv_at {} Map.empty {} s' \<and> background c s s'"
proof -
  obtain r s' where s': "complete_wait_transition tok cause True s = Some (r, s')" "sched_inv_at {} {} (sched s')" "background c s s'"
    "adds_quantum c s s'" "keeps_quantum c s s'"
    using complete_wait_ok [OF sys_inv_atD(1) [OF inv] sys_inv_ready [OF inv cpu] sys_inv_room(3) [OF inv current_cpu_less [OF cpu]] nj, of cause True]
    by auto
  have "sys_inv_at {} Map.empty {} s'" using s' by (intro sys_background [OF inv]) simp_all
  then show ?thesis using s' sys_inv_atD(8) [OF inv] by (simp add: complete_wait_def transition_complete_wait_def)
qed

lemma take_join_result_ok:
  assumes inv: "sys_inv_at {} Map.empty {} s" and x: "calling c x a s"
  shows "\<exists>r s'. take_current_join_result_irqsave s = Some (r, s') \<and> sys_inv_at {} Map.empty {} s' \<and> kept s s'"
proof -
  note m = callingD [OF x]
  let ?S1 = "upd_thread x (\<lambda>th. th\<lparr>last_join_result := None\<rparr>) (sched s)"
  have x1: "lookup ?S1 x = Some (a\<lparr>last_join_result := None\<rparr>)" using m(5) by (simp add: lookup_upd_thread)
  have inv1: "sys_inv_at {} Map.empty {} (s\<lparr>sched := ?S1\<rparr>)" by (rule sys_own_result(1) [OF inv m(5,6)])
  have inv2: "sys_inv_at {} Map.empty {} (s\<lparr>sched := upd_thread x (\<lambda>th. th\<lparr>reaped_user := None\<rparr>) ?S1\<rparr>)"
    using sys_own_result(2) [OF inv1, of x] x1 m(6) by simp
  show ?thesis using m(1,3) sys_inv_atD(8) [OF inv] lookup_thread_at [OF m(5)] update_thread_lookup [OF m(5)] update_thread_lookup [OF x1] inv1 inv2
    by (cases "last_join_result a")
      (simp_all add: take_current_join_result_irqsave_def take_current_join_result_def running_thread_def kept_sched)
qed

section \<open>Every permitted call succeeds and keeps the invariant\<close>

text \<open>Which CPU executes and how deep its guards nest does not matter to the invariant.\<close>

lemma sys_inv_local [simp]:
  "sys_inv (s\<lparr>executing := c\<rparr>) \<longleftrightarrow> sys_inv s" "sys_inv (s\<lparr>cpu_preemption := p\<rparr>) \<longleftrightarrow> sys_inv s"
  by (simp_all add: sys_inv_def sys_inv_at_def machine_ok_def arch_ok_def homes_ok_def deadlines_ok_def quanta_ok_def quanta_at_def
      quanta_def spaces_ok_def events_def dispatching_def queues_sound_def time_abs_def time_inv_def cong: option.case_cong)

lemma sys_inv_step:
  assumes "sys_inv s" "\<exists>r s'. res = Some (r, s') \<and> sys_inv_at {} Map.empty {} s' \<and> kept s s'"
  shows "\<exists>s'. map_option snd res = Some s' \<and> sys_inv s'"
  using assms by (auto intro: sys_invI)

lemma sys_inv_step3:
  assumes "sys_inv s" "\<exists>q r s'. res = Some (q, r, s') \<and> sys_inv_at {} Map.empty {} s' \<and> kept s s'"
  shows "\<exists>s'. map_option (snd \<circ> snd) res = Some s' \<and> sys_inv s'"
  using assms by (auto intro: sys_invI)

lemma guards_ok:
  assumes "current_cpu s = Some c"
  shows "disable_depth (cpu_preemption s c) < usize_max \<Longrightarrow> \<exists>p. preempt_guard_enter s = Some (c, s\<lparr>cpu_preemption := p\<rparr>)"
    "disable_depth (cpu_preemption s c) \<noteq> 0 \<Longrightarrow> \<exists>r p. preempt_guard_drop c b s = Some (r, s\<lparr>cpu_preemption := p\<rparr>)"
  using assms by (auto simp: preempt_guard_enter_def preempt_guard_drop_def with_state_def preempt_enter_def preempt_leave_def
      checked_add_usize_def Let_def)

lemma yield_ok:
  assumes inv: "sys_inv s" and cpu: "current_cpu s = Some c" and st: "settled c (sched s)"
  shows "\<exists>live' s'. yield_now live s = Some (live', s') \<and> sys_inv s'"
proof -
  let ?s = "s\<lparr>cpu_preemption := (cpu_preemption s)(c := preempt_request (cpu_preemption s c))\<rparr>"
  have inv1: "sys_inv ?s" using inv by simp
  then have "sys_inv_at {} Map.empty {} ?s" by (simp add: sys_inv_def)
  moreover have cpu1: "current_cpu ?s = Some c" using cpu by simp
  ultimately obtain live' s' where s': "preempt_checkpoint c live ?s = Some (live', s')" "sys_inv_at {} Map.empty {} s'" "kept ?s s'"
    using preempt_checkpoint_ok [of ?s c live] st by auto
  have "sched_published s" using inv sys_inv_atD(8) by (auto simp: sys_inv_def)
  then have "yield_now live s = Some (live', s')"
    using cpu cpu1 s'(1) by (simp add: yield_now_def request_reschedule_def with_state_def on_preempt_checkpoint_def)
  then show ?thesis using sys_invI [OF s'(2) inv1 s'(3)] by blast
qed

lemma spawn_user_ok:
  assumes inv: "sys_inv s" and own: "own_space aspace attrs s" and cpu: "current_cpu s = Some c"
  shows "\<exists>r s'. spawn_user_with ctx c aspace stack attrs (\<lambda>_ _ _. Some) s = Some (r, s') \<and> sys_inv s'"
proof -
  have inv0: "sys_inv_at {} Map.empty {} s" using inv by (simp add: sys_inv_def)
  have reg: "registers (\<lambda>_ _ _. Some) (\<lambda>_ _ _. system.more s) s" by (simp add: registers_def)
  obtain r s' where s': "spawn_user_with ctx c aspace stack attrs (\<lambda>_ _ _. Some) s = Some (r, s')" "sys_inv_at {} Map.empty {} s'"
      "\<And>e st. r = Inl (e, st) \<Longrightarrow> s' = s" "\<And>x. r = Inr x \<Longrightarrow> kept (with_more (system.more s) s) s'"
    using spawn_user_with_ok [OF inv0 cpu _ _ reg, of aspace attrs ctx stack] own cpu unfolding own_space_def by fastforce
  have "kept s s'" using s'(3,4) by (cases r) auto
  then show ?thesis using s'(1) sys_invI [OF s'(2) inv] by blast
qed

lemma sys_run_ok:
  assumes inv: "sys_inv s" and pm: "permitted call s"
  shows "\<exists>s'. sys_run live call s = Some s' \<and> sys_inv s'"
proof -
  have inv0: "sys_inv_at {} Map.empty {} s" using inv by (simp add: sys_inv_def)
  note pub = sys_inv_atD(8) [OF inv0]
  show ?thesis
  proof (cases call)
    case (InitializeCpu pc entry arg)
    then show ?thesis using pm sys_inv_step [OF inv initialize_current_ok [OF inv0]] by auto
  next
    case EnterThread
    then obtain c y where "current_cpu s = Some c" "current (cpus (sched s) c) = Some y" "\<not> online (cpus (sched s) c)" using pm by auto
    from enter_running_ok [OF inv0 this] show ?thesis using EnterThread sys_invI [OF _ inv] by auto
  next
    case TimerInterrupt
    then obtain c where "current_cpu s = Some c" "settled c (sched s)" using pm by (auto simp: interruptible_def)
    from on_timer_interrupt_ok [OF inv this, of live] show ?thesis using TimerInterrupt by auto
  next
    case SchedulerIpi
    then obtain c where c: "current_cpu s = Some c" "settled c (sched s)" using pm by (auto simp: interruptible_def)
    have "\<exists>live' s'. on_scheduler_ipi live s = Some (live', s') \<and> sys_inv_at {} Map.empty {} s' \<and> kept s s'"
      using finish_scheduler_ipi_ok [OF inv0 c, of live] c(1) pub by (simp add: on_scheduler_ipi_def)
    from sys_inv_step [OF inv this] show ?thesis using SchedulerIpi by simp
  next
    case PreemptCheckpoint
    then obtain c where c: "current_cpu s = Some c" "settled c (sched s)" using pm by (auto simp: interruptible_def)
    have "\<exists>live' s'. on_preempt_checkpoint live s = Some (live', s') \<and> sys_inv_at {} Map.empty {} s' \<and> kept s s'"
      using preempt_checkpoint_ok [OF inv0 c, of live] c(1) pub by (simp add: on_preempt_checkpoint_def)
    from sys_inv_step [OF inv this] show ?thesis using PreemptCheckpoint by simp
  next
    case YieldNow
    then obtain c where "current_cpu s = Some c" "settled c (sched s)" using pm by (auto simp: interruptible_def)
    from yield_ok [OF inv this, of live] show ?thesis using YieldNow by auto
  next
    case GuardEnter
    then obtain c where c: "current_cpu s = Some c" "disable_depth (cpu_preemption s c) < usize_max" using pm by auto
    obtain p where "preempt_guard_enter s = Some (c, s\<lparr>cpu_preemption := p\<rparr>)" using guards_ok(1) [OF c] by blast
    then show ?thesis using GuardEnter inv by simp
  next
    case (GuardDrop b)
    then obtain c where c: "current_cpu s = Some c" "disable_depth (cpu_preemption s c) \<noteq> 0" using pm by auto
    obtain r p where "preempt_guard_drop c b s = Some (r, s\<lparr>cpu_preemption := p\<rparr>)" using guards_ok(2) [OF c] by blast
    then show ?thesis using GuardDrop c(1) inv by simp
  next
    case (SleepSync until)
    then show ?thesis using pm sys_inv_step3 [OF inv on_sleep_sync_ok [OF inv0]] by (auto simp: may_block_def)
  next
    case (SleepUser until)
    then obtain c x a where "calling c x a s" "assert_preemption_enabled_on c s = Some ()" "sequence_left (wait_md a)" "no_deadline c x s"
      using pm by (auto simp: may_block_def)
    from sleep_user_ok [OF inv0 this, of live until] show ?thesis using SleepUser sys_invI [OF _ inv] by auto
  next
    case (ExitSync code)
    then show ?thesis using pm sys_inv_step [OF inv on_thread_exit_ok [OF inv0]] by (auto simp: may_block_def)
  next
    case (JoinSync t)
    then show ?thesis using pm sys_inv_step3 [OF inv on_thread_join_ok [OF inv0]] by (auto simp: may_block_def)
  next
    case TakeJoinResult
    then show ?thesis using pm sys_inv_step [OF inv take_join_result_ok [OF inv0]] by auto
  next
    case (SpawnKernel pc entry arg attrs)
    then obtain c where "current_cpu s = Some c" using pm by auto
    from thread_spawn_ok [OF inv0 this, of pc entry arg attrs] show ?thesis using SpawnKernel sys_invI [OF _ inv] by auto
  next
    case (SpawnUser aspace stack entry sp arg attrs)
    then have own: "own_space aspace attrs s" using pm by simp
    then obtain c where c: "current_cpu s = Some c" by (auto simp: own_space_def)
    from spawn_user_ok [OF inv own c] show ?thesis using SpawnUser c pub by (fastforce simp: thread_spawn_user_def spawn_user_thread_def)
  next
    case (ForkUser aspace stack attrs)
    then have own: "own_space aspace attrs s" using pm by simp
    then obtain c where c: "current_cpu s = Some c" by (auto simp: own_space_def)
    from spawn_user_ok [OF inv own c] show ?thesis using ForkUser c pub
      by (fastforce simp: thread_spawn_user_from_context_def spawn_user_thread_from_context_def)
  next
    case (ReplaceUser aspace stack)
    then obtain c x a where "calling c x a s" "fresh_root aspace (sched s)" using pm by auto
    from replace_current_ok [OF inv0 this, of stack] show ?thesis using ReplaceUser sys_invI [OF _ inv] by auto
  next
    case PrepareWait
    then obtain c x a where x: "calling c x a s" "assert_preemption_enabled_on c s = Some ()" "sequence_left (wait_md a)"
      using pm by (auto simp: may_block_def)
    show ?thesis using PrepareWait sys_prepare(1,3) [OF inv0 x] callingD(1) [OF x(1)] pub sys_invI [OF _ inv kept_sched] by (simp add: prepare_wait_def)
  next
    case (CommitWait p)
    then obtain c x a a0 where com: "committing c x a p a0 s" "aw_phase a0 \<noteq> PhaseBlocked" using pm by auto
    from commit_prepared_wait_ok [OF inv0 _ com, of live] show ?thesis
      using CommitWait committingD(1) [OF com(1)] pub sys_invI [OF _ inv] by (auto simp: commit_wait_def)
  next
    case (CancelWait p)
    then show ?thesis using cancel_wait_ok [OF inv0, of p] sys_invI [OF _ inv kept_sched] by auto
  next
    case (FinishWait tok)
    then show ?thesis using finish_wait_ok [OF inv0, of tok] sys_invI [OF _ inv kept_sched] by auto
  next
    case (CompleteWait tok cause)
    then obtain c where c: "current_cpu s = Some c" "\<not> joiner_token (sched s) tok" using pm by auto
    from complete_call_ok [OF inv0 c, of cause] show ?thesis using CompleteWait sys_invI [OF _ inv kept_background] by auto
  next
    case (ScheduleDeadline d tok)
    then show ?thesis using pm sys_schedule_deadline [OF inv0, of "wt_cpu tok" tok d] sys_invI [OF _ inv kept_neutral] by auto
  next
    case (CancelDeadline tok)
    then obtain c where c: "current_cpu s = Some c" "wt_cpu tok < cpus_registered s" using pm by auto
    then show ?thesis using CancelDeadline sys_cancel_deadline [OF inv0 c] sys_invI [OF _ inv kept_neutral] by auto
  next
    case ReadCounter
    then show ?thesis using sys_invI [OF sys_read_counter(1) [OF inv0] inv kept_neutral [OF sys_read_counter(2,3) [OF inv0]]] by simp
  qed (use inv in simp)
qed

lemma sys_reach_inv: "sys_reach s \<Longrightarrow> sys_inv s"
proof (induction rule: sys_reach.induct)
  case (boot s c expected threads capacity alloc pc idle_entry idle_arg quantum s')
  from bootstrap_ok [OF boot(1-6), of alloc pc idle_entry idle_arg quantum] boot(7) show ?case by auto
next
  case (call s call live s')
  from sys_run_ok [OF call.IH call.hyps(2), of live] call.hyps(3) show ?case by auto
qed

end
