(* ===== verification/Sched_Sample.thy ===== *)
theory Sched_Sample
  imports Sched_Reach
begin

text \<open>
  A small concrete system for the witnesses: two CPUs, two static threads on CPU 0, and a run in
  which one thread creates a joinable thread and joins it, and the new thread exits.
\<close>

definition sample_frame :: trap_frame where
  "sample_frame = \<lparr>frame_x = replicate 31 0, frame_sp = 0, frame_elr = 0, frame_spsr = 0, frame_kernel_sp = 0\<rparr>"

definition sample_boot :: system where
  "sample_boot =
     \<lparr>executing = 0, cpus_registered = 2, clock = (\<lambda>n. word_of_nat (10 * n)), clock_reads = 0, counter_freq = 1000000,
      hw_timer = (\<lambda>_. None), cpu_time = (\<lambda>_. Some (time_state_new queue_size)), cpu_preemption = (\<lambda>_. preempt_new),
      user_spaces = (\<lambda>_. user_space_new), ipi_ok = (\<lambda>_. True), ipi_sent = [], arch_activate = (\<lambda>_. 0), arch_clear = 0,
      sched_published = False, sched = the (transition_new 0 0)\<rparr>"

definition sample_booted :: "system option" where
  "sample_booted = map_option snd (sched_bootstrap (\<lambda>i. 65536 * (i + 1)) 7 2 100 0 [(200, 1), (300, 2)] 10 8 sample_boot)"

definition sample_child :: thread_id where
  "sample_child = ThreadId 7 1"

definition sample_spawn :: sys_call where
  "sample_spawn = SpawnKernel 7 400 3 attrs_joinable"

definition sample_join_run :: "sys_call list" where
  "sample_join_run = [EnterThread, sample_spawn, JoinSync sample_child, YieldNow, ExitSync 42]"

definition sample_token :: wait_token where
  "sample_token = WaitToken (ThreadId 1 1) 0 1"

definition sample_wait_run :: "sys_call list" where
  "sample_wait_run = [EnterThread, PrepareWait, CommitWait (PreparedWait sample_token Explicit)]"

text \<open>All threads of a table, for evaluation.\<close>

definition all_threads :: "(thread \<Rightarrow> bool) \<Rightarrow> scheduler \<Rightarrow> bool" where
  "all_threads P S = list_all (\<lambda>slot. case slot_thread slot of None \<Rightarrow> True | Some th \<Rightarrow> P th) (slots (lifecycle S))"

section \<open>The run is reachable\<close>

text \<open>An executable condition under which the thread running on the executing CPU may call.\<close>

definition caller_ready :: "(thread \<Rightarrow> bool) \<Rightarrow> 'a system_scheme \<Rightarrow> bool" where
  "caller_ready P s =
     (case current_cpu s of
        None \<Rightarrow> False
      | Some c \<Rightarrow>
          (case current (cpus (sched s) c) of
             None \<Rightarrow> False
           | Some x \<Rightarrow>
               online (cpus (sched s) c) \<and> idle (cpus (sched s) c) \<noteq> Some x \<and> disable_depth (cpu_preemption s c) = 0 \<and>
               (case lookup (sched s) x of None \<Rightarrow> False | Some a \<Rightarrow> active (wait_md a) = None \<and> P a)))"

definition caller_prepared :: "prepared_wait \<Rightarrow> 'a system_scheme \<Rightarrow> bool" where
  "caller_prepared p s =
     (case current_cpu s of
        None \<Rightarrow> False
      | Some c \<Rightarrow>
          (case current (cpus (sched s) c) of
             None \<Rightarrow> False
           | Some x \<Rightarrow>
               online (cpus (sched s) c) \<and> idle (cpus (sched s) c) \<noteq> Some x \<and> disable_depth (cpu_preemption s c) = 0 \<and>
               (case lookup (sched s) x of
                  None \<Rightarrow> False
                | Some a \<Rightarrow>
                    (case active (wait_md a) of
                       None \<Rightarrow> False
                     | Some a0 \<Rightarrow> aw_token a0 = pw_token p \<and> aw_consumption a0 = pw_consumption p \<and> aw_phase a0 = Prepared))))"

fun sample_permits :: "sys_call \<Rightarrow> system \<Rightarrow> bool" where
  "sample_permits EnterThread s =
     (current_cpu s = Some 0 \<and> current (cpus (sched s) 0) \<noteq> None \<and> \<not> online (cpus (sched s) 0))"
| "sample_permits (SpawnKernel pc entry arg attrs) s = (current_cpu s \<noteq> None)"
| "sample_permits (JoinSync t) s = caller_ready (\<lambda>a. sequence_left (wait_md a) \<and> last_join_result a = None \<and> reaped_user a = None) s"
| "sample_permits (ExitSync code) s = caller_ready (\<lambda>a. True) s"
| "sample_permits YieldNow s = caller_ready (\<lambda>a. True) s"
| "sample_permits PrepareWait s = caller_ready (\<lambda>a. sequence_left (wait_md a)) s"
| "sample_permits (CommitWait p) s = caller_prepared p s"
| "sample_permits _ s = False"

text \<open>The state after a list of calls, as long as each is permitted.\<close>

fun sample_calls :: "sys_call list \<Rightarrow> system \<Rightarrow> system option" where
  "sample_calls [] s = Some s"
| "sample_calls (call # calls) s =
     (if sample_permits call s then do { s \<leftarrow> sys_run sample_frame call s; sample_calls calls s } else None)"

definition sample_after :: "sys_call list \<Rightarrow> system option" where
  "sample_after calls = do { s \<leftarrow> sample_booted; sample_calls calls s }"

lemma all_threads_lookup: "all_threads P S \<Longrightarrow> lookup S x = Some a \<Longrightarrow> P a"
  by (force simp: all_threads_def lookup_Some list_all_length)

lemma caller_ready_calling:
  assumes "caller_ready P s"
  obtains c x a where "calling c x a s" "assert_preemption_enabled_on c s = Some ()" "P a"
  using assms
  by (auto simp: caller_ready_def calling_def assert_preemption_enabled_on_def assert_enabled_def split: option.splits)

lemma caller_prepared_committing:
  assumes "caller_prepared p s"
  shows "\<exists>c x a a0. committing c x a p a0 s \<and> aw_phase a0 \<noteq> PhaseBlocked"
  using assms
  by (auto simp: caller_prepared_def committing_def assert_preemption_enabled_on_def assert_enabled_def split: option.splits)

lemma calling_interruptible:
  assumes "calling c x a s"
  shows "interruptible s"
  using callingD [OF assms] by (auto simp: interruptible_def settled_def wait_is_prepared_def)

lemma sample_permits_permitted: "sample_permits call s \<Longrightarrow> permitted call s"
  by (cases call)
    (auto simp: may_block_def elim!: caller_ready_calling intro: calling_interruptible caller_prepared_committing)

lemma sample_calls_reach: "sys_reach s \<Longrightarrow> sample_calls calls s = Some s' \<Longrightarrow> sys_reach s'"
proof (induction calls arbitrary: s)
  case (Cons call calls)
  obtain s1 where s1: "sys_run sample_frame call s = Some s1" "sample_calls calls s1 = Some s'" "sample_permits call s"
    using Cons.prems(2) by (cases "sys_run sample_frame call s") (simp_all split: if_splits)
  have "sys_reach s1" by (rule sys_reach.call [OF Cons.prems(1) sample_permits_permitted [OF s1(3)] s1(1)])
  then show ?case by (rule Cons.IH [OF _ s1(2)])
qed simp

lemma sample_boot_machine: "boot_machine sample_boot" "current_cpu sample_boot = Some 0"
  "assert_pre_scheduler_state_quiescent 0 sample_boot = Some ()"
proof -
  have ts: "ts_ok c h (time_state_new queue_size)" for c h
    by (simp add: ts_ok_def time_state_new_def buffer_ready_def expired_try_new_def timer_covers_def)
  have "time_abs sample_boot c = Some (Map.empty, False, queue_size)" for c
    by (simp add: sample_boot_def time_abs_def ts_abs_def time_state_new_def)
  moreover have "time_inv sample_boot" using ts by (simp add: time_inv_def sample_boot_def)
  ultimately have "queues_sound sample_boot" "events sample_boot c = {}" "\<not> dispatching sample_boot c" for c
    by (auto simp: queues_sound_def events_def dispatching_def)
  then show "boot_machine sample_boot"
    by (simp add: boot_machine_def) (simp add: sample_boot_def KERNEL_CPU_CAPACITY_def arch_ok_def)
  show "current_cpu sample_boot = Some 0" "assert_pre_scheduler_state_quiescent 0 sample_boot = Some ()"
    by (simp_all add: sample_boot_def current_cpu_def assert_pre_scheduler_state_quiescent_def KERNEL_CPU_CAPACITY_def preempt_new_def)
qed

lemma sample_booted_reach: "\<exists>s. sample_booted = Some s \<and> sys_reach s"
proof -
  have cap: "8 \<le> KERNEL_THREAD_CAPACITY" by (simp add: KERNEL_THREAD_CAPACITY_def)
  obtain s' where "sched_bootstrap (\<lambda>i. 65536 * (i + 1)) 7 2 100 0 [(200, 1), (300, 2)] 10 8 sample_boot = Some (Inr (), s')"
    using bootstrap_ok [OF sample_boot_machine, of 2 "[(200, 1), (300, 2)]" 8] cap by fastforce
  then show ?thesis using sys_reach.boot [OF sample_boot_machine, of 2 "[(200, 1), (300, 2)]" 8] cap by (simp add: sample_booted_def)
qed

text \<open>Reachability of a sample run, and a fact about its last state, by evaluation.\<close>

lemma sample_reach:
  assumes "map_option f (sample_after calls) = Some v"
  shows "\<exists>s. sample_after calls = Some s \<and> sys_reach s \<and> f s = v"
proof -
  obtain s where s: "sample_booted = Some s" "sys_reach s" using sample_booted_reach by blast
  obtain s' where s': "sample_after calls = Some s'" "f s' = v" using assms by blast
  have "sample_calls calls s = Some s'" using s'(1) unfolding sample_after_def s(1) by simp
  then show ?thesis using sample_calls_reach [OF s(2)] s' by blast
qed

end
