(* ===== verification/Sched_Lifecycle.thy ===== *)
theory Sched_Lifecycle
  imports Sched_Props
begin

text \<open>
  The life of threads in reachable states: bootstrap and its refusals, creation of user
  threads, replacement of a program, and the join of an exited thread.
\<close>



text \<open>
  C4. A join carries exactly the exit of its target: when the CPU that retired the exited
  thread finalizes it, the joiner becomes ready with the target's exit code as its join result
  and the target's user resources as its own to reap, and the target's identity is gone.
\<close>

theorem join_delivers_exit:
  assumes "sys_reach s" "current_cpu s = Some c" "retired (cpus (sched s) c) = Some x" "lookup (sched s) x = Some a" "joiner a = Some tok"
  shows "\<exists>s' code j. transition_finalize_retired c s = Some s' \<and> exit_code a = Some code \<and> lookup (sched s') x = None \<and>
    lookup (sched s') (wt_thread tok) = Some j \<and> tstate j = Ready \<and> last_join_result j = Some (Inr code) \<and> reaped_user j = user_res a \<and>
    retired (cpus (sched s') c) = None \<and>
    (\<forall>y. y \<noteq> x \<longrightarrow> y \<noteq> wt_thread tok \<longrightarrow> lookup (sched s') y = lookup (sched s) y)"
proof -
  note inv = reach_at [OF assms(1)]
  note d = sys_inv_atD [OF inv]
  have a: "home_cpu a = c" "tstate a = Exited" using cpu_inv_retired [OF sched_inv_atD(2) [OF d(1)] assms(3)] assms(4) by auto
  obtain jt a0 where jt: "lookup (sched s) (wt_thread tok) = Some jt" "tstate jt = Blocked"
    by (rule joiner_not_exited [OF d(1) assms(4,5)])
  then have ne: "wt_thread tok \<noteq> x" using assms(4) a by auto
  from finalize_joined [OF d(1) sys_inv_ready [OF inv assms(2)] sys_inv_room(3) [OF inv current_cpu_less [OF assms(2)]] assms(3,4) a assms(5), of True]
  obtain s' jt code where "finalize_retired c True s = Some s'" "retired (cpus (sched s') c) = None" "exit_code a = Some code"
    "lookup (sched s') = (lookup (sched s))(x := None, wt_thread tok \<mapsto>
      delivered code (user_res a) (jt\<lparr>wait_md := completed_wait Notified (wait_md jt), tstate := Ready\<rparr>))" by blast
  then show ?thesis using ne by (auto simp: transition_finalize_retired_def delivered_def)
qed

text \<open>The witness is the sample run in which thread 1 joins a thread that exits with code 42.\<close>

theorem join_delivers_exit_witness:
  "\<exists>s s' j. sample_after sample_join_run = Some s \<and> transition_finalize_retired 0 s = Some s' \<and>
    lookup (sched s') (ThreadId 1 1) = Some j \<and> last_join_result j = Some (Inr 42) \<and> lookup (sched s') sample_child = None"
proof -
  obtain s a tok where s: "sample_after sample_join_run = Some s" "sys_reach s" "current_cpu s = Some 0"
    "retired (cpus (sched s) 0) = Some sample_child" "lookup (sched s) sample_child = Some a" "joiner a = Some tok"
    "wt_thread tok = ThreadId 1 1" "exit_code a = Some 42" using sample_joined by blast
  from join_delivers_exit [OF s(2-6)] s(1,7,8) show ?thesis by auto
qed

text \<open>
  C13. A failed creation of a user thread hands the stack back and changes nothing; a
  successful one publishes a new ready thread under an identity that named no thread before, with
  the given address space and stack. There is no other outcome.
\<close>

theorem spawn_user_outcome:
  assumes "sys_reach s" "own_space aspace attrs s"
  shows "\<exists>r s'. thread_spawn_user aspace stack entry sp arg attrs (\<lambda>_ _ _. Some) s = Some (r, s') \<and>
    (case r of
       Inl (err, st) \<Rightarrow> st = stack \<and> s' = s
     | Inr x \<Rightarrow> lookup (sched s) x = None \<and>
         (\<exists>th. lookup (sched s') x = Some th \<and> tstate th = Ready \<and> user_res th = Some \<lparr>res_address_space = aspace, res_stack = stack\<rparr>))"
proof -
  note inv = reach_at [OF assms(1)]
  obtain c where c: "current_cpu s = Some c" "\<And>home. resolve_affinity c (attr_affinity attrs) s = Inr home \<Longrightarrow> owner_cpu aspace = home"
    using assms(2) by (auto simp: own_space_def)
  have reg: "registers (\<lambda>_ _ _. Some) (\<lambda>_ _ _. system.more s) s" by (simp add: registers_def)
  let ?ctx = "\<lambda>top. saved_context_user_entry entry sp top arg"
  have fresh: "fresh_root aspace (sched s)" using assms(2) by (simp add: own_space_def)
  obtain r s' where r: "spawn_user_with ?ctx c aspace stack attrs (\<lambda>_ _ _. Some) s = Some (r, s')"
    "\<forall>e st. r = Inl (e, st) \<longrightarrow> st = stack \<and> s' = s"
    "\<forall>x. r = Inr x \<longrightarrow> (\<exists>th. lookup (sched s') x = Some th \<and> tstate th = Ready \<and> lookup (sched s) x = None \<and>
      user_res th = Some \<lparr>res_address_space = aspace, res_stack = stack\<rparr>)"
    using spawn_user_with_ok [OF inv c(1) fresh c(2) reg, where ctx = ?ctx and stack = stack] by fast
  then show ?thesis using c(1) sys_inv_atD(8) [OF inv]
    by (intro exI [of _ r] exI [of _ s']) (auto simp: thread_spawn_user_def spawn_user_thread_def split: sum.splits)
qed

text \<open>The witness creates a user thread on CPU 0 of the sample system.\<close>

theorem spawn_user_outcome_witness:
  "\<exists>s r s'. sample_after sample_wait_run = Some s \<and>
    thread_spawn_user (AddressSpaceId 4096 0) \<lparr>ustack_frames = \<lparr>range_start = 8192, range_end = 12288\<rparr>, ustack_base = 4096, ustack_size = 4096\<rparr> 100 200 0 attrs_joinable (\<lambda>_ _ _. Some) s = Some (r, s')"
proof -
  obtain s where s: "sample_after sample_wait_run = Some s" "sys_reach s" "current_cpu s = Some 0"
    "all_threads (\<lambda>th. joiner th = None \<and> user_res th = None) (sched s)" using sample_waiting by blast
  have "fresh_root (AddressSpaceId 4096 0) (sched s)"
    using all_threads_lookup [OF s(4)] by (auto simp: fresh_root_def thread_space_def NO_ACTIVE_USER_ROOT_def usize_max_def)
  then have "own_space (AddressSpaceId 4096 0) attrs_joinable s"
    using s(3) by (auto simp: own_space_def resolve_affinity_def attrs_joinable_def split: if_splits)
  from spawn_user_outcome [OF s(2) this] s(1) show ?thesis by blast
qed

end
