(* ===== verification/Ipc.thy ===== *)
theory Ipc
  imports Sched_Reach
begin

text \<open>
  The bounded mailbox of \<^verbatim>\<open>kernel/src/ipc.rs\<close>. The control block and the message ring are one
  record, the sections under its lock are functions on it, and the calls that reach the scheduler
  and the timer also take the system. A blocking call is two functions: the part up to the context
  switch and the part after the resume.
\<close>

section \<open>Control block\<close>

datatype mailbox_wait_kind = WaitSend | WaitRecv

definition MAILBOX_WAIT_SEND :: u64 where
  "MAILBOX_WAIT_SEND = 1"

definition MAILBOX_WAIT_RECV :: u64 where
  "MAILBOX_WAIT_RECV = 2"

definition wait_kind_from_raw :: "u64 \<Rightarrow> mailbox_wait_kind option" where
  "wait_kind_from_raw raw =
     (if raw = MAILBOX_WAIT_SEND then Some WaitSend
      else if raw = MAILBOX_WAIT_RECV then Some WaitRecv else None)"

fun wait_kind_raw :: "mailbox_wait_kind \<Rightarrow> u64" where
  "wait_kind_raw WaitSend = MAILBOX_WAIT_SEND"
| "wait_kind_raw WaitRecv = MAILBOX_WAIT_RECV"

text \<open>\<open>waiter_room\<close> is the capacity reserved for each waiter queue.\<close>

record mailbox_control =
  mb_capacity :: usize
  mb_head :: usize
  mb_tail :: usize
  mb_len :: usize
  recv_waiters :: "wait_token list"
  send_waiters :: "wait_token list"
  waiter_room :: usize

record 'm mailbox =
  mb_control :: mailbox_control
  mb_buffer :: "'m option list"

definition control_with_capacity :: "usize \<Rightarrow> usize \<Rightarrow> mailbox_control" where
  "control_with_capacity capacity waiter_capacity =
     \<lparr>mb_capacity = capacity, mb_head = 0, mb_tail = 0, mb_len = 0, recv_waiters = [], send_waiters = [],
      waiter_room = waiter_capacity\<rparr>"

definition control_is_empty :: "mailbox_control \<Rightarrow> bool" where
  "control_is_empty k \<longleftrightarrow> mb_len k = 0"

definition control_is_full :: "mailbox_control \<Rightarrow> bool" where
  "control_is_full k \<longleftrightarrow> mb_len k = mb_capacity k"

fun should_wait :: "mailbox_wait_kind \<Rightarrow> mailbox_control \<Rightarrow> bool" where
  "should_wait WaitSend k = control_is_full k"
| "should_wait WaitRecv k = control_is_empty k"

fun waiters :: "mailbox_wait_kind \<Rightarrow> mailbox_control \<Rightarrow> wait_token list" where
  "waiters WaitSend k = send_waiters k"
| "waiters WaitRecv k = recv_waiters k"

fun set_waiters :: "mailbox_wait_kind \<Rightarrow> wait_token list \<Rightarrow> mailbox_control \<Rightarrow> mailbox_control" where
  "set_waiters WaitSend q k = k\<lparr>send_waiters := q\<rparr>"
| "set_waiters WaitRecv q k = k\<lparr>recv_waiters := q\<rparr>"

definition enqueue_waiter :: "mailbox_wait_kind \<Rightarrow> wait_token \<Rightarrow> mailbox_control \<Rightarrow> mailbox_control option" where
  "enqueue_waiter kind token k = do {
     panic_if (token \<in> set (waiters kind k));
     panic_if (length (waiters kind k) = waiter_room k);
     Some (set_waiters kind (waiters kind k @ [token]) k)
   }"

definition claim_waiter :: "mailbox_wait_kind \<Rightarrow> mailbox_control \<Rightarrow> wait_token option \<times> mailbox_control" where
  "claim_waiter kind k =
     (case waiters kind k of [] \<Rightarrow> (None, k) | token # rest \<Rightarrow> (Some token, set_waiters kind rest k))"

definition control_remove_waiter :: "mailbox_wait_kind \<Rightarrow> wait_token \<Rightarrow> mailbox_control \<Rightarrow> bool \<times> mailbox_control" where
  "control_remove_waiter kind token k =
     (if token \<in> set (waiters kind k) then (True, set_waiters kind (remove1 token (waiters kind k)) k) else (False, k))"

section \<open>Messages\<close>

definition mailbox_with_capacity :: "usize \<Rightarrow> usize \<Rightarrow> 'm mailbox option" where
  "mailbox_with_capacity capacity waiter_capacity = do {
     panic_if (capacity = 0);
     Some \<lparr>mb_control = control_with_capacity capacity waiter_capacity, mb_buffer = replicate capacity None\<rparr>
   }"

definition mailbox_is_full :: "'m mailbox \<Rightarrow> bool" where
  "mailbox_is_full mb \<longleftrightarrow> mb_len (mb_control mb) = mb_capacity (mb_control mb)"

definition mailbox_is_empty :: "'m mailbox \<Rightarrow> bool" where
  "mailbox_is_empty mb \<longleftrightarrow> mb_len (mb_control mb) = 0"

text \<open>The locked sections of the two non-blocking calls; each also claims a waiter of the other side.\<close>

definition send_locked :: "'m \<Rightarrow> 'm mailbox \<Rightarrow> (('m + wait_token option) \<times> 'm mailbox) option" where
  "send_locked msg mb =
     (let k = mb_control mb in
      if control_is_full k then Some (Inl msg, mb)
      else do {
        panic_if (length (mb_buffer mb) \<le> mb_tail k);
        let buffer = (mb_buffer mb)[mb_tail k := Some msg];
        let k = k\<lparr>mb_tail := (mb_tail k + 1) mod mb_capacity k, mb_len := mb_len k + 1\<rparr>;
        let (waiter, k) = claim_waiter WaitRecv k;
        Some (Inr waiter, mb\<lparr>mb_control := k, mb_buffer := buffer\<rparr>)
      })"

definition recv_locked :: "'m mailbox \<Rightarrow> (('m \<times> wait_token option) option \<times> 'm mailbox) option" where
  "recv_locked mb =
     (let k = mb_control mb in
      if control_is_empty k then Some (None, mb)
      else do {
        slot \<leftarrow> idx (mb_buffer mb) (mb_head k);
        msg \<leftarrow> slot;
        let buffer = (mb_buffer mb)[mb_head k := None];
        let k = k\<lparr>mb_head := (mb_head k + 1) mod mb_capacity k, mb_len := mb_len k - 1\<rparr>;
        let (waiter, k) = claim_waiter WaitSend k;
        Some (Some (msg, waiter), mb\<lparr>mb_control := k, mb_buffer := buffer\<rparr>)
      })"

datatype 'm send_error = Full 'm

datatype recv_error = RecvEmpty

datatype 'm send_timeout_error = SendTimeout 'm

datatype recv_timeout_error = RecvTimeout

section \<open>Wakeups\<close>

lemma waiters_set_waiters [simp]:
  "waiters kind (set_waiters kind q k) = q"
  by (cases kind) simp_all

lemma claim_waiter_length:
  "length (waiters kind (snd (claim_waiter kind k))) + (if fst (claim_waiter kind k) = None then 0 else 1) =
     length (waiters kind k)"
  by (simp add: claim_waiter_def split: list.split)

text \<open>A claimed waiter that timed out or is stale does not consume the wakeup: the next one is claimed.\<close>

function complete_claimed_waiters ::
  "mailbox_wait_kind \<Rightarrow> wait_token option \<Rightarrow> 'm mailbox \<Rightarrow> 'a system_scheme \<Rightarrow> ('m mailbox \<times> 'a system_scheme) option" where
  "complete_claimed_waiters kind None mb s = Some (mb, s)"
| "complete_claimed_waiters kind (Some wait) mb s = do {
     s \<leftarrow> cancel_event (wait_deadline wait) s;
     (r, s) \<leftarrow> complete_wait wait Notified s;
     if r = WokeBlocked \<or> r = CompletedPrepared then Some (mb, s)
     else complete_claimed_waiters kind (fst (claim_waiter kind (mb_control mb)))
       (mb\<lparr>mb_control := snd (claim_waiter kind (mb_control mb))\<rparr>) s
   }"
  by pat_completeness auto

termination
  by (relation "measure (\<lambda>(kind, token, mb, s). length (waiters kind (mb_control mb)) + (if token = None then 0 else 1))")
    (simp_all add: claim_waiter_length)

declare complete_claimed_waiters.simps(2) [simp del]

definition try_send :: "'m \<Rightarrow> 'm mailbox \<Rightarrow> 'a system_scheme \<Rightarrow> (('m send_error + unit) \<times> 'm mailbox \<times> 'a system_scheme) option" where
  "try_send msg mb s = do {
     (r, mb) \<leftarrow> send_locked msg mb;
     case r of
       Inl msg \<Rightarrow> Some (Inl (Full msg), mb, s)
     | Inr waiter \<Rightarrow> do {
         (mb, s) \<leftarrow> complete_claimed_waiters WaitRecv waiter mb s;
         Some (Inr (), mb, s)
       }
   }"

definition try_recv :: "'m mailbox \<Rightarrow> 'a system_scheme \<Rightarrow> ((recv_error + 'm) \<times> 'm mailbox \<times> 'a system_scheme) option" where
  "try_recv mb s = do {
     (r, mb) \<leftarrow> recv_locked mb;
     case r of
       None \<Rightarrow> Some (Inl RecvEmpty, mb, s)
     | Some (msg, waiter) \<Rightarrow> do {
         (mb, s) \<leftarrow> complete_claimed_waiters WaitSend waiter mb s;
         Some (Inr msg, mb, s)
       }
   }"

section \<open>Blocking\<close>

definition assert_preemption_enabled :: "'a machine_scheme \<Rightarrow> unit option" where
  "assert_preemption_enabled m = do {
     c \<leftarrow> current_cpu m;
     assert_preemption_enabled_on c m
   }"

text \<open>A deadline that has passed leaves no registration; only a call with a deadline reads the counter.\<close>

definition deadline_passed :: "u64 option \<Rightarrow> 'a machine_scheme \<Rightarrow> bool \<times> 'a machine_scheme" where
  "deadline_passed timeout_deadline m =
     (case timeout_deadline of
        None \<Rightarrow> (False, m)
      | Some until \<Rightarrow> (let (now, m) = now_counter m in (until \<le> now, m)))"

definition on_mailbox_wait_sync ::
  "trap_frame \<Rightarrow> u64 \<Rightarrow> u64 option \<Rightarrow> wait_output \<Rightarrow> mailbox_control \<Rightarrow> 'a system_scheme \<Rightarrow>
   (wait_output \<times> trap_frame \<times> mailbox_control \<times> 'a system_scheme) option" where
  "on_mailbox_wait_sync live raw_wait_kind timeout_deadline out k s = do {
     kind \<leftarrow> wait_kind_from_raw raw_wait_kind;
     if \<not> should_wait kind k then Some (out, live, k, s)
     else do {
       let (passed, s) = deadline_passed timeout_deadline s;
       if passed then Some (out, live, k, s)
       else do {
         assert_preemption_enabled s;
         (prepared, s) \<leftarrow> prepare_wait s;
         let token = pw_token prepared;
         let out = record_token token out;
         k \<leftarrow> enqueue_waiter kind token k;
         s \<leftarrow> (case timeout_deadline of
                 None \<Rightarrow> Some s
               | Some until \<Rightarrow> schedule_event until (wait_deadline token) s);
         (r, live, s) \<leftarrow> commit_wait live prepared s;
         case r of
           CommitBlocked _ \<Rightarrow> Some (out, live, k, s)
         | CommittedEarly cause \<Rightarrow> Some (record_early cause out, live, k, s)
         | CommittedStale \<Rightarrow> None
       }
     }
   }"

text \<open>After the resume: the completion is consumed and the waiter entry it may have left is removed.\<close>

definition mailbox_wait_resume ::
  "mailbox_wait_kind \<Rightarrow> wait_output \<Rightarrow> mailbox_control \<Rightarrow> 'a system_scheme \<Rightarrow> (wait_cause option \<times> mailbox_control \<times> 'a system_scheme) option" where
  "mailbox_wait_resume kind out k s = do {
     (completion, out, s) \<leftarrow> take_completion out s;
     case completion of
       None \<Rightarrow> Some (None, k, s)
     | Some (token, cause) \<Rightarrow> Some (Some cause, snd (control_remove_waiter kind token k), s)
   }"

text \<open>One round of the send and receive loops: it ends the call or leads to a wait.\<close>

datatype 'r attempt = Finished 'r | MustWait

definition send_attempt :: "'m \<Rightarrow> 'm mailbox \<Rightarrow> 'a system_scheme \<Rightarrow> (unit attempt \<times> 'm mailbox \<times> 'a system_scheme) option" where
  "send_attempt msg mb s = do {
     (r, mb, s) \<leftarrow> try_send msg mb s;
     case r of Inr _ \<Rightarrow> Some (Finished (), mb, s) | Inl (Full _) \<Rightarrow> Some (MustWait, mb, s)
   }"

definition recv_attempt :: "'m mailbox \<Rightarrow> 'a system_scheme \<Rightarrow> ('m attempt \<times> 'm mailbox \<times> 'a system_scheme) option" where
  "recv_attempt mb s = do {
     (r, mb, s) \<leftarrow> try_recv mb s;
     case r of Inr msg \<Rightarrow> Some (Finished msg, mb, s) | Inl _ \<Rightarrow> Some (MustWait, mb, s)
   }"

definition send_until_attempt ::
  "'m \<Rightarrow> u64 \<Rightarrow> 'm mailbox \<Rightarrow> 'a system_scheme \<Rightarrow> (('m send_timeout_error + unit) attempt \<times> 'm mailbox \<times> 'a system_scheme) option" where
  "send_until_attempt msg until mb s = do {
     (r, mb, s) \<leftarrow> try_send msg mb s;
     case r of
       Inr _ \<Rightarrow> Some (Finished (Inr ()), mb, s)
     | Inl (Full msg) \<Rightarrow>
         let (now, s) = now_counter s in
         Some (if until \<le> now then Finished (Inl (SendTimeout msg)) else MustWait, mb, s)
   }"

definition recv_until_attempt ::
  "u64 \<Rightarrow> 'm mailbox \<Rightarrow> 'a system_scheme \<Rightarrow> ((recv_timeout_error + 'm) attempt \<times> 'm mailbox \<times> 'a system_scheme) option" where
  "recv_until_attempt until mb s = do {
     (r, mb, s) \<leftarrow> try_recv mb s;
     case r of
       Inr msg \<Rightarrow> Some (Finished (Inr msg), mb, s)
     | Inl _ \<Rightarrow>
         let (now, s) = now_counter s in
         Some (if until \<le> now then Finished (Inl RecvTimeout) else MustWait, mb, s)
   }"

text \<open>The deadlines of the relative timeouts.\<close>

definition timeout_ticks_deadline :: "u64 \<Rightarrow> 'a machine_scheme \<Rightarrow> u64 \<times> 'a machine_scheme" where
  "timeout_ticks_deadline timeout_ticks m = (let (now, m) = now_counter m in (now + timeout_ticks, m))"

definition timeout_ms_deadline :: "u64 \<Rightarrow> 'a machine_scheme \<Rightarrow> u64 \<times> 'a machine_scheme" where
  "timeout_ms_deadline timeout_ms m = timeout_ticks_deadline (ms_to_counts (counter_freq m) timeout_ms) m"

definition timeout_us_deadline :: "u64 \<Rightarrow> 'a machine_scheme \<Rightarrow> u64 \<times> 'a machine_scheme" where
  "timeout_us_deadline timeout_us m = timeout_ticks_deadline (us_to_counts (counter_freq m) timeout_us) m"

end
