(* ===== verification/Ipc_Fifo.thy ===== *)
theory Ipc_Fifo
  imports Ipc
begin

text \<open>
  The mailbox ring is a bounded FIFO queue: the contract of such a queue is a locale, every run of
  sends and receives of a provider delivers the accepted messages in order, and the locked sections
  of the mailbox provide it.
\<close>

section \<open>Bounded queues\<close>

datatype 'm mailbox_op = OpSend 'm | OpRecv

text \<open>A run of operations with the messages it accepted and delivered.\<close>

fun queue_run ::
  "('m \<Rightarrow> 'q \<Rightarrow> (bool \<times> 'q) option) \<Rightarrow> ('q \<Rightarrow> ('m option \<times> 'q) option) \<Rightarrow> 'm mailbox_op list \<Rightarrow> 'q \<Rightarrow> ('m list \<times> 'm list \<times> 'q) option" where
  "queue_run put get [] q = Some ([], [], q)"
| "queue_run put get (OpSend m # ops) q = do {
     (ok, q) \<leftarrow> put m q;
     (accepted, delivered, q) \<leftarrow> queue_run put get ops q;
     Some (if ok then m # accepted else accepted, delivered, q)
   }"
| "queue_run put get (OpRecv # ops) q = do {
     (r, q) \<leftarrow> get q;
     (accepted, delivered, q) \<leftarrow> queue_run put get ops q;
     Some (accepted, (case r of None \<Rightarrow> delivered | Some m \<Rightarrow> m # delivered), q)
   }"

locale bounded_fifo =
  fixes items :: "'q \<Rightarrow> 'm list" and ok :: "'q \<Rightarrow> bool" and room :: "'q \<Rightarrow> nat"
    and put :: "'m \<Rightarrow> 'q \<Rightarrow> (bool \<times> 'q) option" and get :: "'q \<Rightarrow> ('m option \<times> 'q) option"
  assumes within: "ok q \<Longrightarrow> length (items q) \<le> room q"
    and put_full: "ok q \<Longrightarrow> length (items q) = room q \<Longrightarrow> put m q = Some (False, q)"
    and put_room: "ok q \<Longrightarrow> length (items q) < room q \<Longrightarrow>
      \<exists>q'. put m q = Some (True, q') \<and> ok q' \<and> room q' = room q \<and> items q' = items q @ [m]"
    and get_empty: "ok q \<Longrightarrow> items q = [] \<Longrightarrow> get q = Some (None, q)"
    and get_item: "ok q \<Longrightarrow> items q = m # ms \<Longrightarrow> \<exists>q'. get q = Some (Some m, q') \<and> ok q' \<and> room q' = room q \<and> items q' = ms"
begin

lemma run_in_order:
  assumes "ok q"
  shows "\<exists>accepted delivered q'. queue_run put get ops q = Some (accepted, delivered, q') \<and> ok q' \<and> room q' = room q \<and>
    items q @ accepted = delivered @ items q'"
  using assms
proof (induction ops arbitrary: q)
  case Nil
  then show ?case by simp
next
  case (Cons op ops)
  show ?case
  proof (cases op)
    case (OpSend m)
    show ?thesis
    proof (cases "length (items q) = room q")
      case True
      then show ?thesis using Cons.IH [OF Cons.prems] put_full [OF Cons.prems True, of m] OpSend by auto
    next
      case False
      then obtain q1 where q1: "put m q = Some (True, q1)" "ok q1" "room q1 = room q" "items q1 = items q @ [m]"
        using put_room [OF Cons.prems, of m] within [OF Cons.prems] by force
      then show ?thesis using Cons.IH [OF q1(2)] OpSend by auto
    qed
  next
    case OpRecv
    show ?thesis
    proof (cases "items q")
      case Nil
      then show ?thesis using Cons.IH [OF Cons.prems] get_empty [OF Cons.prems Nil] OpRecv by auto
    next
      case (Cons m ms)
      then obtain q1 where q1: "get q = Some (Some m, q1)" "ok q1" "room q1 = room q" "items q1 = ms"
        using get_item [OF \<open>ok q\<close>] by blast
      then show ?thesis using Cons.IH [OF q1(2)] OpRecv Cons by auto
    qed
  qed
qed

end

section \<open>The mailbox\<close>

definition ring_index :: "mailbox_control \<Rightarrow> nat \<Rightarrow> nat" where
  "ring_index k j = (mb_head k + j) mod mb_capacity k"

definition mailbox_inv :: "'m mailbox \<Rightarrow> bool" where
  "mailbox_inv mb \<longleftrightarrow> (let k = mb_control mb in
     0 < mb_capacity k \<and> length (mb_buffer mb) = mb_capacity k \<and> mb_head k < mb_capacity k \<and> mb_len k \<le> mb_capacity k \<and>
     mb_tail k = ring_index k (mb_len k) \<and> (\<forall>j < mb_len k. mb_buffer mb ! ring_index k j \<noteq> None))"

definition contents :: "'m mailbox \<Rightarrow> 'm list" where
  "contents mb = map (\<lambda>j. the (mb_buffer mb ! ring_index (mb_control mb) j)) [0 ..< mb_len (mb_control mb)]"

definition mailbox_put :: "'m \<Rightarrow> 'm mailbox \<Rightarrow> (bool \<times> 'm mailbox) option" where
  "mailbox_put msg mb = map_option (map_prod (\<lambda>r. r \<noteq> Inl msg) id) (send_locked msg mb)"

definition mailbox_take :: "'m mailbox \<Rightarrow> ('m option \<times> 'm mailbox) option" where
  "mailbox_take mb = map_option (map_prod (map_option fst) id) (recv_locked mb)"

lemma ring_index_inj:
  assumes "ring_index k i = ring_index k j" "i < mb_capacity k" "j < mb_capacity k"
  shows "i = j"
  using assms unfolding ring_index_def
proof (induction i j rule: linorder_wlog)
  case (le i j)
  then have "mb_capacity k dvd (mb_head k + j) - (mb_head k + i)" by (metis mod_eq_dvd_iff_nat add_le_cancel_left)
  then show ?case using le by (auto dest: dvd_imp_le)
qed simp

lemma ring_index_update [simp]:
  "ring_index (k\<lparr>mb_tail := t\<rparr>) j = ring_index k j" "ring_index (k\<lparr>mb_len := n\<rparr>) j = ring_index k j"
  "ring_index (k\<lparr>mb_head := Suc (mb_head k) mod mb_capacity k\<rparr>) j = ring_index k (Suc j)"
  by (simp_all add: ring_index_def mod_simps)

lemma ring_index_less: "0 < mb_capacity k \<Longrightarrow> ring_index k j < mb_capacity k"
  by (simp add: ring_index_def)

lemma set_waiters_ring [simp]:
  "mb_capacity (set_waiters kind q k) = mb_capacity k" "mb_head (set_waiters kind q k) = mb_head k"
  "mb_tail (set_waiters kind q k) = mb_tail k" "mb_len (set_waiters kind q k) = mb_len k"
  "waiter_room (set_waiters kind q k) = waiter_room k" "ring_index (set_waiters kind q k) j = ring_index k j"
  by (cases kind; simp add: ring_index_def)+

lemma claim_waiter_ring [simp]:
  "mb_capacity (snd (claim_waiter kind k)) = mb_capacity k" "mb_head (snd (claim_waiter kind k)) = mb_head k"
  "mb_tail (snd (claim_waiter kind k)) = mb_tail k" "mb_len (snd (claim_waiter kind k)) = mb_len k"
  "waiter_room (snd (claim_waiter kind k)) = waiter_room k" "ring_index (snd (claim_waiter kind k)) j = ring_index k j"
  by (simp_all add: claim_waiter_def split: list.split)

lemma mailbox_invD:
  assumes "mailbox_inv mb"
  shows "0 < mb_capacity (mb_control mb)" "length (mb_buffer mb) = mb_capacity (mb_control mb)"
    "mb_head (mb_control mb) < mb_capacity (mb_control mb)" "mb_len (mb_control mb) \<le> mb_capacity (mb_control mb)"
    "mb_tail (mb_control mb) = ring_index (mb_control mb) (mb_len (mb_control mb))"
    "\<And>j. j < mb_len (mb_control mb) \<Longrightarrow> mb_buffer mb ! ring_index (mb_control mb) j \<noteq> None"
  using assms by (simp_all add: mailbox_inv_def Let_def)

text \<open>What a mailbox holds depends on its ring only.\<close>

lemma mailbox_same_ring:
  assumes "mb_buffer mb' = mb_buffer mb" "mb_capacity (mb_control mb') = mb_capacity (mb_control mb)"
    "mb_head (mb_control mb') = mb_head (mb_control mb)" "mb_tail (mb_control mb') = mb_tail (mb_control mb)"
    "mb_len (mb_control mb') = mb_len (mb_control mb)"
  shows "mailbox_inv mb' = mailbox_inv mb" "contents mb' = contents mb"
  using assms by (simp_all add: mailbox_inv_def contents_def ring_index_def Let_def)

lemma length_contents [simp]: "length (contents mb) = mb_len (mb_control mb)"
  by (simp add: contents_def)

lemma send_locked_full:
  "mb_len (mb_control mb) = mb_capacity (mb_control mb) \<Longrightarrow> send_locked msg mb = Some (Inl msg, mb)"
  by (simp add: send_locked_def control_is_full_def Let_def)

lemma send_locked_room:
  assumes inv: "mailbox_inv mb" and room: "mb_len (mb_control mb) < mb_capacity (mb_control mb)"
  shows "\<exists>mb'. send_locked msg mb = Some (Inr (fst (claim_waiter WaitRecv (mb_control mb))), mb') \<and> mailbox_inv mb' \<and>
    contents mb' = contents mb @ [msg] \<and> mb_capacity (mb_control mb') = mb_capacity (mb_control mb) \<and>
    recv_waiters (mb_control mb') = tl (recv_waiters (mb_control mb)) \<and> send_waiters (mb_control mb') = send_waiters (mb_control mb)"
proof -
  let ?k = "mb_control mb" and ?b = "(mb_buffer mb)[mb_tail (mb_control mb) := Some msg]"
  let ?k1 = "?k\<lparr>mb_tail := (mb_tail ?k + 1) mod mb_capacity ?k, mb_len := mb_len ?k + 1\<rparr>"
  let ?mb = "mb\<lparr>mb_control := snd (claim_waiter WaitRecv ?k1), mb_buffer := ?b\<rparr>"
  note d = mailbox_invD [OF inv]
  have less: "ring_index ?k j < length (mb_buffer mb)" for j using d(1,2) ring_index_less [of ?k] by simp
  have at: "?b ! ring_index ?k j = (if j = mb_len ?k then Some msg else mb_buffer mb ! ring_index ?k j)" if "j \<le> mb_len ?k" for j
    using that room less [of j] ring_index_inj [of ?k "mb_len ?k" j] by (cases "j = mb_len ?k") (auto simp: d(5) intro!: nth_list_update_neq)
  have "mailbox_inv ?mb"
    using d(1-4) room at d(6) by (simp add: mailbox_inv_def Let_def d(5) less_Suc_eq_le) (simp add: ring_index_def mod_Suc_eq)
  moreover have "contents ?mb = contents mb @ [msg]"
    using at by (simp add: contents_def)
  moreover have "send_locked msg mb = Some (Inr (fst (claim_waiter WaitRecv ?k)), ?mb)"
    using room less [of "mb_len ?k"] by (simp add: send_locked_def control_is_full_def Let_def d(5) claim_waiter_def split: list.split)
  ultimately show ?thesis by (intro exI [of _ ?mb]) (simp add: claim_waiter_def split: list.split)
qed

lemma recv_locked_empty:
  "mb_len (mb_control mb) = 0 \<Longrightarrow> recv_locked mb = Some (None, mb)"
  by (simp add: recv_locked_def control_is_empty_def Let_def)

lemma recv_locked_item:
  assumes inv: "mailbox_inv mb" and item: "contents mb = m # ms"
  shows "\<exists>mb'. recv_locked mb = Some (Some (m, fst (claim_waiter WaitSend (mb_control mb))), mb') \<and> mailbox_inv mb' \<and>
    contents mb' = ms \<and> mb_capacity (mb_control mb') = mb_capacity (mb_control mb) \<and>
    send_waiters (mb_control mb') = tl (send_waiters (mb_control mb)) \<and> recv_waiters (mb_control mb') = recv_waiters (mb_control mb)"
proof -
  let ?k = "mb_control mb" and ?b = "(mb_buffer mb)[mb_head (mb_control mb) := None]"
  let ?k1 = "?k\<lparr>mb_head := (mb_head ?k + 1) mod mb_capacity ?k, mb_len := mb_len ?k - 1\<rparr>"
  let ?mb = "mb\<lparr>mb_control := snd (claim_waiter WaitSend ?k1), mb_buffer := ?b\<rparr>"
  note d = mailbox_invD [OF inv]
  obtain n where n: "mb_len ?k = Suc n" using item length_contents [of mb] by (cases "mb_len ?k") simp_all
  have h: "mb_head ?k = ring_index ?k 0" using d(3) by (simp add: ring_index_def)
  have ms: "mb_buffer mb ! mb_head ?k = Some m" "ms = map (\<lambda>j. the (mb_buffer mb ! ring_index ?k (Suc j))) [0 ..< n]"
    using item d(6) [of 0] n h by (auto simp: contents_def map_Suc_upt [symmetric] upt_conv_Cons simp del: upt_Suc)
  have at: "?b ! ring_index ?k (Suc j) = mb_buffer mb ! ring_index ?k (Suc j)" if "j < n" for j
    using that n d(4) ring_index_inj [of ?k 0 "Suc j"] h by (auto intro!: nth_list_update_neq)
  have "mailbox_inv ?mb"
    using d n at by (simp add: mailbox_inv_def Let_def)
  moreover have "contents ?mb = ms" using at n by (simp add: contents_def ms(2))
  moreover have "recv_locked mb = Some (Some (m, fst (claim_waiter WaitSend ?k)), ?mb)"
    using n ms(1) d(2,3) by (simp add: recv_locked_def control_is_empty_def Let_def claim_waiter_def idx_Some split: list.split)
  ultimately show ?thesis by (intro exI [of _ ?mb]) (simp add: claim_waiter_def split: list.split)
qed

interpretation ring: bounded_fifo contents mailbox_inv "\<lambda>mb. mb_capacity (mb_control mb)" mailbox_put mailbox_take
proof (unfold_locales, goal_cases)
  case (1 mb)
  then show ?case using mailbox_invD(4) by simp
next
  case (2 mb msg)
  then show ?case by (simp add: mailbox_put_def send_locked_full)
next
  case (3 mb msg)
  then show ?case using send_locked_room [OF 3(1), of msg] by (auto simp: mailbox_put_def)
next
  case (4 mb)
  then show ?case using length_contents [of mb] by (simp add: mailbox_take_def recv_locked_empty)
next
  case (5 mb m ms)
  then show ?case using recv_locked_item [OF 5] by (auto simp: mailbox_take_def)
qed

lemma mailbox_new:
  assumes "mailbox_with_capacity capacity w = Some mb"
  shows "mailbox_inv mb" "contents mb = []" "mb_capacity (mb_control mb) = capacity"
  using assms by (auto split: if_splits simp: mailbox_with_capacity_def control_with_capacity_def mailbox_inv_def contents_def ring_index_def)

text \<open>
  C23. A mailbox of any positive capacity is a bounded FIFO: no sequence of sends and receives
  panics, at every point the messages accepted so far are those delivered, in the same order,
  followed by those still held, of which there are never more than the capacity.
\<close>

theorem mailbox_delivers_in_order:
  assumes "mailbox_with_capacity capacity waiter_capacity = Some mb"
  shows "\<exists>accepted delivered mb'. queue_run mailbox_put mailbox_take ops mb = Some (accepted, delivered, mb') \<and>
    accepted = delivered @ contents mb' \<and> length (contents mb') \<le> capacity"
  using ring.run_in_order [OF mailbox_new(1) [OF assms], of ops] ring.within mailbox_new(2,3) [OF assms] by fastforce

theorem mailbox_delivers_in_order_witness:
  "\<exists>mb accepted delivered mb'. mailbox_with_capacity 2 0 = Some mb \<and>
     queue_run mailbox_put mailbox_take [OpSend (1::nat), OpSend 2, OpSend 3, OpRecv, OpSend 4] mb = Some (accepted, delivered, mb') \<and>
     accepted = delivered @ contents mb'"
proof -
  obtain mb :: "nat mailbox" where mb: "mailbox_with_capacity 2 0 = Some mb" by (simp add: mailbox_with_capacity_def)
  then show ?thesis using mailbox_delivers_in_order [OF mb] by blast
qed

end
