(* ===== verification/Ipc_Wake.thy ===== *)
theory Ipc_Wake
  imports Ipc_Fifo Sched_Props
begin

text \<open>
  The mailbox over the scheduler: a send or receive completes the first registered waiter that is
  still waiting, and a registration cannot miss the message that arrives after it.
\<close>

section \<open>Waits that are open\<close>

text \<open>The thread of the token has not been woken from the wait the token names.\<close>

definition awaits :: "scheduler \<Rightarrow> wait_token \<Rightarrow> bool" where
  "awaits S tok \<longleftrightarrow>
     (case lookup S (wt_thread tok) of
        None \<Rightarrow> False
      | Some a \<Rightarrow> (case active (wait_md a) of
            None \<Rightarrow> False
          | Some a0 \<Rightarrow> aw_token a0 = tok \<and> (aw_phase a0 = Prepared \<or> aw_phase a0 = PhaseBlocked)))"

text \<open>The tokens a mailbox may hold: of a registered processor, and no join registration.\<close>

definition waiters_ok :: "wait_token list \<Rightarrow> 'a system_scheme \<Rightarrow> bool" where
  "waiters_ok q s \<longleftrightarrow> list_all (\<lambda>tok. wt_cpu tok < cpus_registered s \<and> \<not> joiner_token (sched s) tok) q"

lemma awaitsE:
  assumes "awaits S tok"
  obtains (prepared) a a0 where "lookup S (wt_thread tok) = Some a" "active (wait_md a) = Some a0" "aw_token a0 = tok" "aw_phase a0 = Prepared"
  | (blocked) a a0 where "lookup S (wt_thread tok) = Some a" "active (wait_md a) = Some a0" "aw_token a0 = tok" "aw_phase a0 = PhaseBlocked"
  using assms by (auto simp: awaits_def split: option.splits)

lemma complete_wait_closed:
  assumes "\<not> awaits (sched s) tok" "sched_published s"
  shows "\<exists>r. complete_wait tok cause s = Some (r, s) \<and> (r = AlreadyCompleted \<or> r = CompletionStale)"
proof (cases "lookup (sched s) (wt_thread tok)")
  case None
  then show ?thesis
    using assms(2) by (simp add: complete_wait_def transition_complete_wait_def complete_wait_transition_def thread_matches_lookup)
next
  case (Some a)
  have "\<exists>r. wait_complete tok cause (wait_md a) = (r, wait_md a) \<and> (r = AlreadyCompleted \<or> r = CompletionStale)"
    using assms(1) Some by (auto simp: awaits_def wait_complete_def split: option.splits wait_phase.splits)
  then show ?thesis
    using assms(2) Some lookup_thread_at [OF Some] update_thread_lookup [OF Some] set_wait_same [OF Some]
    by (auto simp: complete_wait_def transition_complete_wait_def complete_wait_transition_def thread_matches_lookup)
qed

lemma complete_wait_open:
  assumes inv: "sys_inv_at {} Map.empty {} s" and cpu: "current_cpu s = Some c" and nj: "\<not> joiner_token (sched s) tok"
    and aw: "awaits (sched s) tok"
  shows "\<exists>r s' b. complete_wait tok cause s = Some (r, s') \<and> (r = WokeBlocked \<or> r = CompletedPrepared) \<and>
    sys_inv_at {} Map.empty {} s' \<and> background c s s' \<and> \<not> awaits (sched s') tok \<and>
    lookup (sched s') (wt_thread tok) = Some b \<and> tstate b \<noteq> Blocked"
proof -
  note d = sys_inv_atD [OF inv]
  obtain r s' where s': "complete_wait tok cause s = Some (r, s')" "sys_inv_at {} Map.empty {} s'" "background c s s'"
    using complete_call_ok [OF inv cpu nj, of cause] by blast
  then have tr: "complete_wait_transition tok cause True s = Some (r, s')"
    using d(8) by (simp add: complete_wait_def transition_complete_wait_def)
  from aw have "(r = WokeBlocked \<or> r = CompletedPrepared) \<and>
     (\<exists>b. lookup (sched s') (wt_thread tok) = Some b \<and> tstate b \<noteq> Blocked \<and> \<not> awaits (sched s') tok)"
  proof (cases rule: awaitsE)
    case (prepared a a0)
    then have "r = CompletedPrepared"
      "sched s' = set_wait (wt_thread tok) ((wait_md a)\<lparr>active := Some (a0\<lparr>aw_phase := Completed cause\<rparr>)\<rparr>) (sched s)" "tstate a = Running"
      using tr sched_inv_atD(3) [OF d(1) prepared(1)] lookup_thread_at [OF prepared(1)] update_thread_lookup [OF prepared(1)]
      by (auto simp: complete_wait_transition_def thread_matches_lookup wait_complete_def thread_ok_def phase_ok_def split: if_splits)
    then show ?thesis using prepared by (simp add: lookup_upd_thread awaits_def)
  next
    case (blocked a a0)
    let ?w = "completed_wait cause (wait_md a)"
    have e: "r = WokeBlocked" "sched s' = wake_at c (wt_thread tok) (home_cpu a) (set_wait (wt_thread tok) ?w (sched s))"
      using complete_woken [OF d(1) sys_inv_ready [OF inv cpu] sys_inv_room(3) [OF inv current_cpu_less [OF cpu]] blocked nj, of cause True] tr
      by auto
    have "lookup (sched s') (wt_thread tok) = Some (a\<lparr>wait_md := ?w, tstate := Ready\<rparr>)"
      using set_wait_trans(1) [OF blocked(1), of ?w c "home_cpu a"] e(2) by simp
    then show ?thesis
      using e(1) blocked by (auto simp: awaits_def completed_wait_def split: wait_consumption.splits)
  qed
  then show ?thesis using s' by blast
qed

section \<open>Completing claimed waiters\<close>

text \<open>What a completion pass over the queue \<open>q\<close> does: it stops at the first token that is awaited.\<close>

definition woken_from :: "wait_token list \<Rightarrow> scheduler \<Rightarrow> scheduler \<Rightarrow> wait_token list \<Rightarrow> bool" where
  "woken_from q S S' rest \<longleftrightarrow>
     (case dropWhile (\<lambda>tok. \<not> awaits S tok) q of
        [] \<Rightarrow> S' = S \<and> rest = []
      | tok # q' \<Rightarrow> rest = q' \<and> \<not> awaits S' tok \<and> (\<exists>b. lookup S' (wt_thread tok) = Some b \<and> tstate b \<noteq> Blocked))"

lemma waiters_ok_neutral: "neutral s s' \<Longrightarrow> waiters_ok q s' = waiters_ok q s"
  by (simp add: waiters_ok_def neutral_def same_machine_def)

lemma claim_waiter_simps:
  "waiters kind k = [] \<Longrightarrow> claim_waiter kind k = (None, k)"
  "waiters kind k = tok # q \<Longrightarrow> claim_waiter kind k = (Some tok, set_waiters kind q k)"
  by (simp_all add: claim_waiter_def)

lemma set_waiters_idem [simp]:
  "set_waiters kind (waiters kind k) k = k" "set_waiters kind q (set_waiters kind q' k) = set_waiters kind q k"
  by (cases kind; simp)+

text \<open>One claimed waiter: the wakeup is used up exactly when the token is awaited.\<close>

lemma claimed_once:
  assumes reach: "sys_reach s" and cpu: "current_cpu s = Some c" and tok: "waiters_ok [tok] s"
  shows "\<exists>s1 r s2. cancel_event (wait_deadline tok) s = Some s1 \<and> complete_wait tok Notified s1 = Some (r, s2) \<and>
    sys_reach s2 \<and> kept s s2 \<and>
    (if awaits (sched s) tok then (r = WokeBlocked \<or> r = CompletedPrepared) \<and> \<not> awaits (sched s2) tok \<and>
       (\<exists>b. lookup (sched s2) (wt_thread tok) = Some b \<and> tstate b \<noteq> Blocked)
     else (r = AlreadyCompleted \<or> r = CompletionStale) \<and> neutral s s2)"
proof -
  have tk: "wt_cpu tok < cpus_registered s" "\<not> joiner_token (sched s) tok" using tok by (simp_all add: waiters_ok_def)
  obtain s1 where s1: "cancel_event (wait_deadline tok) s = Some s1" "sys_inv_at {} Map.empty {} s1" "neutral s s1"
    "dispatching s1 = dispatching s"
    using sys_cancel_deadline [OF reach_at [OF reach] cpu tk(1)] by blast
  note n = neutralD [OF s1(3)] and k = kept_neutral [OF s1(3,4)]
  have c1: "current_cpu s1 = Some c" "\<not> joiner_token (sched s1) tok" using cpu tk(2) n by simp_all
  have r1: "sys_reach s1"
    using sys_reach.call [OF reach, of "CancelDeadline tok"] s1(1) cpu tk(1) by simp
  have r2: "sys_reach s2" if "complete_wait tok Notified s1 = Some (r, s2)" for r s2
    using sys_reach.call [OF r1, of "CompleteWait tok Notified"] that c1 by simp
  show ?thesis
  proof (cases "awaits (sched s) tok")
    case True
    then have "awaits (sched s1) tok" using n by simp
    from complete_wait_open [OF s1(2) c1 this, of Notified] True s1(1) kept_trans [OF k kept_background] r2 show ?thesis by fastforce
  next
    case False
    then have "\<not> awaits (sched s1) tok" using n by simp
    from complete_wait_closed [OF this sys_inv_atD(8) [OF s1(2)], of Notified] False s1 k r1 show ?thesis by auto
  qed
qed

lemma complete_claimed_ok:
  assumes "sys_reach s" "current_cpu s = Some c" "waiters_ok (tok # waiters kind (mb_control mb)) s"
  shows "\<exists>q s'. complete_claimed_waiters kind (Some tok) mb s = Some (mb\<lparr>mb_control := set_waiters kind q (mb_control mb)\<rparr>, s') \<and>
    sys_reach s' \<and> kept s s' \<and> woken_from (tok # waiters kind (mb_control mb)) (sched s) (sched s') q"
  using assms
proof (induction "waiters kind (mb_control mb)" arbitrary: tok mb s)
  case (Nil mb tok s)
  obtain s1 r s2 where s1: "cancel_event (wait_deadline tok) s = Some s1" "complete_wait tok Notified s1 = Some (r, s2)"
    "sys_reach s2" "kept s s2"
    "if awaits (sched s) tok then (r = WokeBlocked \<or> r = CompletedPrepared) \<and> \<not> awaits (sched s2) tok \<and>
       (\<exists>b. lookup (sched s2) (wt_thread tok) = Some b \<and> tstate b \<noteq> Blocked)
     else (r = AlreadyCompleted \<or> r = CompletionStale) \<and> neutral s s2"
    using claimed_once [OF Nil.prems(1,2), of tok] Nil.prems(3) by (auto simp: waiters_ok_def)
  have "set_waiters kind [] (mb_control mb) = mb_control mb" using set_waiters_idem(1) [of kind "mb_control mb"] Nil.hyps by simp
  then show ?case
    using s1 Nil.hyps [symmetric] neutralD(2) [of s s2]
    by (intro exI [of _ "[]"] exI [of _ s2]) (auto simp: woken_from_def claim_waiter_simps complete_claimed_waiters.simps split: if_splits)
next
  case (Cons t2 q mb tok s)
  obtain s1 r s2 where s1: "cancel_event (wait_deadline tok) s = Some s1" "complete_wait tok Notified s1 = Some (r, s2)"
    "sys_reach s2" "kept s s2"
    "if awaits (sched s) tok then (r = WokeBlocked \<or> r = CompletedPrepared) \<and> \<not> awaits (sched s2) tok \<and>
       (\<exists>b. lookup (sched s2) (wt_thread tok) = Some b \<and> tstate b \<noteq> Blocked)
     else (r = AlreadyCompleted \<or> r = CompletionStale) \<and> neutral s s2"
    using claimed_once [OF Cons.prems(1,2), of tok] Cons.prems(3) by (auto simp: waiters_ok_def)
  note w = Cons.hyps(2) [symmetric]
  show ?case
  proof (cases "awaits (sched s) tok")
    case True
    then show ?thesis using s1 set_waiters_idem(1) [of kind "mb_control mb"]
      by (intro exI [of _ "waiters kind (mb_control mb)"] exI [of _ s2]) (auto simp: woken_from_def complete_claimed_waiters.simps)
  next
    case False
    let ?mb = "mb\<lparr>mb_control := set_waiters kind q (mb_control mb)\<rparr>"
    have n: "neutral s s2" "r = AlreadyCompleted \<or> r = CompletionStale" using s1(5) False by simp_all
    have "waiters_ok (t2 # waiters kind (mb_control ?mb)) s2"
      using Cons.prems(3) w waiters_ok_neutral [OF n(1)] by (simp add: waiters_ok_def)
    then obtain q' s' where s': "complete_claimed_waiters kind (Some t2) ?mb s2 = Some (mb\<lparr>mb_control := set_waiters kind q' (mb_control mb)\<rparr>, s')"
      "sys_reach s'" "kept s2 s'" "woken_from (t2 # q) (sched s2) (sched s') q'"
      using Cons.hyps(1) [of ?mb s2 t2] s1(3) Cons.prems(2) neutralD(5) [OF n(1)] by auto
    then show ?thesis using s1 n(2) False w neutralD(2) [OF n(1)] kept_trans [OF s1(4) s'(3)]
      by (intro exI [of _ q'] exI [of _ s']) (auto simp: woken_from_def claim_waiter_simps complete_claimed_waiters.simps)
  qed
qed

text \<open>The pass after a locked section that claimed the head of the queue \<open>q\<close>.\<close>

lemma complete_claimed_pass:
  assumes "sys_reach s" "current_cpu s = Some c" "waiters_ok (waiters kind k) s" "waiters kind (mb_control mb) = tl (waiters kind k)"
  shows "\<exists>q s'. complete_claimed_waiters kind (fst (claim_waiter kind k)) mb s = Some (mb\<lparr>mb_control := set_waiters kind q (mb_control mb)\<rparr>, s') \<and>
    sys_reach s' \<and> woken_from (waiters kind k) (sched s) (sched s') q"
proof (cases "waiters kind k")
  case Nil
  then show ?thesis using assms(1,4) set_waiters_idem(1) [of kind "mb_control mb"]
    by (intro exI [of _ "[]"] exI [of _ s]) (simp add: claim_waiter_simps woken_from_def)
next
  case (Cons tok q)
  then show ?thesis using complete_claimed_ok [OF assms(1,2), of tok kind mb] assms(3,4) by (auto simp: claim_waiter_simps)
qed

section \<open>Registering a wait\<close>

lemma deadline_passed_reach:
  assumes "sys_reach s"
  shows "sys_reach (snd (deadline_passed d s))" "neutral s (snd (deadline_passed d s))"
    "dispatching (snd (deadline_passed d s)) = dispatching s" "events (snd (deadline_passed d s)) = events s"
proof -
  note r = sys_reach.call [OF assms, of ReadCounter, simplified] and c = sys_read_counter [OF reach_at [OF assms]]
  show "sys_reach (snd (deadline_passed d s))" "neutral s (snd (deadline_passed d s))"
    "dispatching (snd (deadline_passed d s)) = dispatching s"
    using assms r c neutral_refl by (simp_all add: deadline_passed_def case_prod_beta split: option.split)
  show "events (snd (deadline_passed d s)) = events s"
    by (simp add: deadline_passed_def now_counter_def split: option.split)
qed

text \<open>
  The wait is published before the commit: the token is at the end of the queue and awaited, with
  its deadline, if any, pending.
\<close>

lemma mailbox_wait_registers:
  fixes s :: "'a system_scheme"
  assumes reach: "sys_reach s" and x: "calling c x a s" and en: "assert_preemption_enabled_on c s = Some ()"
    and left: "sequence_left (wait_md a)" and fresh: "d = None \<or> no_deadline c x s"
    and kind: "wait_kind_from_raw raw = Some kind" "should_wait kind k" "\<not> fst (deadline_passed d s)"
    and room: "length (waiters kind k) \<noteq> waiter_room k" "WaitToken x c (next_sequence (wait_md a) + 1) \<notin> set (waiters kind k)"
  defines "tok \<equiv> WaitToken x c (next_sequence (wait_md a) + 1)"
  shows "\<exists>out' live' s'. on_mailbox_wait_sync live raw d out k s = Some (out', live', set_waiters kind (waiters kind k @ [tok]) k, s') \<and>
    out_token out' = Some tok \<and> sys_reach s' \<and> kept s s' \<and> awaits (sched s') tok \<and> \<not> joiner_token (sched s') tok"
proof -
  obtain s0 where s0: "deadline_passed d s = (False, s0)" using kind(3) by (cases "deadline_passed d s") simp
  let ?s1 = "s0\<lparr>sched := set_wait x (prepared_md x c Explicit (wait_md a)) (sched s0)\<rparr>"
  let ?a1 = "a\<lparr>wait_md := prepared_md x c Explicit (wait_md a)\<rparr>"
  let ?a0 = "\<lparr>aw_token = tok, aw_phase = Prepared, aw_consumption = Explicit\<rparr>"
  note r0 = deadline_passed_reach [OF reach, of d, unfolded s0 snd_conv] and m = callingD [OF x]
  note inv0 = reach_at [OF r0(1)] and n0 = neutralD [OF r0(2)]
  have x0: "calling c x a s0" using x n0 by (simp add: calling_def)
  have en0: "assert_preemption_enabled_on c s0 = Some ()" using en same_machine_enabled [OF n0(1)] by simp
  note p = sys_prepare [OF inv0 x0 en0 left, folded tok_def]
  have prep: "prepare_wait s0 = Some (PreparedWait tok Explicit, ?s1)"
    using p(1) callingD(1) [OF x0] sys_inv_atD(8) [OF inv0] by (simp add: prepare_wait_def)
  have r1: "sys_reach ?s1"
    using sys_reach.call [OF r0(1), of PrepareWait] prep x0 en0 left by (auto simp: may_block_def)
  have cpu1: "current_cpu ?s1 = Some c" using callingD(1) [OF x0] by simp
  have tok: "wt_cpu tok = c" "wt_thread tok = x" by (simp_all add: tok_def)
  have pm: "permitted (ScheduleDeadline u tok) ?s1" if "d = Some u" for u
    using cpu1 fresh that r0(4) lookup_index_less [OF callingD(5) [OF x0]] p(5,6) [of Explicit] by (simp add: tok no_deadline_def)
  obtain s2 where s2: "(case d of None \<Rightarrow> Some ?s1 | Some u \<Rightarrow> schedule_event u (wait_deadline tok) ?s1) = Some s2" "neutral ?s1 s2"
    "dispatching s2 = dispatching ?s1" "sys_reach s2"
  proof (cases d)
    case None
    then show thesis using that neutral_refl r1 by simp
  next
    case (Some u)
    obtain s2 where "schedule_event u (wait_deadline tok) ?s1 = Some s2" "neutral ?s1 s2" "dispatching s2 = dispatching ?s1"
      using sys_schedule_deadline [OF reach_at [OF r1] cpu1, of tok u] pm [OF Some] tok by auto
    then show thesis using that Some sys_reach.call [OF r1 pm [OF Some]] by auto
  qed
  have com: "committing c x ?a1 (PreparedWait tok Explicit) ?a0 s2" by (rule committing_neutral [OF p(4) s2(2)])
  obtain r live' s3 where s3: "commit_prepared_wait c live (PreparedWait tok Explicit) s2 = Some (r, live', s3)" "kept s2 s3"
    "\<exists>w. r = CommitBlocked w" "left_waiting x ?a1 s2 s3"
    using commit_prepared_wait_ok [OF reach_at [OF s2(4)] _ com, of live] by auto
  have com3: "commit_wait live (PreparedWait tok Explicit) s2 = Some (r, live', s3)"
    using s3(1) committingD(1) [OF com] sys_inv_atD(8) [OF reach_at [OF s2(4)]] by (simp add: commit_wait_def)
  have r3: "sys_reach s3"
    using sys_reach.call [OF s2(4), of "CommitWait (PreparedWait tok Explicit)" live] com com3 by fastforce
  have "awaits (sched s3) tok"
    using s3(4) by (auto simp: left_waiting_def awaits_def tok blocked_wait_def prepared_md_def tok_def)
  moreover have "\<not> joiner_token (sched s3) tok"
    using s3(4) p(6) [of Explicit] neutralD(2) [OF s2(2)] by (simp add: left_waiting_def)
  moreover have "kept s s3"
    by (rule kept_trans [OF kept_neutral [OF r0(2,3)] kept_trans [OF kept_sched kept_trans [OF kept_neutral [OF s2(2,3)] s3(2)]]])
  moreover have "on_mailbox_wait_sync live raw d out k s =
      Some (record_token tok out, live', set_waiters kind (waiters kind k @ [tok]) k, s3)"
  proof -
    have "enqueue_waiter kind tok k = Some (set_waiters kind (waiters kind k @ [tok]) k)"
      using room by (simp add: enqueue_waiter_def tok_def)
    moreover have "assert_preemption_enabled s0 = Some ()"
      using en0 callingD(1) [OF x0] by (simp add: assert_preemption_enabled_def)
    ultimately show ?thesis
      using kind(1,2) prep s0 s2(1) com3 s3(3) by (auto simp: on_mailbox_wait_sync_def)
  qed
  ultimately show ?thesis using r3 by (simp add: record_token_def)
qed

section \<open>Properties\<close>

lemma raw_kinds:
  "wait_kind_from_raw MAILBOX_WAIT_SEND = Some WaitSend" "wait_kind_from_raw MAILBOX_WAIT_RECV = Some WaitRecv"
  by (simp_all add: wait_kind_from_raw_def MAILBOX_WAIT_SEND_def MAILBOX_WAIT_RECV_def)

lemma try_send_wakes:
  assumes reach: "sys_reach s" and cpu: "current_cpu s = Some c" and mb: "mailbox_inv mb" "\<not> mailbox_is_full mb"
    and w: "waiters_ok (recv_waiters (mb_control mb)) s"
  shows "\<exists>mb' s'. try_send msg mb s = Some (Inr (), mb', s') \<and> mailbox_inv mb' \<and> contents mb' = contents mb @ [msg] \<and> sys_reach s' \<and>
    woken_from (recv_waiters (mb_control mb)) (sched s) (sched s') (recv_waiters (mb_control mb'))"
proof -
  obtain mb1 where mb1: "send_locked msg mb = Some (Inr (fst (claim_waiter WaitRecv (mb_control mb))), mb1)" "mailbox_inv mb1"
    "contents mb1 = contents mb @ [msg]" "recv_waiters (mb_control mb1) = tl (recv_waiters (mb_control mb))"
    using send_locked_room [OF mb(1), of msg] mailbox_invD(4) [OF mb(1)] mb(2) by (auto simp: mailbox_is_full_def)
  obtain q s' where s': "complete_claimed_waiters WaitRecv (fst (claim_waiter WaitRecv (mb_control mb))) mb1 s =
      Some (mb1\<lparr>mb_control := set_waiters WaitRecv q (mb_control mb1)\<rparr>, s')" "sys_reach s'"
    "woken_from (recv_waiters (mb_control mb)) (sched s) (sched s') q"
    using complete_claimed_pass [OF reach cpu, of WaitRecv "mb_control mb" mb1] w mb1(4) by auto
  let ?mb = "mb1\<lparr>mb_control := set_waiters WaitRecv q (mb_control mb1)\<rparr>"
  have "mailbox_inv ?mb" "contents ?mb = contents mb1" using mb1(2) mailbox_same_ring [of ?mb mb1] by simp_all
  then show ?thesis using mb1(1,3) s' by (simp add: try_send_def)
qed

lemma try_recv_wakes:
  assumes reach: "sys_reach s" and cpu: "current_cpu s = Some c" and mb: "mailbox_inv mb" "contents mb = msg # ms"
    and w: "waiters_ok (send_waiters (mb_control mb)) s"
  shows "\<exists>mb' s'. try_recv mb s = Some (Inr msg, mb', s') \<and> mailbox_inv mb' \<and> contents mb' = ms \<and> sys_reach s' \<and>
    woken_from (send_waiters (mb_control mb)) (sched s) (sched s') (send_waiters (mb_control mb'))"
proof -
  obtain mb1 where mb1: "recv_locked mb = Some (Some (msg, fst (claim_waiter WaitSend (mb_control mb))), mb1)" "mailbox_inv mb1"
    "contents mb1 = ms" "send_waiters (mb_control mb1) = tl (send_waiters (mb_control mb))"
    using recv_locked_item [OF mb] by auto
  obtain q s' where s': "complete_claimed_waiters WaitSend (fst (claim_waiter WaitSend (mb_control mb))) mb1 s =
      Some (mb1\<lparr>mb_control := set_waiters WaitSend q (mb_control mb1)\<rparr>, s')" "sys_reach s'"
    "woken_from (send_waiters (mb_control mb)) (sched s) (sched s') q"
    using complete_claimed_pass [OF reach cpu, of WaitSend "mb_control mb" mb1] w mb1(4) by auto
  let ?mb = "mb1\<lparr>mb_control := set_waiters WaitSend q (mb_control mb1)\<rparr>"
  have "mailbox_inv ?mb" "contents ?mb = contents mb1" using mb1(2) mailbox_same_ring [of ?mb mb1] by simp_all
  then show ?thesis using mb1(1,3) s' by (simp add: try_recv_def)
qed


text \<open>
  C21. A thread cannot miss the message it waits for. In every reachable state, a send into a
  mailbox that is not full stores the message at the end and passes the wakeup to the first
  registered receiver that is still waiting, skipping those that timed out or are gone; that
  receiver is no longer blocked afterwards, and the state stays reachable. A receive from a
  mailbox that is not empty does the same for the registered senders.
\<close>

theorem mailbox_wakeup_reaches_waiter:
  assumes "sys_reach s" "current_cpu s = Some c" "mailbox_inv mb"
  shows "(\<not> mailbox_is_full mb \<longrightarrow> waiters_ok (recv_waiters (mb_control mb)) s \<longrightarrow>
      (\<exists>mb' s'. try_send msg mb s = Some (Inr (), mb', s') \<and> contents mb' = contents mb @ [msg] \<and> sys_reach s' \<and>
        woken_from (recv_waiters (mb_control mb)) (sched s) (sched s') (recv_waiters (mb_control mb')))) \<and>
    (contents mb = m # ms \<longrightarrow> waiters_ok (send_waiters (mb_control mb)) s \<longrightarrow>
      (\<exists>mb' s'. try_recv mb s = Some (Inr m, mb', s') \<and> contents mb' = ms \<and> sys_reach s' \<and>
        woken_from (send_waiters (mb_control mb)) (sched s) (sched s') (send_waiters (mb_control mb'))))"
  using try_send_wakes [OF assms, of msg] try_recv_wakes [OF assms, of m ms] by blast



theorem mailbox_wakeup_reaches_waiter_witness:
  "\<exists>s. sample_after sample_wait_run = Some s \<and> (\<exists>mb :: nat mailbox. mailbox_with_capacity 2 4 = Some mb \<and>
    (\<exists>mb' s' b. try_send 5 (mb\<lparr>mb_control := set_waiters WaitRecv [sample_token] (mb_control mb)\<rparr>) s = Some (Inr (), mb', s') \<and>
      contents mb' = [5] \<and> lookup (sched s') (ThreadId 1 1) = Some b \<and> tstate b \<noteq> Blocked))"
proof -
  obtain s a a0 where s: "sample_after sample_wait_run = Some s" "sys_reach s" "current_cpu s = Some 0"
    "all_threads (\<lambda>th. joiner th = None \<and> user_res th = None) (sched s)" "lookup (sched s) (wt_thread sample_token) = Some a"
    "active (wait_md a) = Some a0" "aw_token a0 = sample_token" "aw_phase a0 = PhaseBlocked"
    using sample_waiting by blast
  obtain mb :: "nat mailbox" where mb: "mailbox_with_capacity 2 4 = Some mb" by (simp add: mailbox_with_capacity_def)
  let ?mb = "mb\<lparr>mb_control := set_waiters WaitRecv [sample_token] (mb_control mb)\<rparr>"
  have inv: "mailbox_inv ?mb" "contents ?mb = []" "\<not> mailbox_is_full ?mb"
    using mailbox_new [OF mb] mailbox_same_ring [of ?mb mb] mb
    by (auto simp: mailbox_is_full_def mailbox_with_capacity_def control_with_capacity_def)
  have "\<not> joiner_token (sched s) sample_token" using all_threads_lookup [OF s(4)] by (fastforce simp: joiner_token_def)
  then have ok: "waiters_ok (recv_waiters (mb_control ?mb)) s"
    using current_cpu_less [OF s(3)] by (simp add: waiters_ok_def sample_token_def)
  have aw: "awaits (sched s) sample_token" "wt_thread sample_token = ThreadId 1 1" using s(5-8) by (simp_all add: awaits_def sample_token_def)
  from mailbox_wakeup_reaches_waiter [OF s(2,3) inv(1), of 5] inv(2,3) ok obtain mb' s' where
    "try_send 5 ?mb s = Some (Inr (), mb', s')" "contents mb' = [5]" "woken_from [sample_token] (sched s) (sched s') (recv_waiters (mb_control mb'))"
    by auto
  then show ?thesis using s(1) mb aw by (fastforce simp: woken_from_def)
qed

end
