(* ===== verification/Sched_Call.thy ===== *)
theory Sched_Call
  imports Ipc
begin

text \<open>
  The synchronous scheduler call of \<^verbatim>\<open>kernel/src/sched/call.rs\<close>: a tagged request that a thread builds on
  its stack, the dispatcher the exception entry hands it to, and the sleep wrappers of
  \<^verbatim>\<open>kernel/src/sched/sleep.rs\<close>. A pointer is an option, null being \<open>None\<close>.
\<close>

section \<open>Requests\<close>

definition SCHED_CALL_SLEEP_UNTIL :: u64 where
  "SCHED_CALL_SLEEP_UNTIL = 1"

definition SCHED_CALL_MAILBOX_WAIT :: u64 where
  "SCHED_CALL_MAILBOX_WAIT = 2"

definition SCHED_CALL_THREAD_EXIT :: u64 where
  "SCHED_CALL_THREAD_EXIT = 3"

definition SCHED_CALL_THREAD_JOIN :: u64 where
  "SCHED_CALL_THREAD_JOIN = 4"

definition SCHED_CALL_PREEMPT_CHECKPOINT :: u64 where
  "SCHED_CALL_PREEMPT_CHECKPOINT = 6"

text \<open>The payload union; the payload that was written is the only one that can be read.\<close>

datatype sched_call_args =
    ArgsSleepUntil u64 "wait_output option"
  | ArgsMailboxWait "mailbox_control option" u64 u64 u64 "wait_output option"
  | ArgsThreadExit usize
  | ArgsThreadJoin usize u32 "wait_output option"
  | ArgsPreemptCheckpoint

record sched_call_request =
  call_op :: u64
  call_args :: sched_call_args

definition request_sleep_until :: "u64 \<Rightarrow> wait_output \<Rightarrow> sched_call_request" where
  "request_sleep_until until out = \<lparr>call_op = SCHED_CALL_SLEEP_UNTIL, call_args = ArgsSleepUntil until (Some out)\<rparr>"

definition request_mailbox_wait :: "mailbox_control option \<Rightarrow> u64 \<Rightarrow> u64 option \<Rightarrow> wait_output \<Rightarrow> sched_call_request" where
  "request_mailbox_wait mailbox wait_kind timeout_deadline out =
     (let (timeout_enabled, until) = (case timeout_deadline of Some until \<Rightarrow> (1, until) | None \<Rightarrow> (0, 0)) in
      \<lparr>call_op = SCHED_CALL_MAILBOX_WAIT, call_args = ArgsMailboxWait mailbox wait_kind timeout_enabled until (Some out)\<rparr>)"

definition request_thread_exit :: "usize \<Rightarrow> sched_call_request" where
  "request_thread_exit code = \<lparr>call_op = SCHED_CALL_THREAD_EXIT, call_args = ArgsThreadExit code\<rparr>"

definition request_thread_join :: "thread_id \<Rightarrow> wait_output \<Rightarrow> sched_call_request" where
  "request_thread_join target out =
     \<lparr>call_op = SCHED_CALL_THREAD_JOIN, call_args = ArgsThreadJoin (tid_index target) (tid_generation target) (Some out)\<rparr>"

definition request_preempt_checkpoint :: sched_call_request where
  "request_preempt_checkpoint = \<lparr>call_op = SCHED_CALL_PREEMPT_CHECKPOINT, call_args = ArgsPreemptCheckpoint\<rparr>"

section \<open>Dispatch\<close>

text \<open>What a call leaves: the output it wrote, the mailbox it changed, the resumed context and the system.\<close>

type_synonym 'a call_result = "wait_output option \<times> mailbox_control option \<times> trap_frame \<times> 'a system_scheme"

definition on_arch_sched_call :: "trap_frame \<Rightarrow> sched_call_request option \<Rightarrow> 'a system_scheme \<Rightarrow> 'a call_result option" where
  "on_arch_sched_call live request s = do {
     request \<leftarrow> request;
     if call_op request = SCHED_CALL_SLEEP_UNTIL then
       (case call_args request of
          ArgsSleepUntil until output \<Rightarrow> do {
            output \<leftarrow> output;
            (out, live, s) \<leftarrow> on_sleep_sync live until output s;
            Some (Some out, None, live, s)
          }
        | _ \<Rightarrow> None)
     else if call_op request = SCHED_CALL_MAILBOX_WAIT then
       (case call_args request of
          ArgsMailboxWait mailbox wait_kind timeout_enabled until output \<Rightarrow> do {
            output \<leftarrow> output;
            k \<leftarrow> mailbox;
            (out, live, k, s) \<leftarrow> on_mailbox_wait_sync live wait_kind (if timeout_enabled \<noteq> 0 then Some until else None) output k s;
            Some (Some out, Some k, live, s)
          }
        | _ \<Rightarrow> None)
     else if call_op request = SCHED_CALL_THREAD_EXIT then
       (case call_args request of
          ArgsThreadExit code \<Rightarrow> do {
            (live, s) \<leftarrow> on_thread_exit_sync live code s;
            Some (None, None, live, s)
          }
        | _ \<Rightarrow> None)
     else if call_op request = SCHED_CALL_THREAD_JOIN then
       (case call_args request of
          ArgsThreadJoin index gen output \<Rightarrow> do {
            output \<leftarrow> output;
            (out, live, s) \<leftarrow> on_thread_join_sync live (ThreadId index gen) output s;
            Some (Some out, None, live, s)
          }
        | _ \<Rightarrow> None)
     else if call_op request = SCHED_CALL_PREEMPT_CHECKPOINT then
       (case call_args request of
          ArgsPreemptCheckpoint \<Rightarrow> do {
            (live, s) \<leftarrow> on_preempt_checkpoint live s;
            Some (None, None, live, s)
          }
        | _ \<Rightarrow> None)
     else None
   }"

section \<open>Wrappers\<close>

text \<open>Each wrapper up to the switch; \<open>take_completion\<close> on the output is what follows the resume.\<close>

definition call_preempt_checkpoint :: "trap_frame \<Rightarrow> 'a system_scheme \<Rightarrow> 'a call_result option" where
  "call_preempt_checkpoint live s = on_arch_sched_call live (Some request_preempt_checkpoint) s"

definition call_sleep_until_counter :: "trap_frame \<Rightarrow> u64 \<Rightarrow> 'a system_scheme \<Rightarrow> 'a call_result option" where
  "call_sleep_until_counter live until s = on_arch_sched_call live (Some (request_sleep_until until wait_output_new)) s"

definition call_mailbox_wait :: "trap_frame \<Rightarrow> mailbox_control option \<Rightarrow> u64 \<Rightarrow> 'a system_scheme \<Rightarrow> 'a call_result option" where
  "call_mailbox_wait live mailbox wait_kind s =
     on_arch_sched_call live (Some (request_mailbox_wait mailbox wait_kind None wait_output_new)) s"

definition call_mailbox_wait_until_counter ::
  "trap_frame \<Rightarrow> mailbox_control option \<Rightarrow> u64 \<Rightarrow> u64 \<Rightarrow> 'a system_scheme \<Rightarrow> 'a call_result option" where
  "call_mailbox_wait_until_counter live mailbox wait_kind until s =
     on_arch_sched_call live (Some (request_mailbox_wait mailbox wait_kind (Some until) wait_output_new)) s"

definition call_thread_exit :: "trap_frame \<Rightarrow> usize \<Rightarrow> 'a system_scheme \<Rightarrow> 'a call_result option" where
  "call_thread_exit live code s = on_arch_sched_call live (Some (request_thread_exit code)) s"

definition call_thread_join :: "trap_frame \<Rightarrow> thread_id \<Rightarrow> 'a system_scheme \<Rightarrow> 'a call_result option" where
  "call_thread_join live target s = on_arch_sched_call live (Some (request_thread_join target wait_output_new)) s"

text \<open>The sleep entry points; no result at the front means that the call returned at once.\<close>

definition sleep_until_counter :: "trap_frame \<Rightarrow> u64 \<Rightarrow> 'a system_scheme \<Rightarrow> 'a call_result option" where
  "sleep_until_counter live until s =
     (let (now, s) = now_counter s in
      if until \<le> now then Some (None, None, live, s) else call_sleep_until_counter live until s)"

definition usleep :: "trap_frame \<Rightarrow> u64 \<Rightarrow> 'a system_scheme \<Rightarrow> 'a call_result option" where
  "usleep live us s =
     (if us = 0 then Some (None, None, live, s)
      else let (now, s) = now_counter s in sleep_until_counter live (now + us_to_counts (counter_freq s) us) s)"

definition msleep :: "trap_frame \<Rightarrow> u64 \<Rightarrow> 'a system_scheme \<Rightarrow> 'a call_result option" where
  "msleep live ms s =
     (if ms = 0 then Some (None, None, live, s)
      else let (now, s) = now_counter s in sleep_until_counter live (now + ms_to_counts (counter_freq s) ms) s)"

lemmas call_ops = SCHED_CALL_SLEEP_UNTIL_def SCHED_CALL_MAILBOX_WAIT_def SCHED_CALL_THREAD_EXIT_def
  SCHED_CALL_THREAD_JOIN_def SCHED_CALL_PREEMPT_CHECKPOINT_def

lemmas call_requests = request_sleep_until_def request_mailbox_wait_def request_thread_exit_def
  request_thread_join_def request_preempt_checkpoint_def

lemma bind_tuple:
  "x2 \<bind> (\<lambda>(p, q). Some (f2 p q)) = map_option (\<lambda>(p, q). f2 p q) x2"
  "x3 \<bind> (\<lambda>(p, q, r). Some (f3 p q r)) = map_option (\<lambda>(p, q, r). f3 p q r) x3"
  "x4 \<bind> (\<lambda>(p, q, r, t). Some (f4 p q r t)) = map_option (\<lambda>(p, q, r, t). f4 p q r t) x4"
  by (cases x2; cases x3; cases x4; auto)+


end
