(* ===== verification/Mem_Map.thy ===== *)
theory Mem_Map
  imports Mem_Types "HOL-Library.Multiset"
begin

text \<open>
  The boot memory map (\<^verbatim>\<open>kernel/src/memory/map.rs\<close>): collecting the firmware regions, sorting and merging
  the reserved ranges, and cutting them out of RAM. A fixed output array with its count is the list
  of its used entries together with its length, the argument \<open>room\<close>.
\<close>

section \<open>Errors and firmware regions\<close>

datatype heap_init_error = AlreadyInitialized | ZeroSize | UnalignedRange

datatype heap_smoke_error = SmokeVec | SmokeVecDeque | SmokeBinaryHeap | SmokeBTreeMap

datatype memory_error =
    NoUsableRam
  | NoBootstrapHeapRange
  | TooManyRanges
  | AddressOutOfRange
  | HeapInit heap_init_error
  | HeapSmokeTest heap_smoke_error

datatype memory_region_kind = BootUsable | BootReserved | BootMmio

record memory_region =
  mr_start :: u64
  mr_size :: u64
  mr_kind :: memory_region_kind

section \<open>Collecting\<close>

definition phys_range_from_u64 :: "u64 \<Rightarrow> u64 \<Rightarrow> memory_error + addr_range option" where
  "phys_range_from_u64 start bytes =
     (if bytes = 0 then Inr None
      else case from_start_size (unat start) (unat bytes) of
        None \<Rightarrow> Inl AddressOutOfRange
      | Some r \<Rightarrow> Inr (Some r))"

definition push_range :: "usize \<Rightarrow> addr_range \<Rightarrow> addr_range list \<Rightarrow> memory_error + addr_range list" where
  "push_range room r out = (if length out < room then Inr (out @ [r]) else Inl TooManyRanges)"

definition add_reserved_range :: "usize \<Rightarrow> addr_range \<Rightarrow> addr_range list \<Rightarrow> memory_error + addr_range list" where
  "add_reserved_range room r out = push_range room r out"

fun collect_boot_ranges ::
  "usize \<Rightarrow> usize \<Rightarrow> memory_region list \<Rightarrow> addr_range list \<times> addr_range list \<Rightarrow> memory_error + addr_range list \<times> addr_range list" where
  "collect_boot_ranges ram_room reserved_room [] out = Inr out"
| "collect_boot_ranges ram_room reserved_room (region # regions) (ram, reserved) =
     and_then (phys_range_from_u64 (mr_start region) (mr_size region)) (\<lambda>r.
       case r of
         None \<Rightarrow> collect_boot_ranges ram_room reserved_room regions (ram, reserved)
       | Some r \<Rightarrow>
           (case mr_kind region of
              BootUsable \<Rightarrow> and_then (push_range ram_room r ram)
                (\<lambda>ram. collect_boot_ranges ram_room reserved_room regions (ram, reserved))
            | BootReserved \<Rightarrow> and_then (push_range reserved_room r reserved)
                (\<lambda>reserved. collect_boot_ranges ram_room reserved_room regions (ram, reserved))
            | BootMmio \<Rightarrow> collect_boot_ranges ram_room reserved_room regions (ram, reserved)))"

section \<open>Sorting and merging in place\<close>

text \<open>The inner loop of the sort moves entry \<open>j\<close> towards the front by exchanges.\<close>

fun sink :: "nat \<Rightarrow> addr_range list \<Rightarrow> addr_range list" where
  "sink 0 ranges = ranges"
| "sink (Suc j) ranges =
     (if range_start (ranges ! Suc j) < range_start (ranges ! j)
      then sink j (ranges[Suc j := ranges ! j, j := ranges ! Suc j]) else ranges)"

definition sort_ranges :: "addr_range list \<Rightarrow> addr_range list" where
  "sort_ranges ranges = fold sink [1 ..< length ranges] ranges"

text \<open>The merge compacts the array towards the front; \<open>out\<close> is the last entry written.\<close>

definition merge_step :: "nat \<Rightarrow> addr_range list \<times> nat \<Rightarrow> addr_range list \<times> nat" where
  "merge_step i = (\<lambda>(ranges, out).
     let current = ranges ! i; final = ranges ! out in
     if overlaps final current \<or> range_end final = range_start current
     then (ranges[out := final\<lparr>range_end := max (range_end final) (range_end current)\<rparr>], out)
     else (ranges[out + 1 := current], out + 1))"

definition merge_ranges :: "addr_range list \<Rightarrow> addr_range list \<times> nat" where
  "merge_ranges ranges =
     (if ranges = [] then (ranges, 0)
      else let (ranges, out) = fold merge_step [1 ..< length ranges] (ranges, 0) in (ranges, out + 1))"

section \<open>Building the map\<close>

definition push_phys_region :: "usize \<Rightarrow> addr_region \<Rightarrow> addr_region list \<Rightarrow> memory_error + addr_region list" where
  "push_phys_region room region out =
     (let r = region_range region in
      if range_end r \<le> range_start r then Inr out
      else if out \<noteq> [] \<and> region_kind (last out) = region_kind region \<and> range_start r \<le> range_end (region_range (last out))
      then let prev = last out; pr = region_range prev in
           Inr (butlast out @ [prev\<lparr>region_range := pr\<lparr>range_end := max (range_end pr) (range_end r)\<rparr>\<rparr>])
      else if length out < room then Inr (out @ [region]) else Inl TooManyRanges)"

definition push_usable_frame_range :: "usize \<Rightarrow> addr_range \<Rightarrow> addr_range list \<Rightarrow> memory_error + addr_range list" where
  "push_usable_frame_range room r out =
     (case align_up (range_start r) PAGE_SIZE of
        None \<Rightarrow> Inl AddressOutOfRange
      | Some s \<Rightarrow>
          let e = align_down (range_end r) PAGE_SIZE in
          if e \<le> s then Inr out
          else if out \<noteq> [] \<and> s \<le> range_end (last out)
          then Inr (butlast out @ [(last out)\<lparr>range_end := max (range_end (last out)) e\<rparr>])
          else if length out < room then Inr (out @ [\<lparr>range_start = s, range_end = e\<rparr>]) else Inl TooManyRanges)"

text \<open>A usable stretch goes into both outputs.\<close>

definition push_usable ::
  "usize \<Rightarrow> usize \<Rightarrow> addr_range \<Rightarrow> addr_region list \<times> addr_range list \<Rightarrow> memory_error + addr_region list \<times> addr_range list" where
  "push_usable region_room usable_room r out =
     and_then (push_phys_region region_room \<lparr>region_range = r, region_kind = Usable\<rparr> (fst out)) (\<lambda>regions.
       and_then (push_usable_frame_range usable_room r (snd out)) (\<lambda>usable. Inr (regions, usable)))"

text \<open>The loop over the reserved ranges of one RAM range; \<open>cursor\<close> is where the next usable stretch begins.\<close>

fun scan_reserved ::
  "usize \<Rightarrow> usize \<Rightarrow> addr_range \<Rightarrow> addr_range list \<Rightarrow> usize \<Rightarrow> addr_region list \<times> addr_range list \<Rightarrow>
   memory_error + usize \<times> addr_region list \<times> addr_range list" where
  "scan_reserved region_room usable_room ram [] cursor out = Inr (cursor, out)"
| "scan_reserved region_room usable_room ram (reserved # rest) cursor out =
     (if range_end reserved \<le> range_start ram then scan_reserved region_room usable_room ram rest cursor out
      else if range_end ram \<le> range_start reserved then Inr (cursor, out)
      else case clipped_to reserved ram of
        None \<Rightarrow> scan_reserved region_room usable_room ram rest cursor out
      | Some clipped \<Rightarrow>
          and_then (if cursor < range_start clipped
                    then push_usable region_room usable_room \<lparr>range_start = cursor, range_end = range_start clipped\<rparr> out
                    else Inr out) (\<lambda>out.
          and_then (push_phys_region region_room \<lparr>region_range = clipped, region_kind = Reserved\<rparr> (fst out)) (\<lambda>regions.
          scan_reserved region_room usable_room ram rest (max cursor (range_end clipped)) (regions, snd out))))"

definition map_ram_range ::
  "usize \<Rightarrow> usize \<Rightarrow> addr_range list \<Rightarrow> addr_range \<Rightarrow> addr_region list \<times> addr_range list \<Rightarrow> memory_error + addr_region list \<times> addr_range list" where
  "map_ram_range region_room usable_room reserved ram out =
     and_then (scan_reserved region_room usable_room ram reserved (range_start ram) out) (\<lambda>(cursor, out).
       if cursor < range_end ram
       then push_usable region_room usable_room \<lparr>range_start = cursor, range_end = range_end ram\<rparr> out
       else Inr out)"

fun map_ram_ranges ::
  "usize \<Rightarrow> usize \<Rightarrow> addr_range list \<Rightarrow> addr_range list \<Rightarrow> addr_region list \<times> addr_range list \<Rightarrow> memory_error + addr_region list \<times> addr_range list" where
  "map_ram_ranges region_room usable_room reserved [] out = Inr out"
| "map_ram_ranges region_room usable_room reserved (ram # rams) out =
     and_then (map_ram_range region_room usable_room reserved ram out) (map_ram_ranges region_room usable_room reserved rams)"

definition build_memory_map ::
  "usize \<Rightarrow> usize \<Rightarrow> addr_range list \<Rightarrow> addr_range list \<Rightarrow> addr_region list \<times> addr_range list \<Rightarrow> memory_error + addr_region list \<times> addr_range list" where
  "build_memory_map region_room usable_room rams reserved out =
     and_then (map_ram_ranges region_room usable_room reserved rams out) (\<lambda>out.
       if snd out = [] then Inl NoUsableRam else Inr out)"

section \<open>Sorting\<close>

text \<open>One round inserts the entry behind the sorted prefix, after the entries with the same start.\<close>

definition insert_after :: "addr_range \<Rightarrow> addr_range list \<Rightarrow> addr_range list" where
  "insert_after r xs = filter (\<lambda>x. range_start x \<le> range_start r) xs @ r # filter (\<lambda>x. range_start r < range_start x) xs"

lemma sink_insert:
  assumes "sorted (map range_start xs)"
  shows "sink (length xs) (xs @ r # ys) = insert_after r xs @ ys"
  using assms
proof (induction xs arbitrary: ys rule: rev_induct)
  case Nil
  then show ?case by (simp add: insert_after_def)
next
  case (snoc x xs)
  have s: "sorted (map range_start xs)" "\<forall>y\<in>set xs. range_start y \<le> range_start x"
    using snoc.prems by (auto simp: sorted_append)
  show ?case
  proof (cases "range_start r < range_start x")
    case True
    have "(xs @ x # r # ys)[Suc (length xs) := x, length xs := r] = xs @ r # x # ys" by (simp add: list_update_append)
    then show ?thesis using True snoc.IH [OF s(1), of "x # ys"] by (simp add: nth_append insert_after_def)
  next
    case False
    then have "filter (\<lambda>y. range_start y \<le> range_start r) xs = xs" "filter (\<lambda>y. range_start r < range_start y) xs = []"
      using s(2) by (auto simp: filter_id_conv filter_empty_conv)
    then show ?thesis using False by (simp add: nth_append insert_after_def)
  qed
qed

lemma insert_after_sorted: "sorted (map range_start xs) \<Longrightarrow> sorted (map range_start (insert_after r xs))"
  by (auto simp: insert_after_def sorted_append sorted_map intro: sorted_wrt_filter)

lemma insert_after_props:
  "mset (insert_after r xs) = add_mset r (mset xs)" "length (insert_after r xs) = Suc (length xs)"
  "filter (\<lambda>x. k = range_start x) (insert_after r xs) = filter (\<lambda>x. k = range_start x) (xs @ [r])"
proof -
  have "mset (filter (\<lambda>x. range_start x \<le> range_start r) xs) + mset (filter (\<lambda>x. range_start r < range_start x) xs) = mset xs"
    by (induction xs) auto
  then show m: "mset (insert_after r xs) = add_mset r (mset xs)" by (simp add: insert_after_def)
  show "length (insert_after r xs) = Suc (length xs)" using arg_cong [OF m, of size] by simp
  have "filter (\<lambda>x. k = range_start x \<and> range_start x \<le> range_start r) xs = filter (\<lambda>x. k = range_start x) xs" if "k \<le> range_start r"
    using that by (intro filter_cong) auto
  moreover have "filter (\<lambda>x. k = range_start x \<and> range_start r < range_start x) xs = filter (\<lambda>x. k = range_start x) xs" if "range_start r < k"
    using that by (intro filter_cong) auto
  moreover have "filter (\<lambda>x. k = range_start x \<and> range_start x \<le> range_start r) xs = []" if "range_start r < k"
    using that by (auto simp: filter_empty_conv)
  moreover have "filter (\<lambda>x. k = range_start x \<and> range_start r < range_start x) xs = []" if "k \<le> range_start r"
    using that by (auto simp: filter_empty_conv)
  ultimately show "filter (\<lambda>x. k = range_start x) (insert_after r xs) = filter (\<lambda>x. k = range_start x) (xs @ [r])"
    by (cases "k \<le> range_start r") (auto simp: insert_after_def conj_commute)
qed

lemma sort_ranges_prefix:
  assumes "n \<le> length ranges" "0 < n"
  shows "fold sink [1 ..< n] ranges = sort_key range_start (take n ranges) @ drop n ranges"
  using assms
proof (induction n)
  case (Suc n)
  show ?case
  proof (cases "n = 0")
    case True
    then show ?thesis using Suc.prems by (cases ranges) simp_all
  next
    case False
    let ?xs = "sort_key range_start (take n ranges)"
    obtain r ys where d: "drop n ranges = r # ys" "take (Suc n) ranges = take n ranges @ [r]" "drop (Suc n) ranges = ys"
      using Suc.prems by (metis Cons_nth_drop_Suc Suc_le_lessD take_Suc_conv_app_nth)
    have st: "filter (\<lambda>x. k = range_start x) (sort_key range_start zs) = filter (\<lambda>x. k = range_start x) zs" for k and zs :: "addr_range list"
      using sort_key_stable [of range_start k zs] by (simp add: eq_commute)
    have "sort_key range_start (take n ranges @ [r]) = insert_after r ?xs"
      by (rule properties_for_sort_key)
        (use insert_after_props [where r = r and xs = ?xs] insert_after_sorted [of ?xs r] in
          \<open>simp_all add: st\<close>)
    moreover have "sink n (?xs @ r # ys) = insert_after r ?xs @ ys"
      using sink_insert [of ?xs r ys] Suc.prems by simp
    ultimately show ?thesis using Suc False d by simp
  qed
qed simp

text \<open>The exchanges sort by start address and keep the order of equal starts.\<close>

lemma sort_ranges_eq: "sort_ranges ranges = sort_key range_start ranges"
  using sort_ranges_prefix [of "length ranges" ranges] by (cases ranges) (simp_all add: sort_ranges_def)

section \<open>Merging\<close>

text \<open>The reference: a range is joined to the last one if they overlap or touch.\<close>

definition joins :: "addr_range \<Rightarrow> addr_range \<Rightarrow> bool" where
  "joins final r \<longleftrightarrow> overlaps final r \<or> range_end final = range_start r"

definition merge_onto :: "addr_range \<Rightarrow> addr_range list \<Rightarrow> addr_range list" where
  "merge_onto r acc =
     (if acc \<noteq> [] \<and> joins (last acc) r
      then butlast acc @ [(last acc)\<lparr>range_end := max (range_end (last acc)) (range_end r)\<rparr>] else acc @ [r])"

lemma merge_prefix:
  assumes "0 < n" "n \<le> length ranges"
  shows "\<exists>r out. fold merge_step [1 ..< n] (ranges, 0) = (r, out) \<and> out < n \<and> length r = length ranges \<and>
    take (Suc out) r = fold merge_onto (take n ranges) [] \<and> drop n r = drop n ranges"
  using assms
proof (induction n)
  case (Suc n)
  show ?case
  proof (cases "n = 0")
    case True
    then show ?thesis using Suc.prems by (cases ranges) (simp_all add: merge_onto_def)
  next
    case False
    then obtain r out where r: "fold merge_step [1 ..< n] (ranges, 0) = (r, out)" "out < n" "length r = length ranges"
      "take (Suc out) r = fold merge_onto (take n ranges) []" "drop n r = drop n ranges"
      using Suc by auto
    let ?x = "ranges ! n" and ?q = "r ! out"
    let ?j = "?q\<lparr>range_end := max (range_end ?q) (range_end ?x)\<rparr>"
    have n: "n < length ranges" using Suc.prems by simp
    have cur: "r ! n = ?x" using r(3,5) n by (metis hd_drop_conv_nth)
    have d: "drop (Suc n) r = drop (Suc n) ranges" using r(5) by (metis drop_drop plus_1_eq_Suc)
    have acc: "fold merge_onto (take n ranges) [] = take out r @ [?q]" using r(2-4) n by (simp add: take_Suc_conv_app_nth)
    have step: "fold merge_step [1 ..< Suc n] (ranges, 0) = (if joins ?q ?x then (r[out := ?j], out) else (r[Suc out := ?x], Suc out))"
      using False r(1) cur by (simp add: merge_step_def joins_def Let_def)
    have onto: "fold merge_onto (take (Suc n) ranges) [] = (if joins ?q ?x then take out r @ [?j] else take out r @ [?q, ?x])"
      using n acc by (simp add: take_Suc_conv_app_nth merge_onto_def)
    have "take (Suc out) (r[out := ?j]) = take out r @ [?j]" "take (Suc (Suc out)) (r[Suc out := ?x]) = take out r @ [?q, ?x]"
      using r(2,3) n by (simp_all add: take_Suc_conv_app_nth)
    then show ?thesis using step onto d r(2,3) by simp
  qed
qed simp

lemma merge_ranges_eq:
  "merge_ranges ranges = (r, n) \<Longrightarrow> take n r = fold merge_onto ranges [] \<and> n \<le> length ranges"
  using merge_prefix [of "length ranges" ranges] by (cases ranges) (auto simp: merge_ranges_def)

text \<open>Ranges in address order with gaps between them.\<close>

definition separated :: "addr_range list \<Rightarrow> bool" where
  "separated rs \<longleftrightarrow> list_all (\<lambda>r. range_start r < range_end r) rs \<and> sorted_wrt (\<lambda>a b. range_end a < range_start b) rs"

definition cover :: "addr_range list \<Rightarrow> usize set" where
  "cover rs = (\<Union>r\<in>set rs. range_set r)"

lemma cover_simps [simp]: "cover [] = {}" "cover (r # rs) = range_set r \<union> cover rs" "cover (rs @ qs) = cover rs \<union> cover qs"
  by (auto simp: cover_def)

lemma separated_snoc:
  "separated (rs @ [r]) \<longleftrightarrow> separated rs \<and> range_start r < range_end r \<and> (\<forall>q\<in>set rs. range_end q < range_start r)"
  by (auto simp: separated_def sorted_wrt_append)

lemma merge_onto_separated:
  assumes acc: "separated acc" "\<forall>q\<in>set acc. range_start q \<le> range_start r" and r: "range_start r < range_end r"
  shows "separated (merge_onto r acc)" "cover (merge_onto r acc) = cover acc \<union> range_set r"
    "\<forall>q\<in>set (merge_onto r acc). range_start q \<le> range_start r"
proof -
  have "separated (merge_onto r acc) \<and> cover (merge_onto r acc) = cover acc \<union> range_set r \<and>
    (\<forall>q\<in>set (merge_onto r acc). range_start q \<le> range_start r)"
  proof (cases acc rule: rev_cases)
    case Nil
    then show ?thesis using r by (simp add: merge_onto_def separated_def)
  next
    case (snoc pre q)
    have q: "range_start q \<le> range_start r" "range_start q < range_end q" "separated pre" "\<forall>p\<in>set pre. range_end p < range_start q"
      using acc snoc by (auto simp: separated_snoc)
    have pre: "range_end p < range_start r" "range_start p \<le> range_start r" if "p \<in> set pre" for p
      using q that acc(2) snoc by force+
    have j: "joins q r \<longleftrightarrow> range_start r \<le> range_end q" using q r by (auto simp: joins_def overlaps_def)
    show ?thesis
    proof (cases "joins q r")
      case True
      then have "range_set (q\<lparr>range_end := max (range_end q) (range_end r)\<rparr>) = range_set q \<union> range_set r"
        using j q r by (auto simp: range_set_def)
      then show ?thesis using True snoc q pre by (auto simp: merge_onto_def separated_snoc)
    next
      case False
      then have "separated ((pre @ [q]) @ [r])" unfolding separated_snoc using False q pre r j by auto
      then show ?thesis using False snoc acc(2) by (auto simp: merge_onto_def)
    qed
  qed
  then show "separated (merge_onto r acc)" "cover (merge_onto r acc) = cover acc \<union> range_set r"
    "\<forall>q\<in>set (merge_onto r acc). range_start q \<le> range_start r" by blast+
qed

lemma merge_sorted:
  assumes "sorted (map range_start rs)" "list_all (\<lambda>r. range_start r < range_end r) rs"
    "separated acc" "\<forall>q\<in>set acc. \<forall>r\<in>set rs. range_start q \<le> range_start r"
  shows "separated (fold merge_onto rs acc) \<and> cover (fold merge_onto rs acc) = cover acc \<union> cover rs"
  using assms
proof (induction rs arbitrary: acc)
  case (Cons r rs)
  have acc: "\<forall>q\<in>set acc. range_start q \<le> range_start r" "range_start r < range_end r" using Cons.prems by simp_all
  note m = merge_onto_separated [OF Cons.prems(3) acc]
  have "\<forall>q\<in>set (merge_onto r acc). \<forall>x\<in>set rs. range_start q \<le> range_start x" using m(3) Cons.prems(1) by fastforce
  then show ?case using Cons.IH [of "merge_onto r acc"] m Cons.prems by auto
qed simp

end
