(* ===== verification/Mem_Map_Ok.thy ===== *)
theory Mem_Map_Ok
  imports Mem_Map
begin

text \<open>
  What the memory map promises: the reserved ranges are normalised without changing the addresses
  they cover, and the usable frame ranges hold exactly the whole pages of RAM that no reserved range
  touches.
\<close>

section \<open>Usable frames\<close>

definition page :: "usize \<Rightarrow> usize set" where
  "page p = {p..<p + PAGE_SIZE}"

definition frames_ok :: "addr_range list \<Rightarrow> bool" where
  "frames_ok us \<longleftrightarrow> separated us \<and> list_all (\<lambda>r. PAGE_SIZE dvd range_start r \<and> PAGE_SIZE dvd range_end r) us"

text \<open>
  The frame ranges \<open>us\<close> lie in the areas \<open>xs\<close> outside the reserved ranges, and have every whole
  page of an area that the reserved ranges leave.
\<close>

definition maps_free :: "addr_range list \<Rightarrow> addr_range list \<Rightarrow> addr_range list \<Rightarrow> bool" where
  "maps_free res xs us \<longleftrightarrow> frames_ok us \<and> cover us \<subseteq> cover xs - cover res \<and>
     (\<forall>x\<in>set xs. \<forall>p. PAGE_SIZE dvd p \<longrightarrow> page p \<subseteq> range_set x - cover res \<longrightarrow> page p \<subseteq> cover us)"

abbreviation span :: "usize \<Rightarrow> usize \<Rightarrow> addr_range" where
  "span a b \<equiv> \<lparr>range_start = a, range_end = b\<rparr>"

lemma span_set [simp]: "range_set (span a b) = {a..<b}"
  by (simp add: range_set_def)

lemma page_subset: "page p \<subseteq> {a..<b} \<longleftrightarrow> a \<le> p \<and> p + PAGE_SIZE \<le> b"
  by (auto simp: page_def PAGE_SIZE_def)

lemma separated_last: "separated us \<Longrightarrow> q \<in> set us \<Longrightarrow> range_end q \<le> range_end (last us)"
  by (cases us rule: rev_cases) (auto simp: separated_snoc separated_def list_all_iff sorted_wrt_append)

lemma maps_freeD:
  assumes "maps_free res xs us"
  shows "frames_ok us" "cover us \<subseteq> cover xs" "cover us \<inter> cover res = {}"
    "\<And>x p. x \<in> set xs \<Longrightarrow> PAGE_SIZE dvd p \<Longrightarrow> page p \<subseteq> range_set x \<Longrightarrow> page p \<inter> cover res = {} \<Longrightarrow> page p \<subseteq> cover us"
  using assms unfolding maps_free_def by blast+

lemma maps_freeI:
  assumes "frames_ok us" "cover us \<subseteq> cover xs - cover res"
    "\<And>x p. x \<in> set xs \<Longrightarrow> PAGE_SIZE dvd p \<Longrightarrow> page p \<subseteq> range_set x \<Longrightarrow> page p \<inter> cover res = {} \<Longrightarrow> page p \<subseteq> cover us"
  shows "maps_free res xs us"
proof -
  have "page p \<subseteq> cover us" if "x \<in> set xs" "PAGE_SIZE dvd p" "page p \<subseteq> range_set x - cover res" for x p
    using that(3) by (intro assms(3) [OF that(1,2)]) blast+
  then show ?thesis using assms(1,2) unfolding maps_free_def by blast
qed

text \<open>Pushing a stretch adds its whole pages and nothing else.\<close>

lemma push_frames:
  assumes push: "push_usable_frame_range room (span a b) us = Inr us'" and us: "maps_free res xs us"
    and xs: "\<forall>x\<in>set xs. range_start x \<le> a" and ab: "a < b" "{a..<b} \<inter> cover res = {}"
  shows "frames_ok us'" "cover us \<subseteq> cover us'" "cover us' \<subseteq> cover us \<union> {a..<b}"
    "\<And>p. PAGE_SIZE dvd p \<Longrightarrow> page p \<subseteq> {a..<b} \<Longrightarrow> page p \<subseteq> cover us'"
proof -
  let ?e = "align_down b PAGE_SIZE"
  note d = maps_freeD [OF us]
  obtain s where s: "align_up a PAGE_SIZE = Some s" using push by (auto simp: push_usable_frame_range_def split: option.splits)
  have pos: "0 < PAGE_SIZE" by (simp add: PAGE_SIZE_def)
  have al: "a \<le> s" "PAGE_SIZE dvd s" "?e \<le> b" "PAGE_SIZE dvd ?e"
    using align_up_bounds(1) [OF s pos] align_up_dvd [OF s pos] align_down_le [of b] align_down_dvd [of PAGE_SIZE b] pos by auto
  have pg: "s \<le> p" "p + PAGE_SIZE \<le> ?e" if "PAGE_SIZE dvd p" "page p \<subseteq> {a..<b}" for p
    using that align_up_least [OF s pos, of p] align_down_greatest [of PAGE_SIZE "p + PAGE_SIZE" b] by (auto simp: page_subset)
  consider (none) "?e \<le> s" "us' = us"
    | (join) pre q where "s < ?e" "us = pre @ [q]" "s \<le> range_end q" "us' = pre @ [q\<lparr>range_end := max (range_end q) ?e\<rparr>]"
    | (fresh) "s < ?e" "us = [] \<or> range_end (last us) < s" "us' = us @ [span s ?e]"
    using push s by (cases us rule: rev_cases) (auto simp: push_usable_frame_range_def Let_def split: if_splits)
  then have "frames_ok us' \<and> cover us \<subseteq> cover us' \<and> cover us' \<subseteq> cover us \<union> {a..<b} \<and>
    (\<forall>p. PAGE_SIZE dvd p \<longrightarrow> page p \<subseteq> {a..<b} \<longrightarrow> page p \<subseteq> cover us')"
  proof cases
    case none
    have False if "PAGE_SIZE dvd p" "page p \<subseteq> {a..<b}" for p using pg [OF that] none(1) pos by simp
    then show ?thesis using d(1) none(2) by blast
  next
    case join
    let ?q = "q\<lparr>range_end := max (range_end q) ?e\<rparr>"
    have q: "range_start q < range_end q" "PAGE_SIZE dvd range_end q" "frames_ok (pre @ [?q])"
      using d(1) join(2) al(4) by (auto simp: frames_ok_def separated_snoc max_def)
    have set: "range_set ?q = range_set q \<union> {range_end q..<?e}" using q(1) by (auto simp: range_set_def)
    have "page p \<subseteq> cover us'" if p: "PAGE_SIZE dvd p" "page p \<subseteq> {a..<b}" for p
    proof (cases "range_end q \<le> p")
      case True
      then have "page p \<subseteq> {range_end q..<?e}" using pg(2) [OF p] by (simp add: page_subset)
      then show ?thesis using set join(4) by auto
    next
      case False
      then have e: "p + PAGE_SIZE \<le> range_end q" using dvd_le_add [OF p(1) q(2)] by simp
      have "range_end q - 1 \<in> cover us" using q(1) join(2) by (auto simp: range_set_def)
      then obtain x where x: "x \<in> set xs" "range_end q - 1 \<in> range_set x" using d(2) by (auto simp: cover_def)
      then have "page p \<subseteq> range_set x" using xs e p(2) q(1) by (fastforce simp: page_def range_set_def)
      then have "page p \<subseteq> cover us" using d(4) [OF x(1) p(1)] p(2) ab(2) by blast
      then show ?thesis using set join by auto
    qed
    moreover have "{range_end q..<?e} \<subseteq> {a..<b}" using join(3) al(1,3) by auto
    moreover have "cover us' = cover us \<union> {range_end q..<?e}" using set join(2,4) by auto
    ultimately show ?thesis using q(3) join(4) by blast
  next
    case fresh
    have "frames_ok us'"
      using d(1) fresh al separated_last [of us] by (auto simp: frames_ok_def separated_snoc) force
    moreover have "page p \<subseteq> cover us'" if "PAGE_SIZE dvd p" "page p \<subseteq> {a..<b}" for p
    proof -
      have "page p \<subseteq> {s..<?e}" using pg [OF that] by (simp add: page_subset)
      then show ?thesis using fresh(3) by auto
    qed
    moreover have "cover us' = cover us \<union> {s..<?e}" using fresh(3) by simp
    moreover have "{s..<?e} \<subseteq> {a..<b}" using al by simp
    ultimately show ?thesis by blast
  qed
  then show "frames_ok us'" "cover us \<subseteq> cover us'" "cover us' \<subseteq> cover us \<union> {a..<b}"
    "\<And>p. PAGE_SIZE dvd p \<Longrightarrow> page p \<subseteq> {a..<b} \<Longrightarrow> page p \<subseteq> cover us'" by blast+
qed

section \<open>Scanning the reserved ranges\<close>

text \<open>Before the scan of a RAM range, up to the cursor, everything is accounted for.\<close>

definition scanned :: "addr_range list \<Rightarrow> addr_range list \<Rightarrow> usize \<Rightarrow> usize \<Rightarrow> addr_range list \<Rightarrow> bool" where
  "scanned res xs a c us \<longleftrightarrow> maps_free res (xs @ [span a c]) us \<and> a \<le> c \<and> (\<forall>x\<in>set xs. range_start x \<le> a) \<and>
     (c = a \<or> c - 1 \<in> cover res)"

lemma scanned_push:
  assumes push: "push_usable_frame_range room (span c s) us = Inr us'" and sc: "scanned res xs a c us"
    and free: "c < s" "{c..<s} \<inter> cover res = {}"
  shows "maps_free res (xs @ [span a s]) us'"
proof -
  note sc' = sc [unfolded scanned_def]
  have mf: "maps_free res (xs @ [span a c]) us" and ac: "a \<le> c" and xs: "\<forall>x\<in>set (xs @ [span a c]). range_start x \<le> c"
    using sc' by fastforce+
  note p = push_frames [OF push mf xs free] and d = maps_freeD [OF mf]
  have old: "page p \<subseteq> cover us'" if "x \<in> set (xs @ [span a c])" "PAGE_SIZE dvd p" "page p \<subseteq> range_set x" "page p \<inter> cover res = {}" for x p
    using d(4) [OF that] p(2) by blast
  have new: "page p \<subseteq> cover us'" if "PAGE_SIZE dvd p" "page p \<subseteq> {a..<s}" "page p \<inter> cover res = {}" for p
  proof (cases "c \<le> p")
    case True
    then show ?thesis using p(4) [OF that(1)] that(2) by (simp add: page_subset)
  next
    case False
    have "c - 1 \<in> cover res" using that(2) sc' False by (auto simp: page_subset)
    then have "c - 1 \<notin> page p" using that(3) by blast
    then have "p + PAGE_SIZE \<le> c" using False by (auto simp: page_def)
    then show ?thesis using old [of "span a c" p] that by (simp add: page_subset)
  qed
  have "{a..<c} \<subseteq> {a..<s}" "{c..<s} \<subseteq> {a..<s}" using free(1) ac by auto
  then have "cover us' \<subseteq> cover (xs @ [span a s]) - cover res"
    using p(3) d(2,3) free(2) unfolding cover_simps span_set by blast
  then show ?thesis
  proof (rule maps_freeI [OF p(1)])
    fix x p
    assume "x \<in> set (xs @ [span a s])" "PAGE_SIZE dvd p" "page p \<subseteq> range_set x" "page p \<inter> cover res = {}"
    then show "page p \<subseteq> cover us'" using old [of x p] new [of p] by auto
  qed
qed

lemma maps_free_reserved:
  assumes "maps_free res (xs @ [span a c]) us" "a \<le> c" "c \<le> e" "{c..<e} \<subseteq> cover res"
  shows "maps_free res (xs @ [span a e]) us"
proof -
  note d = maps_freeD [OF assms(1)]
  have "page p \<subseteq> {a..<c}" if "page p \<subseteq> {a..<e}" "page p \<inter> cover res = {}" for p
    using that assms(4) by (fastforce simp: page_def)
  then have new: "page p \<subseteq> cover us" if "PAGE_SIZE dvd p" "page p \<subseteq> {a..<e}" "page p \<inter> cover res = {}" for p
    using that d(4) [of "span a c" p] by auto
  have "{a..<c} \<subseteq> {a..<e}" using assms(3) by auto
  then have "cover us \<subseteq> cover (xs @ [span a e]) - cover res" using d(2,3) unfolding cover_simps span_set by blast
  then show ?thesis
  proof (rule maps_freeI [OF d(1)])
    fix x p
    assume "x \<in> set (xs @ [span a e])" "PAGE_SIZE dvd p" "page p \<subseteq> range_set x" "page p \<inter> cover res = {}"
    then show "page p \<subseteq> cover us" using d(4) [of x p] new [of p] by auto
  qed
qed

lemma push_phys_region_room:
  "length out < room \<Longrightarrow> \<exists>out'. push_phys_region room r out = Inr out' \<and> length out' \<le> Suc (length out)"
  by (auto simp: push_phys_region_def Let_def)

lemma push_usable_room:
  assumes "length (fst out) < region_room" "length (snd out) < usable_room" "range_start r + (PAGE_SIZE - 1) \<le> usize_max"
  shows "\<exists>regions us. push_usable region_room usable_room r out = Inr (regions, us) \<and>
    push_usable_frame_range usable_room r (snd out) = Inr us \<and> length regions \<le> Suc (length (fst out)) \<and> length us \<le> Suc (length (snd out))"
proof -
  obtain s where s: "align_up (range_start r) PAGE_SIZE = Some s"
    using assms(3) by (simp add: align_up_def checked_add_usize_def PAGE_SIZE_def)
  have "\<exists>us. push_usable_frame_range usable_room r (snd out) = Inr us \<and> length us \<le> Suc (length (snd out))"
    using assms(2) s by (auto simp: push_usable_frame_range_def Let_def)
  then show ?thesis using push_phys_region_room [OF assms(1), of "\<lparr>region_range = r, region_kind = Usable\<rparr>"]
    by (auto simp: push_usable_def)
qed

text \<open>The stretch before a reserved range is pushed and the cursor moves behind that range.\<close>

lemma scan_cut:
  assumes sc: "scanned res xs a c (snd out)" and free: "c < s \<Longrightarrow> {c..<s} \<inter> cover res = {}"
    and top: "s + (PAGE_SIZE - 1) \<le> usize_max" and sf: "s < f" "{s..<f} \<subseteq> cover res"
    and room: "length (fst out) < region_room" "length (snd out) < usable_room"
  shows "\<exists>out1. (if c < s then push_usable region_room usable_room (span c s) out else Inr out) = Inr out1 \<and>
    scanned res xs a (max c f) (snd out1) \<and> length (fst out1) \<le> Suc (length (fst out)) \<and> length (snd out1) \<le> Suc (length (snd out))"
proof -
  have ac: "a \<le> c" "maps_free res (xs @ [span a c]) (snd out)" using sc by (simp_all add: scanned_def)
  have "f - 1 \<in> {s..<f}" using sf(1) by simp
  then have f: "f - 1 \<in> cover res" using sf(2) by blast
  show ?thesis
  proof (cases "c < s")
    case True
    obtain regions us where us: "push_usable region_room usable_room (span c s) out = Inr (regions, us)"
      "push_usable_frame_range usable_room (span c s) (snd out) = Inr us" "length regions \<le> Suc (length (fst out))" "length us \<le> Suc (length (snd out))"
      using push_usable_room [of out region_room usable_room "span c s"] True top room by auto
    from maps_free_reserved [OF scanned_push [OF us(2) sc True free [OF True]] _ _ sf(2)]
    have "maps_free res (xs @ [span a f]) us" using ac True sf(1) by simp
    then have "scanned res xs a (max c f) us" using sc True sf(1) f by (auto simp: scanned_def max_def)
    then show ?thesis using True us by simp
  next
    case False
    then have "{c..<max c f} \<subseteq> {s..<f}" by auto
    then have "{c..<max c f} \<subseteq> cover res" using sf(2) by blast
    from maps_free_reserved [OF ac(2,1) _ this] have "scanned res xs a (max c f) (snd out)"
      using sc f by (auto simp: scanned_def max_def)
    then show ?thesis using False by simp
  qed
qed

lemma scan_ok:
  fixes ram :: addr_range
  defines "a \<equiv> range_start ram" and "e \<equiv> range_end ram"
  assumes "sorted (map range_start rest)" "cover res = D \<union> cover rest" "D \<inter> {c..<e} = {}"
    and "scanned res xs a c (snd out)" "c \<le> e" "e + (PAGE_SIZE - 1) \<le> usize_max"
    and "length (fst out) + 2 * length rest \<le> region_room" "length (snd out) + length rest \<le> usable_room"
  shows "\<exists>c' regions us. scan_reserved region_room usable_room ram rest c out = Inr (c', regions, us) \<and> scanned res xs a c' us \<and>
    c' \<le> e \<and> cover res \<inter> {c'..<e} = {} \<and> length regions \<le> length (fst out) + 2 * length rest \<and> length us \<le> length (snd out) + length rest"
  using assms(3-)
proof (induction rest arbitrary: D c out)
  case Nil
  then show ?case by (cases out) auto
next
  case (Cons q rest)
  have ac: "a \<le> c" using Cons.prems(4) by (simp add: scanned_def)
  have later: "range_start q \<le> range_start r" if "r \<in> set rest" for r using Cons.prems(1) that by simp
  have skip: ?case if eq: "scan_reserved region_room usable_room ram (q # rest) c out = scan_reserved region_room usable_room ram rest c out"
    and q: "range_set q \<inter> {c..<e} = {}"
  proof -
    have "(D \<union> range_set q) \<inter> {c..<e} = {}" using Cons.prems(3) q by blast
    from Cons.IH [OF _ _ this Cons.prems(4-6)] Cons.prems(1,2,7,8) show ?thesis unfolding eq by (auto simp: Un_assoc)
  qed
  consider (before) "range_end q \<le> a" | (after) "a < range_end q" "e \<le> range_start q"
    | (apart) "a < range_end q" "range_start q < e" "clipped_to q ram = None"
    | (cut) cl where "a < range_end q" "range_start q < e" "clipped_to q ram = Some cl"
    by fastforce
  then show ?case
  proof cases
    case before
    then show ?thesis using ac by (intro skip) (auto simp: a_def range_set_def)
  next
    case after
    have "cover (q # rest) \<inter> {c..<e} = {}" using after(2) later by (fastforce simp: cover_def range_set_def)
    then show ?thesis using after Cons.prems by (cases out) (auto simp: a_def e_def)
  next
    case apart
    then show ?thesis using clipped_to_set(2) [OF apart(3)] ac by (intro skip) (auto simp: a_def e_def range_set_def)
  next
    case cut
    let ?s = "range_start cl" and ?f = "range_end cl" and ?c = "max c (range_end cl)"
    have cl: "?s = max (range_start q) a" "?f = min (range_end q) e" "?s < ?f"
      using cut(3) by (auto simp: clipped_to_def a_def e_def Let_def split: if_splits)
    have res: "range_set q \<subseteq> cover res" "{?s..<?f} \<subseteq> range_set q" using Cons.prems(2) cl by (auto simp: range_set_def)
    have sub: "{?s..<?f} \<subseteq> cover res" using res by blast
    have free: "{c..<?s} \<inter> cover res = {}" if "c < ?s"
    proof -
      have "{c..<?s} \<inter> cover (q # rest) = {}" using that ac cl(1) later by (fastforce simp: cover_def range_set_def)
      moreover have "{c..<?s} \<subseteq> {c..<e}" using cl(2,3) by (intro ivl_subset [THEN iffD2]) simp
      ultimately show ?thesis using Cons.prems(2,3) by blast
    qed
    have "?s + (PAGE_SIZE - 1) \<le> usize_max" using cl(2,3) Cons.prems(6) by simp
    then obtain out1 where out1: "(if c < ?s then push_usable region_room usable_room (span c ?s) out else Inr out) = Inr out1"
      "scanned res xs a ?c (snd out1)" "length (fst out1) \<le> Suc (length (fst out))" "length (snd out1) \<le> Suc (length (snd out))"
      using scan_cut [OF Cons.prems(4) free _ cl(3) sub, of region_room usable_room] Cons.prems(7,8) by auto
    obtain regions where regions: "push_phys_region region_room \<lparr>region_range = cl, region_kind = Reserved\<rparr> (fst out1) = Inr regions"
      "length regions \<le> Suc (length (fst out1))" using push_phys_region_room [of "fst out1" region_room "\<lparr>region_range = cl, region_kind = Reserved\<rparr>"] out1(3) Cons.prems(7) by auto
    have "range_set q \<inter> {?c..<e} = {}" using cl(2) by (auto simp: range_set_def)
    moreover have "{?c..<e} \<subseteq> {c..<e}" by simp
    ultimately have "(D \<union> range_set q) \<inter> {?c..<e} = {}" using Cons.prems(3) by blast
    moreover have "?c \<le> e" using cl(2) Cons.prems(5) by simp
    ultimately obtain c' regions' us where r: "scan_reserved region_room usable_room ram rest ?c (regions, snd out1) = Inr (c', regions', us)"
      "scanned res xs a c' us" "c' \<le> e" "cover res \<inter> {c'..<e} = {}" "length regions' \<le> length regions + 2 * length rest"
      "length us \<le> length (snd out1) + length rest"
      using Cons.IH [of "D \<union> range_set q" ?c "(regions, snd out1)"] Cons.prems(1,2,6-8) regions(2) out1(2-4) by (auto simp: Un_assoc)
    moreover have "scan_reserved region_room usable_room ram (q # rest) c out = Inr (c', regions', us)"
      using cut out1(1) regions(1) r(1) by (simp add: a_def e_def)
    ultimately show ?thesis using regions(2) out1(3,4) by auto
  qed
qed

section \<open>The whole map\<close>

lemma map_ram_range_ok:
  assumes "sorted (map range_start res)" "maps_free res xs (snd out)" "range_start ram < range_end ram"
    and "\<forall>x\<in>set xs. range_start x \<le> range_start ram" "range_end ram + (PAGE_SIZE - 1) \<le> usize_max"
    and "length (fst out) + (2 * length res + 1) \<le> region_room" "length (snd out) + (length res + 1) \<le> usable_room"
  shows "\<exists>regions us. map_ram_range region_room usable_room res ram out = Inr (regions, us) \<and> maps_free res (xs @ [ram]) us \<and>
    length regions \<le> length (fst out) + (2 * length res + 1) \<and> length us \<le> length (snd out) + (length res + 1)"
proof -
  let ?a = "range_start ram" and ?e = "range_end ram"
  have ram: "span ?a ?e = ram" by simp
  note d = maps_freeD [OF assms(2)]
  have "maps_free res (xs @ [span ?a ?a]) (snd out)"
  proof (rule maps_freeI [OF d(1)])
    fix x p
    assume "x \<in> set (xs @ [span ?a ?a])" "PAGE_SIZE dvd p" "page p \<subseteq> range_set x" "page p \<inter> cover res = {}"
    then show "page p \<subseteq> cover (snd out)" using d(4) [of x p] by (auto simp: page_def PAGE_SIZE_def)
  qed (use d(2,3) in auto)
  then have "scanned res xs ?a ?a (snd out)" using assms(4) by (simp add: scanned_def)
  then obtain c regions us where c: "scan_reserved region_room usable_room ram res ?a out = Inr (c, regions, us)" "scanned res xs ?a c us"
    "c \<le> ?e" "cover res \<inter> {c..<?e} = {}" "length regions \<le> length (fst out) + 2 * length res" "length us \<le> length (snd out) + length res"
    using scan_ok [OF assms(1), of res "{}" ?a ram xs out region_room usable_room] assms(3,5-7) by auto
  show ?thesis
  proof (cases "c < ?e")
    case True
    obtain regions' us' where r: "push_usable region_room usable_room (span c ?e) (regions, us) = Inr (regions', us')"
      "push_usable_frame_range usable_room (span c ?e) us = Inr us'" "length regions' \<le> Suc (length regions)" "length us' \<le> Suc (length us)"
      using push_usable_room [of "(regions, us)" region_room usable_room "span c ?e"] c(3,5,6) assms(5-7) by auto
    have "{c..<?e} \<inter> cover res = {}" using c(4) by blast
    from scanned_push [OF r(2) c(2) True this] show ?thesis
      using True c(1,5,6) r(1,3,4) by (simp add: map_ram_range_def ram)
  next
    case False
    then have "c = ?e" using c(3) by simp
    then have "maps_free res (xs @ [ram]) us" using c(2) ram by (simp add: scanned_def)
    then show ?thesis using False c(1,5,6) by (simp add: map_ram_range_def)
  qed
qed

lemma map_ram_ranges_ok:
  assumes "sorted (map range_start res)" "sorted (map range_start (xs @ rams))" "maps_free res xs (snd out)"
    and "\<forall>ram\<in>set rams. range_start ram < range_end ram \<and> range_end ram + (PAGE_SIZE - 1) \<le> usize_max"
    and "length (fst out) + length rams * (2 * length res + 1) \<le> region_room" "length (snd out) + length rams * (length res + 1) \<le> usable_room"
  shows "\<exists>regions us. map_ram_ranges region_room usable_room res rams out = Inr (regions, us) \<and> maps_free res (xs @ rams) us"
  using assms(2-)
proof (induction rams arbitrary: xs out)
  case Nil
  then show ?case by (cases out) simp
next
  case (Cons ram rams)
  obtain regions us where r: "map_ram_range region_room usable_room res ram out = Inr (regions, us)" "maps_free res (xs @ [ram]) us"
    "length regions \<le> length (fst out) + (2 * length res + 1)" "length us \<le> length (snd out) + (length res + 1)"
    using map_ram_range_ok [OF assms(1) Cons.prems(2), of ram region_room usable_room] Cons.prems by (auto simp: sorted_append)
  have "length (fst (regions, us)) + length rams * (2 * length res + 1) \<le> region_room"
    "length (snd (regions, us)) + length rams * (length res + 1) \<le> usable_room"
    using r(3,4) Cons.prems(4,5) by simp_all
  then show ?case using Cons.IH [of "xs @ [ram]" "(regions, us)"] Cons.prems(1,3) r(1,2) by simp
qed

section \<open>More room\<close>

text \<open>Room in the output arrays matters only for refusals.\<close>

lemma push_phys_region_mono: "push_phys_region k x out = Inr y \<Longrightarrow> k \<le> k' \<Longrightarrow> push_phys_region k' x out = Inr y"
  by (auto simp: push_phys_region_def Let_def split: if_splits)

lemma push_usable_frame_range_mono: "push_usable_frame_range k x out = Inr y \<Longrightarrow> k \<le> k' \<Longrightarrow> push_usable_frame_range k' x out = Inr y"
  by (auto simp: push_usable_frame_range_def Let_def split: if_splits option.splits)

lemma push_usable_mono: "push_usable k u x out = Inr y \<Longrightarrow> k \<le> k' \<Longrightarrow> u \<le> u' \<Longrightarrow> push_usable k' u' x out = Inr y"
  by (auto simp: push_usable_def and_then_eq_Inr dest: push_phys_region_mono push_usable_frame_range_mono)

lemma scan_reserved_mono:
  assumes "k \<le> k'" "u \<le> u'"
  shows "scan_reserved k u ram rest c out = Inr y \<Longrightarrow> scan_reserved k' u' ram rest c out = Inr y"
proof (induction rest arbitrary: c out)
  case (Cons q rest)
  show ?case
  proof (cases "range_end q \<le> range_start ram \<or> range_end ram \<le> range_start q \<or> clipped_to q ram = None")
    case True
    then show ?thesis using Cons by (auto split: if_splits)
  next
    case False
    then obtain z where z: "clipped_to q ram = Some z" "\<not> range_end q \<le> range_start ram" "\<not> range_end ram \<le> range_start q" by auto
    obtain o1 rs where o1: "(if c < range_start z then push_usable k u (span c (range_start z)) out else Inr out) = Inr o1"
      "push_phys_region k \<lparr>region_range = z, region_kind = Reserved\<rparr> (fst o1) = Inr rs"
      "scan_reserved k u ram rest (max c (range_end z)) (rs, snd o1) = Inr y"
      using Cons.prems unfolding scan_reserved.simps z(1) if_not_P [OF z(2)] if_not_P [OF z(3)] option.case and_then_eq_Inr by blast
    have "(if c < range_start z then push_usable k' u' (span c (range_start z)) out else Inr out) = Inr o1"
      using o1(1) push_usable_mono [OF _ assms] by (cases "c < range_start z") simp_all
    then show ?thesis using push_phys_region_mono [OF o1(2) assms(1)] Cons.IH [OF o1(3)]
      unfolding scan_reserved.simps z(1) if_not_P [OF z(2)] if_not_P [OF z(3)] option.case and_then_eq_Inr by blast
  qed
qed simp

lemma map_ram_ranges_mono:
  assumes "k \<le> k'" "u \<le> u'"
  shows "map_ram_ranges k u res rams out = Inr y \<Longrightarrow> map_ram_ranges k' u' res rams out = Inr y"
proof (induction rams arbitrary: out)
  case (Cons ram rams)
  then obtain o1 where o1: "map_ram_range k u res ram out = Inr o1" "map_ram_ranges k u res rams o1 = Inr y"
    by (auto simp: and_then_eq_Inr)
  then obtain c o2 where "scan_reserved k u ram res (range_start ram) out = Inr (c, o2)"
    "(if c < range_end ram then push_usable k u (span c (range_end ram)) o2 else Inr o2) = Inr o1"
    by (auto simp: map_ram_range_def and_then_eq_Inr)
  then have "map_ram_range k' u' res ram out = Inr o1"
    using scan_reserved_mono [OF assms] push_usable_mono [OF _ assms] by (auto simp: map_ram_range_def and_then_eq_Inr split: if_splits)
  then show ?case using Cons.IH [OF o1(2)] by simp
qed simp

lemma map_ram_ranges_sound:
  assumes "sorted (map range_start res)" "sorted (map range_start rams)"
    and "\<forall>ram\<in>set rams. range_start ram < range_end ram \<and> range_end ram + (PAGE_SIZE - 1) \<le> usize_max"
    and "map_ram_ranges k u res rams ([], []) = Inr (regions, us)"
  shows "maps_free res rams us"
proof -
  let ?k = "max k (length rams * (2 * length res + 1))" and ?u = "max u (length rams * (length res + 1))"
  have "maps_free res [] []" by (simp add: maps_free_def frames_ok_def separated_def)
  then obtain regions' us' where r: "map_ram_ranges ?k ?u res rams ([], []) = Inr (regions', us')" "maps_free res rams us'"
    using map_ram_ranges_ok [of res "[]" rams "([], [])" ?k ?u] assms(1-3) by auto
  moreover have "map_ram_ranges ?k ?u res rams ([], []) = Inr (regions, us)"
    by (rule map_ram_ranges_mono [OF _ _ assms(4)]) simp_all
  ultimately show ?thesis by simp
qed

text \<open>
  C30. The usable frames are exactly the free whole pages of RAM. For RAM and reserved ranges in
  address order, RAM not in the last page of the address space and output tables with room, the map
  is built or refused for lack of RAM. If it is built the usable ranges are page aligned, in order,
  apart from each other, inside RAM and clear of every reserved range, and every page of a RAM range
  that no reserved range touches is in them; if it is refused there is no such page.
\<close>

theorem memory_map_exact:
  assumes "sorted (map range_start rams)" "sorted (map range_start reserved)"
    and "\<forall>ram\<in>set rams. range_start ram < range_end ram \<and> range_end ram + (PAGE_SIZE - 1) \<le> usize_max"
    and "length rams * (2 * length reserved + 1) \<le> region_room" "length rams * (length reserved + 1) \<le> usable_room"
  shows "case build_memory_map region_room usable_room rams reserved ([], []) of
      Inl e \<Rightarrow> e = NoUsableRam \<and> (\<forall>ram\<in>set rams. \<forall>p. PAGE_SIZE dvd p \<longrightarrow> \<not> page p \<subseteq> range_set ram - cover reserved)
    | Inr (regions, us) \<Rightarrow> frames_ok us \<and> us \<noteq> [] \<and> cover us \<subseteq> cover rams - cover reserved \<and>
        (\<forall>ram\<in>set rams. \<forall>p. PAGE_SIZE dvd p \<longrightarrow> page p \<subseteq> range_set ram - cover reserved \<longrightarrow> page p \<subseteq> cover us)"
proof -
  have "maps_free reserved [] []" by (simp add: maps_free_def frames_ok_def separated_def)
  then obtain regions us where r: "map_ram_ranges region_room usable_room reserved rams ([], []) = Inr (regions, us)" "maps_free reserved rams us"
    using map_ram_ranges_ok [of reserved "[]" rams "([], [])" region_room usable_room] assms by auto
  show ?thesis
  proof (cases "us = []")
    case True
    have "page p \<noteq> {}" for p by (simp add: page_def PAGE_SIZE_def)
    then show ?thesis using r True by (auto simp: build_memory_map_def maps_free_def)
  next
    case False
    then show ?thesis using r by (simp add: build_memory_map_def maps_free_def)
  qed
qed

theorem memory_map_exact_witness:
  "case build_memory_map 64 32 [span 4096 65536] [span 8192 10000] ([], []) of
     Inl e \<Rightarrow> False
   | Inr (regions, us) \<Rightarrow> us = [span 4096 8192, span 12288 65536] \<and> frames_ok us \<and> cover us \<subseteq> {4096..<65536} - {8192..<10000}"
proof -
  have b: "build_memory_map 64 32 [span 4096 65536] [span 8192 10000] ([], []) =
      Inr ([\<lparr>region_range = span 4096 8192, region_kind = Usable\<rparr>, \<lparr>region_range = span 8192 10000, region_kind = Reserved\<rparr>,
        \<lparr>region_range = span 10000 65536, region_kind = Usable\<rparr>], [span 4096 8192, span 12288 65536])" by code_simp
  from memory_map_exact [of "[span 4096 65536]" "[span 8192 10000]" 64 32] show ?thesis
    unfolding b by (simp add: PAGE_SIZE_def usize_max_def)
qed

text \<open>
  C31. Normalising the reserved ranges changes nothing but their presentation: sorting in place is
  the stable sort by start address, and the in-place merge afterwards leaves as its prefix ranges in
  address order, apart from each other, that cover the same addresses.
\<close>

theorem reserved_normalised:
  assumes "list_all (\<lambda>r. range_start r < range_end r) reserved" "merge_ranges (sort_ranges reserved) = (ranges, n)"
  shows "sort_ranges reserved = sort_key range_start reserved \<and> n \<le> length reserved \<and>
    separated (take n ranges) \<and> cover (take n ranges) = cover reserved"
proof -
  have s: "sorted (map range_start (sort_ranges reserved))" "set (sort_ranges reserved) = set reserved"
    "list_all (\<lambda>r. range_start r < range_end r) (sort_ranges reserved)" "length (sort_ranges reserved) = length reserved"
    using assms(1) by (simp_all add: sort_ranges_eq list_all_iff)
  have c: "cover (sort_ranges reserved) = cover reserved" using s(2) by (simp add: cover_def)
  show ?thesis using merge_sorted [OF s(1,3), of "[]"] merge_ranges_eq [OF assms(2)] sort_ranges_eq s(4) c
    by (simp add: separated_def)
qed

theorem reserved_normalised_witness:
  "\<exists>ranges n. merge_ranges (sort_ranges [span 30 40, span 10 20, span 15 30]) = (ranges, n) \<and> n = 1 \<and>
     cover (take n ranges) = {30..<40} \<union> ({10..<20} \<union> {15..<30})"
proof -
  have m: "merge_ranges (sort_ranges [span 30 40, span 10 20, span 15 30]) = ([span 10 40, span 15 30, span 30 40], 1)" by code_simp
  from reserved_normalised [OF _ m] show ?thesis unfolding m by simp
qed

end
