(* ===== verification/Frame_Alloc.thy ===== *)
theory Frame_Alloc
  imports Mem_Types
begin

text \<open>
  The physical frame allocator (\<^verbatim>\<open>kernel/src/memory/frame_alloc.rs\<close>) with the storage policy of
  \<^verbatim>\<open>kernel/src/memory/mod.rs\<close>: the free frames form a list sorted by address whose links are stored in
  the frames themselves. The memory the links live in is the map \<open>links\<close>. A traversal of a broken list need
  not end, so the loops are partial functions; \<open>None\<close> is a panic or an endless traversal. The
  debug assertions are panics.
\<close>

unbundle bit_operations_syntax

section \<open>Storage\<close>

type_synonym links = "usize \<Rightarrow> usize"

definition free_list_end :: usize where
  "free_list_end = usize_max"

definition read_next_free_frame :: "usize \<Rightarrow> links \<Rightarrow> usize" where
  "read_next_free_frame frame l = l frame"

definition write_next_free_frame :: "usize \<Rightarrow> usize \<Rightarrow> links \<Rightarrow> links" where
  "write_next_free_frame frame n l = l(frame := n)"

definition next_free :: "links \<Rightarrow> usize \<Rightarrow> usize option" where
  "next_free l frame = (let raw = read_next_free_frame frame l in if raw \<noteq> free_list_end then Some raw else None)"

definition link_to :: "usize option \<Rightarrow> usize" where
  "link_to n = (case n of None \<Rightarrow> free_list_end | Some x \<Rightarrow> x)"

record frame_allocator =
  fa_head :: "usize option"
  fa_page_size :: usize
  fa_total_frames :: usize
  fa_free_frames :: usize

definition fa_new :: frame_allocator where
  "fa_new = \<lparr>fa_head = None, fa_page_size = 0, fa_total_frames = 0, fa_free_frames = 0\<rparr>"

section \<open>Insertion\<close>

partial_function (option) insert_loop :: "links \<Rightarrow> usize \<Rightarrow> usize \<Rightarrow> links option" where
  [code]: "insert_loop l frame prev =
     (let n = next_free l prev in
      if (case n of None \<Rightarrow> True | Some candidate \<Rightarrow> frame < candidate)
      then Some (write_next_free_frame prev frame (write_next_free_frame frame (link_to n) l))
      else insert_loop l frame (the n))"

definition insert_frame_sorted :: "usize \<Rightarrow> frame_allocator \<times> links \<Rightarrow> (frame_allocator \<times> links) option" where
  "insert_frame_sorted frame = (\<lambda>(a, l).
     case fa_head a of
       None \<Rightarrow>
         Some (a\<lparr>fa_head := Some frame, fa_free_frames := fa_free_frames a + 1\<rparr>, write_next_free_frame frame free_list_end l)
     | Some head \<Rightarrow>
         if frame < head
         then Some (a\<lparr>fa_head := Some frame, fa_free_frames := fa_free_frames a + 1\<rparr>, write_next_free_frame frame head l)
         else do {
           l \<leftarrow> insert_loop l frame head;
           Some (a\<lparr>fa_free_frames := fa_free_frames a + 1\<rparr>, l)
         })"

partial_function (option) fill_range ::
  "usize \<Rightarrow> usize \<Rightarrow> usize \<Rightarrow> frame_allocator \<times> links \<Rightarrow> (frame_allocator \<times> links) option" where
  [code]: "fill_range start page_size frame st =
     (if frame \<le> start then Some st
      else do {
        panic_if (frame < page_size);
        st \<leftarrow> insert_frame_sorted (frame - page_size) st;
        fill_range start page_size (frame - page_size) st
      })"

fun fill_ranges :: "addr_range list \<Rightarrow> usize \<Rightarrow> frame_allocator \<times> links \<Rightarrow> (frame_allocator \<times> links) option" where
  "fill_ranges [] page_size st = Some st"
| "fill_ranges (r # rs) page_size st = do {
     st \<leftarrow> fill_range (range_start r) page_size (range_end r) st;
     fill_ranges rs page_size st
   }"

definition init_from_ranges :: "addr_range list \<Rightarrow> usize \<Rightarrow> frame_allocator \<times> links \<Rightarrow> (frame_allocator \<times> links) option" where
  "init_from_ranges ranges page_size = (\<lambda>(a, l). do {
     (a, l) \<leftarrow> fill_ranges (rev ranges) page_size (fa_new\<lparr>fa_page_size := page_size\<rparr>, l);
     Some (a\<lparr>fa_total_frames := fa_free_frames a\<rparr>, l)
   })"

section \<open>Allocation\<close>

definition alloc_frame :: "frame_allocator \<times> links \<Rightarrow> usize option \<times> frame_allocator \<times> links" where
  "alloc_frame = (\<lambda>(a, l).
     case fa_head a of
       None \<Rightarrow> (None, a, l)
     | Some frame \<Rightarrow> (Some frame, a\<lparr>fa_head := next_free l frame, fa_free_frames := fa_free_frames a - 1\<rparr>, l))"

text \<open>The variables of the search for a contiguous run.\<close>

record run_search =
  rs_prev :: "usize option"
  rs_previous_frame :: "usize option"
  rs_candidate_prev :: "usize option"
  rs_start :: "usize option"
  rs_end :: "usize option"
  rs_len :: usize

definition run_search_new :: run_search where
  "run_search_new = \<lparr>rs_prev = None, rs_previous_frame = None, rs_candidate_prev = None, rs_start = None, rs_end = None, rs_len = 0\<rparr>"

definition run_step :: "usize \<Rightarrow> usize \<Rightarrow> usize \<Rightarrow> run_search \<Rightarrow> run_search" where
  "run_step page_size align frame st =
     (let contiguous = (case rs_previous_frame st of Some final \<Rightarrow> frame = final + page_size | None \<Rightarrow> False);
          st = (if contiguous then st else st\<lparr>rs_candidate_prev := None, rs_start := None, rs_end := None, rs_len := 0\<rparr>)
      in if rs_start st = None \<and> frame AND (align - 1) = 0
         then st\<lparr>rs_candidate_prev := rs_prev st, rs_start := Some frame, rs_end := Some frame, rs_len := 1\<rparr>
         else if rs_start st \<noteq> None then st\<lparr>rs_end := Some frame, rs_len := rs_len st + 1\<rparr>
         else st)"

text \<open>The search ends with the state of the run it found and the frame after it.\<close>

partial_function (option) search_run ::
  "links \<Rightarrow> usize \<Rightarrow> usize \<Rightarrow> usize \<Rightarrow> usize option \<Rightarrow> run_search \<Rightarrow> (run_search \<times> usize option) option option" where
  [code]: "search_run l frames page_size align current st =
     (case current of
        None \<Rightarrow> Some None
      | Some frame \<Rightarrow>
          let n = next_free l frame; st = run_step page_size align frame st in
          if rs_len st = frames then Some (Some (st, n))
          else search_run l frames page_size align n (st\<lparr>rs_prev := Some frame, rs_previous_frame := Some frame\<rparr>))"

fun is_power_of_two :: "usize \<Rightarrow> bool" where
  "is_power_of_two n = (if n = 0 then False else if n = 1 then True else even n \<and> is_power_of_two (n div 2))"

declare is_power_of_two.simps [simp del]

definition alloc_contiguous_aligned ::
  "usize \<Rightarrow> usize \<Rightarrow> usize \<Rightarrow> frame_allocator \<times> links \<Rightarrow> (addr_range option \<times> frame_allocator \<times> links) option" where
  "alloc_contiguous_aligned frames page_size align = (\<lambda>(a, l).
     if frames = 0 \<or> align < page_size \<or> \<not> is_power_of_two align then Some (None, a, l)
     else do {
       found \<leftarrow> search_run l frames page_size align (fa_head a) run_search_new;
       case found of
         None \<Rightarrow> Some (None, a, l)
       | Some (st, n) \<Rightarrow> do {
           let (a, l) = (case rs_candidate_prev st of
               Some before_run \<Rightarrow> (a, write_next_free_frame before_run (link_to n) l)
             | None \<Rightarrow> (a\<lparr>fa_head := n\<rparr>, l));
           let a = a\<lparr>fa_free_frames := fa_free_frames a - frames\<rparr>;
           s \<leftarrow> rs_start st;
           e \<leftarrow> rs_end st;
           e \<leftarrow> checked_add_usize e page_size;
           Some (Some \<lparr>range_start = s, range_end = e\<rparr>, a, l)
         }
     })"

definition alloc_contiguous ::
  "usize \<Rightarrow> usize \<Rightarrow> frame_allocator \<times> links \<Rightarrow> (addr_range option \<times> frame_allocator \<times> links) option" where
  "alloc_contiguous frames page_size st = alloc_contiguous_aligned frames page_size page_size st"

section \<open>Release\<close>

text \<open>The last free frame below \<open>start\<close> and the first one not below it.\<close>

partial_function (option) find_slot :: "links \<Rightarrow> usize \<Rightarrow> usize option \<Rightarrow> usize option \<Rightarrow> (usize option \<times> usize option) option" where
  [code]: "find_slot l start prev current =
     (case current of
        None \<Rightarrow> Some (prev, None)
      | Some frame \<Rightarrow> if start \<le> frame then Some (prev, current) else find_slot l start (Some frame) (next_free l frame))"

text \<open>Links the frames of the block from its end down to \<open>start\<close>.\<close>

partial_function (option) link_block :: "usize \<Rightarrow> usize \<Rightarrow> usize \<Rightarrow> usize \<Rightarrow> links \<Rightarrow> links option" where
  [code]: "link_block start page_size frame n l =
     (if frame \<le> start then Some l
      else do {
        panic_if (frame < page_size);
        link_block start page_size (frame - page_size) (frame - page_size) (write_next_free_frame (frame - page_size) n l)
      })"

definition free_contiguous :: "addr_range \<Rightarrow> usize \<Rightarrow> frame_allocator \<times> links \<Rightarrow> (frame_allocator \<times> links) option" where
  "free_contiguous r page_size = (\<lambda>(a, l).
     if range_end r \<le> range_start r then Some (a, l)
     else do {
       panic_if (page_size = 0 \<or> range_start r mod page_size \<noteq> 0 \<or> range_end r mod page_size \<noteq> 0);
       let frame_count = (range_end r - range_start r) div page_size;
       panic_if (frame_count = 0);
       (prev, current) \<leftarrow> find_slot l (range_start r) None (fa_head a);
       panic_if (\<not> (case prev of None \<Rightarrow> True | Some frame \<Rightarrow> frame < range_start r));
       panic_if (\<not> (case current of None \<Rightarrow> True | Some frame \<Rightarrow> range_end r \<le> frame));
       l \<leftarrow> link_block (range_start r) page_size (range_end r) (link_to current) l;
       let (a, l) = (case prev of
           Some before_range \<Rightarrow> (a, write_next_free_frame before_range (range_start r) l)
         | None \<Rightarrow> (a\<lparr>fa_head := Some (range_start r)\<rparr>, l));
       Some (a\<lparr>fa_free_frames := fa_free_frames a + frame_count\<rparr>, l)
     })"

definition free_frame :: "usize \<Rightarrow> frame_allocator \<times> links \<Rightarrow> (frame_allocator \<times> links) option" where
  "free_frame frame = (\<lambda>(a, l). do {
     panic_if (fa_page_size a = 0);
     e \<leftarrow> checked_add_usize frame (fa_page_size a);
     free_contiguous \<lparr>range_start = frame, range_end = e\<rparr> (fa_page_size a) (a, l)
   })"

section \<open>Linked lists in memory\<close>

text \<open>The links lead from \<open>h\<close> through the frames \<open>xs\<close> to \<open>t\<close>.\<close>

fun seg :: "links \<Rightarrow> usize option \<Rightarrow> usize list \<Rightarrow> usize option \<Rightarrow> bool" where
  "seg l h [] t \<longleftrightarrow> h = t"
| "seg l h (x # xs) t \<longleftrightarrow> h = Some x \<and> seg l (next_free l x) xs t"

abbreviation first :: "usize list \<Rightarrow> usize option \<Rightarrow> usize option" where
  "first xs t \<equiv> (case xs of [] \<Rightarrow> t | x # _ \<Rightarrow> Some x)"

lemma seg_append: "seg l h (xs @ ys) t \<longleftrightarrow> seg l h xs (first ys t) \<and> seg l (first ys t) ys t"
  by (induction xs arbitrary: h) (auto split: list.split)

lemma seg_first: "seg l h xs t \<Longrightarrow> h = first xs t"
  by (cases xs) simp_all

lemma seg_unchanged:
  "(\<And>x. x \<in> set xs \<Longrightarrow> l' x = l x) \<Longrightarrow> seg l' h xs t = seg l h xs t"
  by (induction xs arbitrary: h) (auto simp: next_free_def read_next_free_frame_def)

lemma seg_write_other [simp]: "x \<notin> set xs \<Longrightarrow> seg (write_next_free_frame x v l) h xs t = seg l h xs t"
  by (rule seg_unchanged) (auto simp: write_next_free_frame_def)

lemma next_free_write [simp]:
  "n \<noteq> Some free_list_end \<Longrightarrow> next_free (write_next_free_frame x (link_to n) l) x = n"
  "x \<noteq> y \<Longrightarrow> next_free (write_next_free_frame x v l) y = next_free l y"
  by (auto simp: next_free_def write_next_free_frame_def read_next_free_frame_def link_to_def split: option.splits)

text \<open>Redirecting the last frame of a segment continues it elsewhere.\<close>

lemma seg_redirect:
  assumes "seg l h (xs @ [x]) t" "seg l n ys None" "x \<notin> set xs" "x \<notin> set ys" "n \<noteq> Some free_list_end"
  shows "seg (write_next_free_frame x (link_to n) l) h (xs @ x # ys) None"
  using assms by (auto simp: seg_append)

end
