(* ===== verification/Frame_Alloc_Ok.thy ===== *)
theory Frame_Alloc_Ok
  imports Frame_Alloc
begin

text \<open>
  The frame allocator keeps a sorted list of distinct frames: every operation ends and does to the
  set of free frames what it promises.
\<close>

section \<open>Invariant\<close>

definition frame_ok :: "usize \<Rightarrow> usize \<Rightarrow> bool" where
  "frame_ok pg x \<longleftrightarrow> pg dvd x \<and> x + pg \<le> usize_max"

text \<open>The free frames of a state, in list order.\<close>

definition frees :: "usize \<Rightarrow> frame_allocator \<times> links \<Rightarrow> usize list \<Rightarrow> bool" where
  "frees pg st xs \<longleftrightarrow> 0 < pg \<and> fa_page_size (fst st) = pg \<and> seg (snd st) (fa_head (fst st)) xs None \<and> sorted xs \<and> distinct xs \<and>
     (\<forall>x\<in>set xs. frame_ok pg x) \<and> fa_free_frames (fst st) = length xs"

lemma freesD:
  assumes "frees pg (a, l) xs"
  shows "0 < pg" "fa_page_size a = pg" "seg l (fa_head a) xs None" "sorted xs" "distinct xs" "\<And>x. x \<in> set xs \<Longrightarrow> frame_ok pg x"
    "fa_free_frames a = length xs"
  using assms by (simp_all add: frees_def)

lemma frame_not_end: "0 < pg \<Longrightarrow> frame_ok pg x \<Longrightarrow> x \<noteq> free_list_end"
  by (auto simp: frame_ok_def free_list_end_def)

text \<open>The list is determined by the state, and its order by its elements.\<close>

lemma seg_unique: "seg l h xs None \<Longrightarrow> seg l h ys None \<Longrightarrow> xs = ys"
proof (induction xs arbitrary: h ys)
  case Nil
  then show ?case by (cases ys) auto
next
  case (Cons x xs)
  then show ?case by (cases ys) auto
qed

section \<open>Insertion\<close>

lemma insert_loop_ok:
  assumes "seg l (Some prev) (prev # xs) None" "sorted (prev # xs)" "distinct (prev # xs)" "prev < frame" "frame \<notin> set xs"
    and "\<forall>x\<in>set xs. x \<noteq> free_list_end" "frame \<noteq> free_list_end"
  shows "\<exists>l'. insert_loop l frame prev = Some l' \<and> seg l' (Some prev) (prev # insort frame xs) None \<and>
    (\<forall>y. y \<notin> set (frame # prev # xs) \<longrightarrow> l' y = l y)"
  using assms
proof (induction xs arbitrary: prev)
  case Nil
  have frame: "link_to (Some frame) = frame" by (simp add: link_to_def)
  have "seg (write_next_free_frame prev frame (write_next_free_frame frame (link_to None) l)) (Some prev) [prev, frame] None"
    using Nil next_free_write(1) [of "Some frame" prev] by (simp add: frame)
  then show ?case using Nil by (subst insert_loop.simps) (auto simp: write_next_free_frame_def)
next
  case (Cons x xs)
  have frame: "link_to (Some frame) = frame" by (simp add: link_to_def)
  have nx: "next_free l prev = Some x" using Cons.prems(1) by simp
  show ?case
  proof (cases "frame < x")
    case True
    let ?l = "write_next_free_frame prev frame (write_next_free_frame frame (link_to (Some x)) l)"
    have "seg ?l (Some prev) (prev # frame # x # xs) None"
      using Cons.prems next_free_write(1) [of "Some frame" prev] by (auto simp: frame)
    moreover have "insort frame (x # xs) = frame # x # xs" using True by simp
    ultimately show ?thesis using True nx by (subst insert_loop.simps) (auto simp: write_next_free_frame_def)
  next
    case False
    have neq: "frame \<noteq> x" using Cons.prems(5) by simp
    have "seg l (Some x) (x # xs) None" "sorted (x # xs)" "distinct (x # xs)" "x < frame" "frame \<notin> set xs"
      "\<forall>y\<in>set xs. y \<noteq> free_list_end"
      using Cons.prems False neq by auto
    from Cons.IH [OF this Cons.prems(7)] obtain l' where l': "insert_loop l frame x = Some l'" "seg l' (Some x) (x # insort frame xs) None"
      "\<forall>y. y \<notin> set (frame # x # xs) \<longrightarrow> l' y = l y" by blast
    have "l' prev = l prev" using l'(3) Cons.prems(3,4) by auto
    then have "next_free l' prev = Some x" using nx by (simp add: next_free_def read_next_free_frame_def)
    moreover have "insert_loop l frame prev = Some l'" using False nx l'(1) by (subst insert_loop.simps) simp
    ultimately show ?thesis using l' False neq by auto
  qed
qed

lemma insert_frame_ok:
  assumes st: "frees pg st xs" and frame: "frame_ok pg frame" "frame \<notin> set xs"
  shows "\<exists>st'. insert_frame_sorted frame st = Some st' \<and> frees pg st' (insort frame xs)"
proof -
  obtain a l where al: "st = (a, l)" by (cases st)
  note d = freesD [OF st [unfolded al]]
  have ne: "frame \<noteq> free_list_end" "\<forall>x\<in>set xs. x \<noteq> free_list_end" using frame_not_end [OF d(1)] frame(1) d(6) by blast+
  have "\<exists>a' l'. insert_frame_sorted frame (a, l) = Some (a', l') \<and> fa_page_size a' = pg \<and>
    seg l' (fa_head a') (insort frame xs) None \<and> fa_free_frames a' = length xs + 1"
  proof (cases xs)
    case Nil
    then show ?thesis using d next_free_write(1) [of None frame l]
      by (auto simp: insert_frame_sorted_def link_to_def)
  next
    case (Cons x ys)
    have h: "fa_head a = Some x" using d(3) Cons by simp
    show ?thesis
    proof (cases "frame < x")
      case True
      have "next_free (write_next_free_frame frame x l) frame = Some x"
        using next_free_write(1) [of "Some x" frame l] ne Cons by (simp add: link_to_def)
      then show ?thesis using True h d frame(2) Cons by (auto simp: insert_frame_sorted_def)
    next
      case False
      then have "x < frame" using frame(2) Cons by auto
      then obtain l' where "insert_loop l frame x = Some l'" "seg l' (Some x) (x # insort frame ys) None"
        using insert_loop_ok [of l x ys frame] d frame(2) ne Cons h by auto
      then show ?thesis using False h d Cons \<open>x < frame\<close> by (auto simp: insert_frame_sorted_def)
    qed
  qed
  then show ?thesis using d frame al by (auto simp: frees_def sorted_insort distinct_insort set_insort_key)
qed

section \<open>Blocks of frames\<close>

definition block :: "usize \<Rightarrow> usize \<Rightarrow> nat \<Rightarrow> usize list" where
  "block pg s n = map (\<lambda>i. s + i * pg) [0 ..< n]"

definition frame_set :: "usize \<Rightarrow> addr_range \<Rightarrow> usize set" where
  "frame_set pg r = {x. pg dvd x \<and> range_start r \<le> x \<and> x < range_end r}"

text \<open>Page-aligned ranges that end in the address space.\<close>

definition aligned_range :: "usize \<Rightarrow> addr_range \<Rightarrow> bool" where
  "aligned_range pg r \<longleftrightarrow> 0 < pg \<and> pg dvd range_start r \<and> pg dvd range_end r \<and> range_start r < range_end r \<and> range_end r \<le> usize_max"

lemma block_Suc: "block pg s (Suc n) = block pg s n @ [s + n * pg]"
  by (simp add: block_def)

lemma length_block [simp]: "length (block pg s n) = n"
  by (simp add: block_def)

lemma sorted_block: "0 < pg \<Longrightarrow> sorted (block pg s n) \<and> distinct (block pg s n)"
  by (induction n) (auto simp: block_Suc sorted_append block_def)

lemma set_block:
  assumes "0 < pg" "pg dvd s"
  shows "set (block pg s n) = {x. pg dvd x \<and> s \<le> x \<and> x < s + n * pg}"
proof (rule set_eqI)
  fix x
  have "x \<in> set (block pg s n)" if x: "pg dvd x" "s \<le> x" "x < s + n * pg"
  proof -
    obtain i where i: "x - s = i * pg" using assms(2) x(1) by (metis dvd_diff_nat dvd_def mult.commute)
    then have "x = s + i * pg" using x(2) by simp
    moreover then have "i < n" using x(3) assms(1) by simp
    ultimately show ?thesis by (auto simp: block_def)
  qed
  moreover have "s \<le> x \<and> pg dvd x \<and> x < s + n * pg" if "x \<in> set (block pg s n)" using that assms by (auto simp: block_def)
  ultimately show "x \<in> set (block pg s n) \<longleftrightarrow> x \<in> {x. pg dvd x \<and> s \<le> x \<and> x < s + n * pg}" by blast
qed

text \<open>An aligned range is a block.\<close>

lemma aligned_rangeE:
  assumes "aligned_range pg r"
  obtains n where "0 < n" "range_end r = range_start r + n * pg" "frame_set pg r = set (block pg (range_start r) n)"
    "\<And>x. x \<in> frame_set pg r \<Longrightarrow> frame_ok pg x" "(range_end r - range_start r) div pg = n" "card (frame_set pg r) = n"
proof -
  have r: "0 < pg" "pg dvd range_start r" "pg dvd range_end r" "range_start r < range_end r" "range_end r \<le> usize_max"
    using assms by (simp_all add: aligned_range_def)
  obtain n where n: "range_end r - range_start r = n * pg" using r(2,3) by (metis dvd_diff_nat dvd_def mult.commute)
  then have e: "range_end r = range_start r + n * pg" using r(4) by linarith
  have fs: "frame_set pg r = set (block pg (range_start r) n)" using set_block [OF r(1,2), of n] e by (simp add: frame_set_def)
  have "frame_ok pg x" if "x \<in> frame_set pg r" for x
  proof -
    have x: "pg dvd x" "x < range_end r" using that by (simp_all add: frame_set_def)
    have "x + pg \<le> range_end r" using x r(3) by (metis dvd_diff_nat dvd_imp_le le_add_diff_inverse less_imp_le_nat nat_add_left_cancel_le zero_less_diff)
    then show ?thesis using x(1) r(5) by (simp add: frame_ok_def)
  qed
  moreover have "card (frame_set pg r) = n" unfolding fs using sorted_block [OF r(1), of "range_start r" n] by (simp add: distinct_card)
  ultimately show thesis using that [of n] e fs n r(1,4) by (cases n) auto
qed

section \<open>Initialisation\<close>

lemma fill_range_ok:
  assumes "frees pg st xs" "\<forall>x\<in>set (block pg s n). frame_ok pg x \<and> x \<notin> set xs" "0 < pg"
  shows "\<exists>st' ys. fill_range s pg (s + n * pg) st = Some st' \<and> frees pg st' ys \<and> set ys = set xs \<union> set (block pg s n)"
  using assms
proof (induction n arbitrary: st xs)
  case 0
  then show ?case by (subst fill_range.simps) (auto simp: block_def)
next
  case (Suc n)
  obtain st1 where st1: "insert_frame_sorted (s + n * pg) st = Some st1" "frees pg st1 (insort (s + n * pg) xs)"
    using insert_frame_ok [OF Suc.prems(1), of "s + n * pg"] Suc.prems(2) by (auto simp: block_Suc)
  have "s + n * pg \<notin> set (block pg s n)" using sorted_block [OF Suc.prems(3), of s "Suc n"] by (simp add: block_Suc)
  then have "\<forall>x\<in>set (block pg s n). frame_ok pg x \<and> x \<notin> set (insort (s + n * pg) xs)"
    using Suc.prems(2) by (auto simp: block_Suc set_insort_key)
  from Suc.IH [OF st1(2) this Suc.prems(3)] obtain st' ys where r: "fill_range s pg (s + n * pg) st1 = Some st'" "frees pg st' ys"
    "set ys = set (insort (s + n * pg) xs) \<union> set (block pg s n)" by blast
  have "fill_range s pg (s + Suc n * pg) st = fill_range s pg (s + n * pg) st1"
    using st1(1) Suc.prems(3) by (subst fill_range.simps) simp
  then show ?case using r by (auto simp: block_Suc set_insort_key)
qed

lemma fill_ranges_ok:
  assumes "frees pg st xs" "\<forall>r\<in>set rs. aligned_range pg r" "sorted_wrt (\<lambda>q r. frame_set pg q \<inter> frame_set pg r = {}) rs"
    "\<forall>r\<in>set rs. frame_set pg r \<inter> set xs = {}"
  shows "\<exists>st' ys. fill_ranges rs pg st = Some st' \<and> frees pg st' ys \<and> set ys = set xs \<union> (\<Union>r\<in>set rs. frame_set pg r)"
  using assms
proof (induction rs arbitrary: st xs)
  case (Cons r rs)
  have "aligned_range pg r" using Cons.prems(2) by simp
  then obtain n where n: "range_end r = range_start r + n * pg" "frame_set pg r = set (block pg (range_start r) n)"
    "\<And>x. x \<in> frame_set pg r \<Longrightarrow> frame_ok pg x" by (rule aligned_rangeE) blast
  have "\<forall>x\<in>set (block pg (range_start r) n). frame_ok pg x \<and> x \<notin> set xs" using n(2,3) Cons.prems(4) by auto
  moreover have "0 < pg" using Cons.prems(1) by (simp add: frees_def)
  ultimately obtain st1 ys where r: "fill_range (range_start r) pg (range_end r) st = Some st1" "frees pg st1 ys" "set ys = set xs \<union> frame_set pg r"
    using fill_range_ok [OF Cons.prems(1)] unfolding n(1,2) by blast
  have "\<forall>q\<in>set rs. frame_set pg q \<inter> set ys = {}" using Cons.prems(3,4) r(3) by auto
  from Cons.IH [OF r(2) _ _ this] Cons.prems(2,3) r show ?case by (auto simp: Un_assoc)
qed auto

lemma init_from_ranges_ok:
  assumes "0 < pg" "\<forall>r\<in>set rs. aligned_range pg r" "sorted_wrt (\<lambda>q r. frame_set pg q \<inter> frame_set pg r = {}) rs"
  shows "\<exists>st' xs. init_from_ranges rs pg st = Some st' \<and> frees pg st' xs \<and> set xs = (\<Union>r\<in>set rs. frame_set pg r) \<and>
    fa_total_frames (fst st') = length xs"
proof -
  obtain a l where al: "st = (a, l)" by (cases st)
  have "frees pg (fa_new\<lparr>fa_page_size := pg\<rparr>, l) []" using assms(1) by (simp add: frees_def fa_new_def)
  moreover have "sorted_wrt (\<lambda>q r. frame_set pg q \<inter> frame_set pg r = {}) (rev rs)"
    using assms(3) by (simp add: sorted_wrt_rev Int_commute)
  ultimately obtain a' l' xs where "fill_ranges (rev rs) pg (fa_new\<lparr>fa_page_size := pg\<rparr>, l) = Some (a', l')" "frees pg (a', l') xs"
    "set xs = (\<Union>r\<in>set rs. frame_set pg r)"
    using fill_ranges_ok [of pg "(fa_new\<lparr>fa_page_size := pg\<rparr>, l)" "[]" "rev rs"] assms(2) by auto
  then show ?thesis using al by (auto simp: init_from_ranges_def frees_def)
qed

section \<open>Single frames\<close>

lemma alloc_frame_ok:
  assumes "frees pg st xs"
  shows "xs = [] \<Longrightarrow> alloc_frame st = (None, st)"
    "xs = x # ys \<Longrightarrow> \<exists>st'. alloc_frame st = (Some x, st') \<and> frees pg st' ys"
proof -
  obtain a l where al: "st = (a, l)" by (cases st)
  note d = freesD [OF assms [unfolded al]]
  show "alloc_frame st = (None, st)" if "xs = []" using that d al by (simp add: alloc_frame_def)
  show "\<exists>st'. alloc_frame st = (Some x, st') \<and> frees pg st' ys" if "xs = x # ys"
    using that d al by (auto simp: alloc_frame_def frees_def)
qed

section \<open>Release\<close>

lemma find_slot_ok:
  assumes "seg l h (xs @ ys) None" "\<forall>x\<in>set xs. x < s" "\<forall>y\<in>set ys. s \<le> y"
  shows "find_slot l s prev h = Some (if xs = [] then prev else Some (last xs), first ys None)"
  using assms
proof (induction xs arbitrary: h prev)
  case Nil
  then show ?case by (subst find_slot.simps) (auto split: list.splits)
next
  case (Cons x xs)
  then show ?case by (subst find_slot.simps) auto
qed

lemma link_block_ok:
  assumes "0 < pg" "t \<noteq> Some free_list_end" "\<forall>x\<in>set (block pg s n). x \<noteq> free_list_end"
  shows "\<exists>l'. link_block s pg (s + n * pg) (link_to t) l = Some l' \<and> seg l' (first (block pg s n) t) (block pg s n) t \<and>
    (\<forall>y. y \<notin> set (block pg s n) \<longrightarrow> l' y = l y)"
  using assms
proof (induction n arbitrary: l t)
  case 0
  then show ?case by (subst link_block.simps) (simp add: block_def)
next
  case (Suc n)
  let ?f = "s + n * pg" let ?l = "write_next_free_frame (s + n * pg) (link_to t) l"
  have nin: "?f \<notin> set (block pg s n)" using sorted_block [OF Suc.prems(1), of s "Suc n"] by (simp add: block_Suc)
  have "Some ?f \<noteq> Some free_list_end" "\<forall>x\<in>set (block pg s n). x \<noteq> free_list_end" using Suc.prems(3) by (simp_all add: block_Suc)
  from Suc.IH [OF Suc.prems(1) this, of ?l] obtain l' where l': "link_block s pg (s + n * pg) ?f ?l = Some l'"
    "seg l' (first (block pg s n) (Some ?f)) (block pg s n) (Some ?f)" "\<forall>y. y \<notin> set (block pg s n) \<longrightarrow> l' y = ?l y"
    by (auto simp: link_to_def)
  have "link_block s pg (s + Suc n * pg) (link_to t) l = Some l'"
    using l'(1) Suc.prems(1) by (subst link_block.simps) simp
  moreover have "next_free l' ?f = t"
    using l'(3) nin next_free_write(1) [OF Suc.prems(2), of ?f l] by (simp add: next_free_def read_next_free_frame_def)
  ultimately show ?case using l'(2,3) by (auto simp: block_Suc seg_append write_next_free_frame_def split: list.splits)
qed

lemma sorted_split:
  assumes "sorted xs"
  shows "xs = filter (\<lambda>x. x < s) xs @ filter (\<lambda>x. s \<le> x) xs"
  using assms
proof (induction xs)
  case (Cons x xs)
  have "filter (\<lambda>y. y < s) xs = []" if "s \<le> x" using Cons.prems that by (auto simp: filter_empty_conv)
  moreover have "filter (\<lambda>y. s \<le> y) xs = xs" if "s \<le> x" using Cons.prems that by (auto simp: filter_id_conv)
  ultimately show ?case using Cons by (cases "x < s") auto
qed simp

lemma sorted_splitE:
  fixes xs :: "usize list"
  assumes "sorted xs"
  obtains as bs where "xs = as @ bs" "\<forall>x\<in>set as. x < s" "\<forall>x\<in>set bs. s \<le> x"
  by (rule that [OF sorted_split [OF assms, of s]]) simp_all

text \<open>Splicing a linked block between the parts \<open>as\<close> and \<open>bs\<close> of the list.\<close>

lemma splice_block:
  assumes sg: "seg l h (as @ bs) None" and B: "seg l' (first B (first bs None)) B (first bs None)" "B \<noteq> []"
    and same: "\<And>y. y \<notin> set B \<Longrightarrow> l' y = l y" and dist: "distinct (as @ B @ bs)" and ne: "hd B \<noteq> free_list_end"
  shows "seg (if as = [] then l' else write_next_free_frame (last as) (hd B) l') (if as = [] then Some (hd B) else h) (as @ B @ bs) None"
proof -
  have parts: "seg l h as (first bs None)" "seg l (first bs None) bs None" using sg by (simp_all add: seg_append)
  have "l' y = l y" if "y \<in> set as \<union> set bs" for y using that dist by (intro same) auto
  then have as: "seg l' h as (first bs None)" and bs: "seg l' (first bs None) bs None"
    using parts seg_unchanged [of as l' l] seg_unchanged [of bs l' l] by auto
  have hd: "first B t = Some (hd B)" for t using B(2) by (cases B) simp_all
  have tail: "seg l' (Some (hd B)) (B @ bs) None" using B bs hd by (simp add: seg_append)
  show ?thesis
  proof (cases as rule: rev_cases)
    case Nil
    then show ?thesis using tail by simp
  next
    case (snoc pre x)
    have "seg (write_next_free_frame x (link_to (Some (hd B))) l') h (pre @ x # B @ bs) None"
      using as dist ne snoc by (intro seg_redirect [OF _ tail]) auto
    then show ?thesis using snoc by (simp add: link_to_def)
  qed
qed

lemma free_contiguous_ok:
  assumes st: "frees pg st xs" and r: "aligned_range pg r" "frame_set pg r \<inter> set xs = {}"
  shows "\<exists>st' ys. free_contiguous r pg st = Some st' \<and> frees pg st' ys \<and> set ys = set xs \<union> frame_set pg r"
proof -
  obtain a l where al: "st = (a, l)" by (cases st)
  note d = freesD [OF st [unfolded al]]
  obtain n where n: "0 < n" "range_end r = range_start r + n * pg" "frame_set pg r = set (block pg (range_start r) n)"
    "\<And>x. x \<in> frame_set pg r \<Longrightarrow> frame_ok pg x" "(range_end r - range_start r) div pg = n" by (rule aligned_rangeE [OF r(1)]) blast
  have ra: "range_start r mod pg = 0" "range_end r mod pg = 0" "range_start r < range_end r" using r(1) by (auto simp: aligned_range_def)
  let ?s = "range_start r" and ?B = "block pg (range_start r) n"
  obtain as bs where ab: "xs = as @ bs" "\<forall>x\<in>set as. x < ?s" "\<forall>x\<in>set bs. ?s \<le> x"
    using sorted_splitE [OF d(4), of ?s] by blast
  have bs: "range_end r \<le> x" "x \<noteq> free_list_end" if "x \<in> set bs" for x
    using that ab r(2) d(6) [of x] frame_not_end [OF d(1), of x] by (force simp: frame_set_def frame_ok_def)+
  have B: "?B \<noteq> []" "hd ?B = ?s" "\<forall>x\<in>set ?B. ?s \<le> x \<and> x < range_end r \<and> x \<noteq> free_list_end"
    using n(1,3,4) frame_not_end [OF d(1)] by (auto simp: frame_set_def block_def hd_map)
  have t: "first bs None \<noteq> Some free_list_end" using bs(2) by (cases bs) auto
  obtain l' where l': "link_block ?s pg (range_end r) (link_to (first bs None)) l = Some l'" "seg l' (first ?B (first bs None)) ?B (first bs None)"
    "\<And>y. y \<notin> set ?B \<Longrightarrow> l' y = l y" using link_block_ok [OF d(1) t, of ?s n l] B(3) n(2) by auto
  let ?ys = "as @ ?B @ bs"
  have ys: "sorted ?ys" "distinct ?ys" "set ?ys = set xs \<union> frame_set pg r" "length ?ys = length xs + n"
    using sorted_block [OF d(1), of ?s n] d(4,5) ab bs(1) B(3) n(3) r(2) by (fastforce simp: sorted_append)+
  have fs: "find_slot l ?s None (fa_head a) = Some (if as = [] then None else Some (last as), first bs None)"
    using d(3) ab by (intro find_slot_ok) simp_all
  have "\<not> (case first bs None of None \<Rightarrow> False | Some frame \<Rightarrow> frame < range_end r)" using bs(1) by (cases bs) (simp_all add: not_less)
  moreover have "last as < ?s" if "as \<noteq> []" using ab(2) that by simp
  moreover have "seg (if as = [] then l' else write_next_free_frame (last as) ?s l') (if as = [] then Some ?s else fa_head a) ?ys None"
    using splice_block [OF d(3) [unfolded ab(1)] l'(2) B(1) l'(3) ys(2)] hd_in_set [OF B(1)] B(2,3) by (auto split: if_splits)
  ultimately obtain a' l'' where f: "free_contiguous r pg (a, l) = Some (a', l'')" "fa_page_size a' = pg" "seg l'' (fa_head a') ?ys None"
    "fa_free_frames a' = length xs + n"
    using fs l'(1) d n(1,5) ra by (cases "as = []"; cases bs) (auto simp: free_contiguous_def Let_def)
  have "\<forall>x\<in>set ?ys. frame_ok pg x" unfolding ys(3) using d(6) n(4) by blast
  then have "frees pg (a', l'') ?ys" using f ys d(1) by (simp add: frees_def)
  then show ?thesis using f(1) ys(3) al by blast
qed

text \<open>A single frame is given back as the range of one page.\<close>

lemma free_frame_ok:
  assumes st: "frees pg st xs" and f: "frame_ok pg f" "f \<notin> set xs"
  shows "\<exists>st' ys. free_frame f st = Some st' \<and> frees pg st' ys \<and> set ys = insert f (set xs)"
proof -
  let ?r = "\<lparr>range_start = f, range_end = f + pg\<rparr>"
  have pg: "0 < pg" "fa_page_size (fst st) = pg" "pg dvd f" "f + pg \<le> usize_max" using st f(1) by (simp_all add: frees_def frame_ok_def)
  have "x = f" if "pg dvd x" "f \<le> x" "x < f + pg" for x
    using dvd_le_add [OF pg(3) that(1)] that(2,3) by (metis leD le_neq_implies_less)
  then have "frame_set pg ?r \<subseteq> {f}" unfolding frame_set_def addr_range.select_convs by blast
  moreover have "f \<in> frame_set pg ?r" using pg by (simp add: frame_set_def)
  ultimately have fs: "frame_set pg ?r = {f}" by blast
  have "free_frame f st = free_contiguous ?r pg st"
    using pg by (cases st) (simp add: free_frame_def checked_add_usize_def)
  moreover have "aligned_range pg ?r" using pg by (simp add: aligned_range_def)
  ultimately show ?thesis using free_contiguous_ok [OF st, of ?r] fs f(2) by auto
qed

end
