(* ===== verification/Frame_Search.thy ===== *)
theory Frame_Search
  imports Frame_Alloc_Ok
begin

text \<open>
  The search for contiguous frames: it finds an aligned run of free frames whenever there is one and
  takes exactly that run out of the list.
\<close>

section \<open>Stretches of consecutive frames\<close>

text \<open>All frames from \<open>s\<close> to the last one of \<open>ys\<close> are in \<open>ys\<close>.\<close>

definition reaches_last :: "usize \<Rightarrow> usize list \<Rightarrow> usize \<Rightarrow> bool" where
  "reaches_last pg ys s \<longleftrightarrow> s \<in> set ys \<and> (\<forall>x. pg dvd x \<longrightarrow> s \<le> x \<longrightarrow> x \<le> last ys \<longrightarrow> x \<in> set ys)"

definition last_option :: "usize list \<Rightarrow> usize option" where
  "last_option xs = (if xs = [] then None else Some (last xs))"

lemma reaches_last_snoc:
  assumes "0 < pg" "\<forall>y\<in>set ys. pg dvd y \<and> y < f" "pg dvd f" "sorted ys"
  shows "reaches_last pg (ys @ [f]) s \<longleftrightarrow> s = f \<or> (ys \<noteq> [] \<and> f = last ys + pg \<and> reaches_last pg ys s)"
proof (cases "s = f")
  case True
  then show ?thesis by (simp add: reaches_last_def)
next
  case False
  have max: "y \<le> last ys" if "y \<in> set ys" for y using that assms(4) by (cases ys rule: rev_cases) (auto simp: sorted_append)
  have lf: "last ys < f" "pg dvd last ys" if "ys \<noteq> []" using assms(2) that by auto
  show ?thesis
  proof
    assume r: "reaches_last pg (ys @ [f]) s"
    then have s: "s \<in> set ys" "\<forall>x. pg dvd x \<longrightarrow> s \<le> x \<longrightarrow> x \<le> f \<longrightarrow> x \<in> set ys \<or> x = f"
      using False by (auto simp: reaches_last_def)
    have ne: "ys \<noteq> []" using s(1) by auto
    have "last ys + pg \<le> f" using dvd_le_add [OF lf(2) [OF ne] assms(3) lf(1) [OF ne]] .
    moreover have "last ys + pg \<notin> set ys" using max [of "last ys + pg"] assms(1) by auto
    moreover have "pg dvd last ys + pg" "s \<le> last ys + pg" using lf(2) [OF ne] max [OF s(1)] by simp_all
    ultimately have f: "f = last ys + pg" using s(2) [rule_format, of "last ys + pg"] by simp
    have "\<forall>x. pg dvd x \<longrightarrow> s \<le> x \<longrightarrow> x \<le> last ys \<longrightarrow> x \<in> set ys"
      using s(2) lf(1) [OF ne] by (metis le_less_trans less_imp_le less_irrefl)
    then have "reaches_last pg ys s" using s(1) unfolding reaches_last_def by blast
    then show "s = f \<or> (ys \<noteq> [] \<and> f = last ys + pg \<and> reaches_last pg ys s)" using ne f by blast
  next
    assume "s = f \<or> (ys \<noteq> [] \<and> f = last ys + pg \<and> reaches_last pg ys s)"
    then have r: "ys \<noteq> []" "f = last ys + pg" "reaches_last pg ys s" using False by blast+
    have "x \<in> set ys" if "pg dvd x" "s \<le> x" "x \<le> f" "x \<noteq> f" for x
      using that r dvd_le_add [OF lf(2) [OF r(1)] that(1)] by (cases "x \<le> last ys") (auto simp: reaches_last_def)
    then show "reaches_last pg (ys @ [f]) s" using r(3) by (auto simp: reaches_last_def)
  qed
qed

section \<open>The search\<close>

text \<open>What the variables hold after the frames \<open>ys\<close>: the first aligned frame of the current stretch.\<close>

definition search_ok :: "usize \<Rightarrow> usize \<Rightarrow> usize list \<Rightarrow> run_search \<Rightarrow> bool" where
  "search_ok pg al ys st \<longleftrightarrow> rs_prev st = last_option ys \<and> rs_previous_frame st = last_option ys \<and>
     (case rs_start st of
        None \<Rightarrow> rs_len st = 0 \<and> (\<forall>s. reaches_last pg ys s \<longrightarrow> \<not> al dvd s)
      | Some s0 \<Rightarrow> reaches_last pg ys s0 \<and> al dvd s0 \<and> rs_end st = Some (last ys) \<and> last ys + pg = s0 + rs_len st * pg \<and>
          (\<forall>s. reaches_last pg ys s \<longrightarrow> al dvd s \<longrightarrow> s0 \<le> s) \<and> rs_candidate_prev st = last_option (filter (\<lambda>x. x < s0) ys))"

definition visited :: "usize \<Rightarrow> run_search \<Rightarrow> run_search" where
  "visited f st = st\<lparr>rs_prev := Some f, rs_previous_frame := Some f\<rparr>"

lemma power_of_two: "is_power_of_two n \<Longrightarrow> \<exists>k. n = 2 ^ k"
proof (induction n rule: is_power_of_two.induct)
  case (1 n)
  show ?case
  proof (cases "n = 1")
    case True
    then show ?thesis by (intro exI [of _ 0]) simp
  next
    case False
    then have "n \<noteq> 0" "even n" "is_power_of_two (n div 2)" using 1(2) is_power_of_two.simps [of n] by (simp_all split: if_splits)
    then obtain k where "n div 2 = 2 ^ k" using 1(1) False by auto
    then show ?thesis using \<open>even n\<close> by (intro exI [of _ "Suc k"]) auto
  qed
qed

lemma mask_dvd:
  assumes "is_power_of_two al"
  shows "f AND (al - 1) = 0 \<longleftrightarrow> al dvd (f :: nat)"
proof -
  obtain k where k: "al = 2 ^ k" using power_of_two [OF assms] by blast
  have "f mod 2 ^ k = f AND mask k" unfolding take_bit_eq_mod [symmetric] by (rule take_bit_eq_mask)
  then show ?thesis unfolding k by (simp only: mask_eq_exp_minus_1 dvd_eq_mod_eq_0)
qed

lemma run_step_ok:
  assumes st: "search_ok pg al ys st" and al: "is_power_of_two al"
    and f: "0 < pg" "\<forall>y\<in>set ys. pg dvd y \<and> y < f" "pg dvd f" "sorted ys"
  shows "search_ok pg al (ys @ [f]) (visited f (run_step pg al f st))" "rs_len (run_step pg al f st) \<le> Suc (rs_len st)"
proof -
  note r = reaches_last_snoc [OF f]
  have cont: "(case rs_previous_frame st of Some final \<Rightarrow> f = final + pg | None \<Rightarrow> False) \<longleftrightarrow> ys \<noteq> [] \<and> f = last ys + pg"
    using st by (auto simp: search_ok_def last_option_def)
  have below: "filter (\<lambda>x. x < f) (ys @ [f]) = ys" using f(2) by (auto simp: filter_id_conv)
  have prev: "rs_prev st = last_option ys" using st by (simp add: search_ok_def)
  have fresh: "search_ok pg al (ys @ [f]) (visited f (st\<lparr>rs_candidate_prev := rs_prev st, rs_start := Some f, rs_end := Some f, rs_len := 1\<rparr>))"
    if "al dvd f" "\<And>s. reaches_last pg (ys @ [f]) s \<Longrightarrow> al dvd s \<Longrightarrow> s = f"
    using that below prev r [of f] by (auto simp: search_ok_def visited_def last_option_def) 
  have none: "search_ok pg al (ys @ [f]) (visited f (st\<lparr>rs_candidate_prev := c, rs_start := None, rs_end := e, rs_len := 0\<rparr>))"
    if "\<And>s. reaches_last pg (ys @ [f]) s \<Longrightarrow> \<not> al dvd s" for c e
    using that by (auto simp: search_ok_def visited_def last_option_def)
  show "rs_len (run_step pg al f st) \<le> Suc (rs_len st)" by (simp add: run_step_def Let_def)
  show "search_ok pg al (ys @ [f]) (visited f (run_step pg al f st))"
  proof (cases "ys \<noteq> [] \<and> f = last ys + pg")
    case False
    then have only: "reaches_last pg (ys @ [f]) s \<longleftrightarrow> s = f" for s using r by blast
    show ?thesis
    proof (cases "al dvd f")
      case True
      then have "run_step pg al f st = st\<lparr>rs_candidate_prev := rs_prev st, rs_start := Some f, rs_end := Some f, rs_len := 1\<rparr>"
        unfolding run_step_def cont using False mask_dvd [OF al, of f] by (auto simp: Let_def)
      then show ?thesis using fresh [OF True] only by simp
    next
      case False': False
      then have "run_step pg al f st = st\<lparr>rs_candidate_prev := None, rs_start := None, rs_end := None, rs_len := 0\<rparr>"
        unfolding run_step_def cont using False mask_dvd [OF al, of f] by (auto simp: Let_def)
      then show ?thesis using none [of None None] False' only by simp
    qed
  next
    case c: True
    show ?thesis
    proof (cases "rs_start st")
      case None
      then have no: "\<not> al dvd s" if "reaches_last pg ys s" for s using st that by (simp add: search_ok_def)
      show ?thesis
      proof (cases "al dvd f")
        case True
        then have "run_step pg al f st = st\<lparr>rs_candidate_prev := rs_prev st, rs_start := Some f, rs_end := Some f, rs_len := 1\<rparr>"
          unfolding run_step_def cont using c None mask_dvd [OF al, of f] by (auto simp: Let_def)
        then show ?thesis using fresh [OF True] r no by auto
      next
        case False
        then have "run_step pg al f st = st\<lparr>rs_candidate_prev := rs_candidate_prev st, rs_start := None, rs_end := rs_end st, rs_len := 0\<rparr>"
          unfolding run_step_def cont using c None st mask_dvd [OF al, of f] by (auto simp: Let_def search_ok_def)
        then show ?thesis using none [where c = "rs_candidate_prev st" and e = "rs_end st"] False r no by auto
      qed
    next
      case (Some s0)
      have s0: "reaches_last pg ys s0" "al dvd s0" "last ys + pg = s0 + rs_len st * pg"
        "\<And>s. reaches_last pg ys s \<Longrightarrow> al dvd s \<Longrightarrow> s0 \<le> s" "rs_candidate_prev st = last_option (filter (\<lambda>x. x < s0) ys)"
        using st Some by (simp_all add: search_ok_def)
      have "s0 < f" using s0(1) f(2) by (simp add: reaches_last_def)
      then have "filter (\<lambda>x. x < s0) (ys @ [f]) = filter (\<lambda>x. x < s0) ys" "f + pg = s0 + (rs_len st + 1) * pg"
        "s0 \<le> s" if "reaches_last pg (ys @ [f]) s" "al dvd s" for s
        using c s0(3,4) r [of s] that by auto
      moreover have "reaches_last pg (ys @ [f]) s0" "reaches_last pg (ys @ [f]) f" using c s0(1) r by blast+
      moreover have "run_step pg al f st = st\<lparr>rs_end := Some f, rs_len := rs_len st + 1\<rparr>" unfolding run_step_def cont using c Some by (simp add: Let_def)
      ultimately show ?thesis using s0(2,5) Some by (simp add: search_ok_def visited_def last_option_def)
    qed
  qed
qed

lemma search_run_ok:
  assumes al: "is_power_of_two al" and xs: "0 < pg" "\<forall>x\<in>set xs. pg dvd x" "sorted xs" "distinct xs" and fr: "0 < frames"
  shows "\<lbrakk>xs = ys @ zs; seg l cur zs None; search_ok pg al ys st; rs_len st < frames;
      \<And>s. al dvd s \<Longrightarrow> pg dvd s \<Longrightarrow> \<not> set (block pg s frames) \<subseteq> set ys\<rbrakk> \<Longrightarrow>
    (search_run l frames pg al cur st = Some None \<and> (\<forall>s. al dvd s \<longrightarrow> pg dvd s \<longrightarrow> \<not> set (block pg s frames) \<subseteq> set xs)) \<or>
    (\<exists>st' ys' zs'. search_run l frames pg al cur st = Some (Some (st', first zs' None)) \<and> xs = ys' @ zs' \<and> ys' \<noteq> [] \<and>
       search_ok pg al ys' (visited (last ys') st') \<and> rs_len st' = frames)"
proof (induction zs arbitrary: ys cur st)
  case Nil
  then show ?case by (subst search_run.simps) auto
next
  case (Cons f zs)
  let ?st = "run_step pg al f st" and ?ys = "ys @ [f]"
  have f: "\<forall>y\<in>set ys. pg dvd y \<and> y < f" "pg dvd f" "sorted ys"
    using xs(2-4) Cons.prems(1) by (auto simp: sorted_append less_le)
  note step = run_step_ok [OF Cons.prems(3) al xs(1) f]
  have cur: "cur = Some f" "seg l (next_free l f) zs None" "next_free l f = first zs None"
    using Cons.prems(2) seg_first by auto
  show ?case
  proof (cases "rs_len ?st = frames")
    case True
    then have "search_run l frames pg al cur st = Some (Some (?st, first zs None))"
      using cur by (subst search_run.simps) (simp add: Let_def)
    moreover have "xs = ?ys @ zs" using Cons.prems(1) by simp
    ultimately show ?thesis using True step(1) by (metis last_snoc snoc_eq_iff_butlast)
  next
    case False
    then have len: "rs_len ?st < frames" using step(2) Cons.prems(4) by simp
    have "\<not> set (block pg s frames) \<subseteq> set ?ys" if s: "al dvd s" "pg dvd s" for s
    proof
      assume sub: "set (block pg s frames) \<subseteq> set ?ys"
      have B: "set (block pg s frames) = {x. pg dvd x \<and> s \<le> x \<and> x < s + frames * pg}" by (rule set_block [OF xs(1) s(2)])
      have "f \<in> set (block pg s frames)" using sub Cons.prems(5) [OF s] by auto
      then have fB: "s \<le> f" "f < s + frames * pg" using B by auto
      have top: "s + (frames - 1) * pg \<in> set (block pg s frames)" using fr by (auto simp: block_def)
      then have "s + (frames - 1) * pg \<le> f" using sub f(1) by (auto dest!: subsetD)
      then have "s + frames * pg \<le> f + pg" using fr by (cases frames) auto
      moreover have "f + pg \<le> s + frames * pg" using dvd_le_add [OF f(2) _ fB(2)] s(2) by simp
      ultimately have fe: "f + pg = s + frames * pg" by simp
      have "x \<in> set ?ys" if "pg dvd x" "s \<le> x" "x \<le> f" for x
      proof -
        have "x \<in> set (block pg s frames)" unfolding B using that fB(2) by simp
        then show ?thesis using sub by blast
      qed
      then have "reaches_last pg ?ys s" using s(2) fB(1) unfolding reaches_last_def by simp
      then obtain s0 where "s0 \<le> s" "f + pg = s0 + rs_len ?st * pg"
        using step(1) s(1) by (auto simp: search_ok_def visited_def split: option.splits)
      then have "frames * pg \<le> rs_len ?st * pg" using fe by linarith
      then show False using len xs(1) by simp
    qed
    then have "(search_run l frames pg al (next_free l f) (visited f ?st) = Some None \<and> (\<forall>s. al dvd s \<longrightarrow> pg dvd s \<longrightarrow> \<not> set (block pg s frames) \<subseteq> set xs)) \<or>
      (\<exists>st' ys' zs'. search_run l frames pg al (next_free l f) (visited f ?st) = Some (Some (st', first zs' None)) \<and> xs = ys' @ zs' \<and> ys' \<noteq> [] \<and>
       search_ok pg al ys' (visited (last ys') st') \<and> rs_len st' = frames)"
      using Cons.IH [of ?ys "next_free l f" "visited f ?st"] Cons.prems(1) cur(2) step(1) len by (simp add: visited_def)
    moreover have "search_run l frames pg al cur st = search_run l frames pg al (next_free l f) (visited f ?st)"
      using cur(1) False by (subst search_run.simps) (simp add: Let_def visited_def)
    ultimately show ?thesis by simp
  qed
qed

section \<open>Contiguous allocation\<close>

text \<open>The frames found are a block between the parts of the list before and after it.\<close>

lemma found_run:
  assumes ok: "search_ok pg al ys (visited (last ys) st)" "rs_len st = frames" "0 < frames"
    and ys: "0 < pg" "\<forall>y\<in>set ys. pg dvd y" "sorted ys" "distinct ys"
  obtains s pre where "rs_start st = Some s" "rs_end st = Some (last ys)" "last ys + pg = s + frames * pg" "al dvd s" "pg dvd s"
    "ys = pre @ block pg s frames" "rs_candidate_prev st = last_option pre"
proof -
  obtain s where s: "rs_start st = Some s" "rs_end st = Some (last ys)" "last ys + pg = s + frames * pg" "al dvd s" "reaches_last pg ys s"
    "rs_candidate_prev st = last_option (filter (\<lambda>x. x < s) ys)"
    using ok by (auto simp: search_ok_def visited_def split: option.splits)
  have dv: "pg dvd s" using s(5) ys(2) by (simp add: reaches_last_def)
  let ?run = "filter (\<lambda>x. s \<le> x) ys"
  have max: "y \<le> last ys" if "y \<in> set ys" for y using that ys(3) by (cases ys rule: rev_cases) (auto simp: sorted_append)
  have yl: "pg dvd last ys" using s(5) ys(2) last_in_set [of ys] by (cases "ys = []") (auto simp: reaches_last_def)
  have less: "x < s + frames * pg \<longleftrightarrow> x \<le> last ys" if "pg dvd x" for x
  proof (cases "last ys < x")
    case True
    then show ?thesis using dvd_le_add [OF yl that True] s(3) by simp
  next
    case False
    then show ?thesis using s(3) ys(1) by simp
  qed
  have "set ?run = set (block pg s frames)"
    unfolding set_block [OF ys(1) dv] using less max ys(2) s(5) by (auto simp: reaches_last_def)
  then have "?run = block pg s frames"
    using sorted_distinct_set_unique [of ?run "block pg s frames"] ys(3,4) sorted_block [OF ys(1)] by (simp add: sorted_wrt_filter)
  then have "ys = filter (\<lambda>x. x < s) ys @ block pg s frames" using sorted_split [OF ys(3), of s] by simp
  then show thesis using that s dv by blast
qed

lemma alloc_contiguous_aligned_ok:
  assumes st: "frees pg st xs" and al: "is_power_of_two al" "pg \<le> al" and fr: "0 < frames"
  shows "(alloc_contiguous_aligned frames pg al st = Some (None, st) \<and> (\<forall>s. al dvd s \<longrightarrow> pg dvd s \<longrightarrow> \<not> set (block pg s frames) \<subseteq> set xs)) \<or>
    (\<exists>r st' ys. alloc_contiguous_aligned frames pg al st = Some (Some r, st') \<and> frees pg st' ys \<and> aligned_range pg r \<and> al dvd range_start r \<and>
       range_end r = range_start r + frames * pg \<and> frame_set pg r \<subseteq> set xs \<and> set ys = set xs - frame_set pg r)"
proof -
  obtain a l where sa: "st = (a, l)" by (cases st)
  note d = freesD [OF st [unfolded sa]]
  have dv: "\<forall>x\<in>set xs. pg dvd x" using d(6) by (simp add: frame_ok_def)
  have "search_ok pg al [] run_search_new" "rs_len run_search_new < frames"
    using fr by (simp_all add: search_ok_def run_search_new_def last_option_def reaches_last_def)
  moreover have "\<not> set (block pg s frames) \<subseteq> set []" for s using fr by (simp add: block_def)
  ultimately consider (none) "search_run l frames pg al (fa_head a) run_search_new = Some None"
      "\<forall>s. al dvd s \<longrightarrow> pg dvd s \<longrightarrow> \<not> set (block pg s frames) \<subseteq> set xs"
    | (found) st' ys zs where "search_run l frames pg al (fa_head a) run_search_new = Some (Some (st', first zs None))" "xs = ys @ zs" "ys \<noteq> []"
      "search_ok pg al ys (visited (last ys) st')" "rs_len st' = frames"
    using search_run_ok [OF al(1) d(1) dv d(4,5) fr, of "[]" xs l "fa_head a" run_search_new] d(3) by auto
  then show ?thesis
  proof cases
    case none
    then show ?thesis using al fr sa by (simp add: alloc_contiguous_aligned_def)
  next
    case found
    obtain s pre where r: "rs_start st' = Some s" "rs_end st' = Some (last ys)" "last ys + pg = s + frames * pg" "al dvd s" "pg dvd s"
      "ys = pre @ block pg s frames" "rs_candidate_prev st' = last_option pre"
      using found_run [OF found(4,5) fr d(1)] dv d(4,5) found(2) by (auto simp: sorted_append)
    let ?r = "\<lparr>range_start = s, range_end = s + frames * pg\<rparr>"
    have top: "s + frames * pg \<le> usize_max" using d(6) [of "last ys"] found(2,3) r(3) by (simp add: frame_ok_def)
    have ar: "aligned_range pg ?r" using d(1) r(5) fr top by (simp add: aligned_range_def)
    have fs: "frame_set pg ?r = set (block pg s frames)" using set_block [OF d(1) r(5)] by (simp add: frame_set_def)
    have xs: "xs = pre @ block pg s frames @ zs" using found(2) r(6) by simp
    have ne: "first zs None \<noteq> Some free_list_end" using frame_not_end [OF d(1) d(6)] xs by (cases zs) auto
    have sg: "seg l (fa_head a) pre (first (block pg s frames) (first zs None))" "seg l (first zs None) zs None"
      using d(3) xs by (auto simp: seg_append split: list.splits)
    have dist: "distinct (pre @ zs)" "sorted (pre @ zs)" using d(4,5) xs by (auto simp: sorted_append)
    have "\<exists>a' l'. alloc_contiguous_aligned frames pg al (a, l) = Some (Some ?r, a', l') \<and> fa_page_size a' = pg \<and> seg l' (fa_head a') (pre @ zs) None \<and>
      fa_free_frames a' = length xs - frames"
    proof (cases pre rule: rev_cases)
      case Nil
      then show ?thesis using found(1) r(1-3,7) al fr d sg(2) top
        by (simp add: alloc_contiguous_aligned_def last_option_def checked_add_usize_def)
    next
      case (snoc as p)
      have "seg (write_next_free_frame p (link_to (first zs None)) l) (fa_head a) (as @ p # zs) None"
        using sg dist snoc ne by (intro seg_redirect) auto
      then show ?thesis using found(1) r(1-3,7) al fr d top snoc
        by (simp add: alloc_contiguous_aligned_def last_option_def checked_add_usize_def)
    qed
    then obtain a' l' where a': "alloc_contiguous_aligned frames pg al st = Some (Some ?r, a', l')" "frees pg (a', l') (pre @ zs)"
      using d(1,6) dist xs sa by (auto simp: frees_def)
    have "set (pre @ zs) = set xs - frame_set pg ?r" using d(5) xs fs by auto
    then show ?thesis using a' ar r(4) xs fs by (intro disjI2 exI [of _ ?r]) auto
  qed
qed

lemma alloc_contiguous_refused:
  "\<not> (is_power_of_two al \<and> pg \<le> al \<and> 0 < n) \<Longrightarrow> alloc_contiguous_aligned n pg al st = Some (None, st)"
  by (cases st) (auto simp: alloc_contiguous_aligned_def)

end
