(* ===== verification/Memory.thy ===== *)
theory Memory
  imports Mem_Map_Ok Frame_Search
begin

text \<open>
  The memory subsystem (\<^verbatim>\<open>kernel/src/memory/mod.rs\<close>, \<^verbatim>\<open>kernel/src/memory/heap.rs\<close>): boot initialisation, the
  published metadata and the runtime frame allocator behind it. The linker symbols, the
  architecture's direct map and the outcome of the heap smoke tests are parameters; the lock around
  the allocator is the atomicity of an operation.
\<close>

unbundle bit_operations_syntax

section \<open>State\<close>

definition KERNEL_HEAP_BOOTSTRAP_SIZE :: usize where
  "KERNEL_HEAP_BOOTSTRAP_SIZE = 16 * 1024 * 1024"

definition MAX_RAM_RANGES :: usize where
  "MAX_RAM_RANGES = 16"

definition MAX_RESERVED_RANGES :: usize where
  "MAX_RESERVED_RANGES = 32"

definition MAX_PHYS_REGIONS :: usize where
  "MAX_PHYS_REGIONS = 64"

definition MAX_USABLE_RANGES :: usize where
  "MAX_USABLE_RANGES = 32"

record memory_metadata =
  md_phys_regions :: "addr_region list"
  md_usable_ranges :: "addr_range list"
  md_heap_range :: "addr_range option"

record memory_state =
  mem_metadata :: "memory_metadata option"
  mem_initialized :: bool
  mem_allocator :: frame_allocator
  mem_links :: links
  mem_heap :: "(usize \<times> usize) option"

record boot_env =
  env_memory_map :: "memory_region list"
  env_dtb_pa :: u64
  env_dtb_size :: u64
  env_kernel_image :: addr_range
  env_boot_stack :: addr_range
  env_initramfs_load_pa :: usize
  env_initramfs_reserved_size :: usize
  env_phys_to_virt :: "usize \<Rightarrow> usize"
  env_heap_smoke :: "heap_smoke_error + unit"

section \<open>Boot\<close>

definition saturating_add_usize :: "usize \<Rightarrow> usize \<Rightarrow> usize" where
  "saturating_add_usize a b = min (a + b) usize_max"

definition initramfs_load_range :: "boot_env \<Rightarrow> addr_range" where
  "initramfs_load_range env =
     \<lparr>range_start = env_initramfs_load_pa env,
      range_end = saturating_add_usize (env_initramfs_load_pa env) (env_initramfs_reserved_size env)\<rparr>"

definition dtb_range :: "boot_env \<Rightarrow> memory_error + addr_range option" where
  "dtb_range env = phys_range_from_u64 (env_dtb_pa env) (env_dtb_size env)"

text \<open>The ranges before normalisation: those of the firmware and those the kernel adds.\<close>

definition collect_ranges :: "boot_env \<Rightarrow> memory_error + addr_range list \<times> addr_range list" where
  "collect_ranges env =
     and_then (collect_boot_ranges MAX_RAM_RANGES MAX_RESERVED_RANGES (env_memory_map env) ([], [])) (\<lambda>(ram, reserved).
     and_then (add_reserved_range MAX_RESERVED_RANGES (env_kernel_image env) reserved) (\<lambda>reserved.
     and_then (add_reserved_range MAX_RESERVED_RANGES (env_boot_stack env) reserved) (\<lambda>reserved.
     and_then (dtb_range env) (\<lambda>dtb.
     and_then (case dtb of None \<Rightarrow> Inr reserved | Some r \<Rightarrow> add_reserved_range MAX_RESERVED_RANGES r reserved) (\<lambda>reserved.
     and_then (add_reserved_range MAX_RESERVED_RANGES (initramfs_load_range env) reserved) (\<lambda>reserved.
     Inr (ram, reserved)))))))"

definition init_heap :: "usize \<Rightarrow> usize \<Rightarrow> memory_state \<Rightarrow> (heap_init_error + unit) \<times> memory_state" where
  "init_heap heap_start heap_size s =
     (if heap_size = 0 then (Inl ZeroSize, s)
      else if heap_start AND (PAGE_SIZE - 1) \<noteq> 0 \<or> heap_size AND (PAGE_SIZE - 1) \<noteq> 0 then (Inl UnalignedRange, s)
      else if mem_heap s \<noteq> None then (Inl AlreadyInitialized, s)
      else (Inr (), s\<lparr>mem_heap := Some (heap_start, heap_size)\<rparr>))"

text \<open>Three frames are taken and given back in the opposite order.\<close>

definition run_allocator_self_check :: "frame_allocator \<times> links \<Rightarrow> ((memory_error + unit) \<times> frame_allocator \<times> links) option" where
  "run_allocator_self_check st =
     (let (first_frame, st) = alloc_frame st in
      case first_frame of None \<Rightarrow> Some (Inl NoUsableRam, st) | Some f1 \<Rightarrow>
      let (second, st) = alloc_frame st in
      case second of None \<Rightarrow> Some (Inl NoUsableRam, st) | Some f2 \<Rightarrow>
      let (third, st) = alloc_frame st in
      case third of None \<Rightarrow> Some (Inl NoUsableRam, st) | Some f3 \<Rightarrow> do {
        st \<leftarrow> free_frame f3 st;
        st \<leftarrow> free_frame f2 st;
        st \<leftarrow> free_frame f1 st;
        Some (Inr (), st)
      })"

text \<open>The section under the allocator lock: it initialises the free list and takes the heap from it.\<close>

definition init_frames :: "addr_range list \<Rightarrow> memory_state \<Rightarrow> ((memory_error + addr_range) \<times> memory_state) option" where
  "init_frames usable s = do {
     (a, l) \<leftarrow> init_from_ranges usable PAGE_SIZE (fa_new, mem_links s);
     (heap, a, l) \<leftarrow> alloc_contiguous (KERNEL_HEAP_BOOTSTRAP_SIZE div PAGE_SIZE) PAGE_SIZE (a, l);
     let s = s\<lparr>mem_initialized := False, mem_allocator := a, mem_links := l\<rparr>;
     case heap of
       None \<Rightarrow> Some (Inl NoBootstrapHeapRange, s)
     | Some heap \<Rightarrow> do {
         (r, a, l) \<leftarrow> run_allocator_self_check (a, l);
         let s = s\<lparr>mem_allocator := a, mem_links := l\<rparr>;
         case r of
           Inl e \<Rightarrow> Some (Inl e, s)
         | Inr _ \<Rightarrow> Some (Inr heap, s\<lparr>mem_initialized := True\<rparr>)
       }
   }"

definition memory_init :: "boot_env \<Rightarrow> memory_state \<Rightarrow> ((memory_error + unit) \<times> memory_state) option" where
  "memory_init env s =
     (case collect_ranges env of
        Inl e \<Rightarrow> Some (Inl e, s)
      | Inr (ram, reserved) \<Rightarrow>
          let ram = sort_ranges ram;
              (merged, reserved_count) = merge_ranges (sort_ranges reserved) in
          case build_memory_map MAX_PHYS_REGIONS MAX_USABLE_RANGES ram (take reserved_count merged) ([], []) of
            Inl e \<Rightarrow> Some (Inl e, s)
          | Inr (regions, usable) \<Rightarrow>
              if usable = [] then Some (Inl NoUsableRam, s)
              else do {
                (r, s) \<leftarrow> init_frames usable s;
                case r of
                  Inl e \<Rightarrow> Some (Inl e, s)
                | Inr heap \<Rightarrow>
                    let (h, s) = init_heap (env_phys_to_virt env (range_start heap)) (range_end heap - range_start heap) s in
                    (case h of
                       Inl e \<Rightarrow> Some (Inl (HeapInit e), s)
                     | Inr _ \<Rightarrow>
                         (case env_heap_smoke env of
                            Inl e \<Rightarrow> Some (Inl (HeapSmokeTest e), s)
                          | Inr _ \<Rightarrow> do {
                              panic_if (mem_metadata s \<noteq> None);
                              Some (Inr (), s\<lparr>mem_metadata := Some \<lparr>md_phys_regions = regions, md_usable_ranges = usable, md_heap_range = Some heap\<rparr>\<rparr>)
                            }))
              })"

section \<open>Runtime\<close>

definition usable_ranges :: "memory_state \<Rightarrow> addr_range list" where
  "usable_ranges s = (case mem_metadata s of None \<Rightarrow> [] | Some md \<Rightarrow> md_usable_ranges md)"

definition heap_range :: "memory_state \<Rightarrow> addr_range option" where
  "heap_range s = (case mem_metadata s of None \<Rightarrow> None | Some md \<Rightarrow> md_heap_range md)"

definition is_valid_usable_frame :: "addr_range list \<Rightarrow> usize \<Rightarrow> bool" where
  "is_valid_usable_frame usable frame_pa \<longleftrightarrow>
     frame_pa AND (PAGE_SIZE - 1) = 0 \<and> list_ex (\<lambda>r. range_start r \<le> frame_pa \<and> frame_pa < range_end r) usable"

definition is_valid_usable_frame_range :: "addr_range list \<Rightarrow> addr_range \<Rightarrow> bool" where
  "is_valid_usable_frame_range usable r \<longleftrightarrow>
     range_start r < range_end r \<and> range_start r AND (PAGE_SIZE - 1) = 0 \<and> range_end r AND (PAGE_SIZE - 1) = 0 \<and>
     list_ex (\<lambda>u. range_start u \<le> range_start r \<and> range_end r \<le> range_end u) usable"

text \<open>An operation on the allocator under its lock.\<close>

definition set_allocator :: "frame_allocator \<times> links \<Rightarrow> memory_state \<Rightarrow> memory_state" where
  "set_allocator st s = s\<lparr>mem_allocator := fst st, mem_links := snd st\<rparr>"

definition memory_alloc_frame :: "memory_state \<Rightarrow> usize option \<times> memory_state" where
  "memory_alloc_frame s =
     (if \<not> mem_initialized s then (None, s)
      else let (r, st) = alloc_frame (mem_allocator s, mem_links s) in (r, set_allocator st s))"

definition alloc_contiguous_frames_aligned :: "usize \<Rightarrow> usize \<Rightarrow> memory_state \<Rightarrow> (addr_range option \<times> memory_state) option" where
  "alloc_contiguous_frames_aligned frames align s =
     (if \<not> mem_initialized s then Some (None, s)
      else do {
        (r, st) \<leftarrow> alloc_contiguous_aligned frames PAGE_SIZE align (mem_allocator s, mem_links s);
        Some (r, set_allocator st s)
      })"

definition alloc_contiguous_frames :: "usize \<Rightarrow> memory_state \<Rightarrow> (addr_range option \<times> memory_state) option" where
  "alloc_contiguous_frames frames s = alloc_contiguous_frames_aligned frames PAGE_SIZE s"

definition memory_free_frame :: "usize \<Rightarrow> memory_state \<Rightarrow> memory_state option" where
  "memory_free_frame frame_pa s = do {
     panic_if (\<not> mem_initialized s);
     panic_if (\<not> is_valid_usable_frame (usable_ranges s) frame_pa);
     st \<leftarrow> free_frame frame_pa (mem_allocator s, mem_links s);
     Some (set_allocator st s)
   }"

definition free_contiguous_frames :: "addr_range \<Rightarrow> memory_state \<Rightarrow> memory_state option" where
  "free_contiguous_frames r s = do {
     panic_if (\<not> mem_initialized s);
     panic_if (\<not> is_valid_usable_frame_range (usable_ranges s) r);
     st \<leftarrow> free_contiguous r PAGE_SIZE (mem_allocator s, mem_links s);
     Some (set_allocator st s)
   }"

definition free_frame_count :: "memory_state \<Rightarrow> usize option" where
  "free_frame_count s = (if mem_initialized s then Some (fa_free_frames (mem_allocator s)) else None)"

datatype frame_range_clone_error = InvalidRange | OutOfFrames

text \<open>The destination of a clone; the bytes are copied by the architecture's direct map.\<close>

definition clone_frame_range :: "addr_range \<Rightarrow> memory_state \<Rightarrow> ((frame_range_clone_error + addr_range) \<times> memory_state) option" where
  "clone_frame_range src s =
     (if range_end src < range_start src then Some (Inl InvalidRange, s)
      else let bytes = range_end src - range_start src in
        if bytes = 0 \<or> range_start src AND (PAGE_SIZE - 1) \<noteq> 0 \<or> range_end src AND (PAGE_SIZE - 1) \<noteq> 0 then Some (Inl InvalidRange, s)
        else do {
          (dst, s) \<leftarrow> alloc_contiguous_frames (bytes div PAGE_SIZE) s;
          Some (case dst of None \<Rightarrow> Inl OutOfFrames | Some dst \<Rightarrow> Inr dst, s)
        })"

end
