(* ===== verification/Memory_Pool.thy ===== *)
theory Memory_Pool
  imports Memory
begin

text \<open>
  The runtime frame allocator as a pool of frames: what an owner holds and what is free are always a
  partition of the frames the pool started with, and no operation of an owner that gives back only
  what it holds can fail.
\<close>

section \<open>The contract of a pool\<close>

text \<open>The frames \<open>H\<close> in use and the free ones are a partition of the frames \<open>U\<close>.\<close>

definition splits :: "('s \<Rightarrow> bool) \<Rightarrow> ('s \<Rightarrow> usize set) \<Rightarrow> usize set \<Rightarrow> 's \<Rightarrow> usize set \<Rightarrow> bool" where
  "splits inv_ok free U s H \<longleftrightarrow> inv_ok s \<and> free s \<inter> H = {} \<and> free s \<union> H = U"

text \<open>
  \<open>free\<close> is the set of free frames, \<open>take_out\<close> hands out a set of frames on a request and \<open>give_back\<close>
  takes an item back that the pool accepts.
\<close>

locale frame_pool =
  fixes inv_ok :: "'s \<Rightarrow> bool" and free :: "'s \<Rightarrow> usize set"
    and take_out :: "'q \<Rightarrow> 's \<Rightarrow> ('i option \<times> 's) option" and give_back :: "'i \<Rightarrow> 's \<Rightarrow> 's option"
    and frames_of :: "'i \<Rightarrow> usize set" and accepts :: "'i \<Rightarrow> 's \<Rightarrow> bool"
  assumes take_law: "inv_ok s \<Longrightarrow> \<exists>i s'. take_out q s = Some (i, s') \<and> inv_ok s' \<and>
      (case i of None \<Rightarrow> free s' = free s
       | Some i \<Rightarrow> frames_of i \<noteq> {} \<and> frames_of i \<subseteq> free s \<and> free s' = free s - frames_of i \<and> accepts i s')"
    and give_law: "inv_ok s \<Longrightarrow> accepts i s \<Longrightarrow> frames_of i \<inter> free s = {} \<Longrightarrow>
      \<exists>s'. give_back i s = Some s' \<and> inv_ok s' \<and> free s' = free s \<union> frames_of i"
begin

lemma take_splits:
  assumes "splits inv_ok free U s H"
  obtains i s' where "take_out q s = Some (i, s')" "i = None \<Longrightarrow> splits inv_ok free U s' H"
    "\<And>j. i = Some j \<Longrightarrow> frames_of j \<noteq> {} \<and> frames_of j \<inter> H = {} \<and> accepts j s' \<and> splits inv_ok free U s' (H \<union> frames_of j)"
proof -
  have s: "inv_ok s" "free s \<inter> H = {}" "free s \<union> H = U" using assms by (simp_all add: splits_def)
  obtain i s' where i: "take_out q s = Some (i, s')" "inv_ok s'" "case i of None \<Rightarrow> free s' = free s
       | Some i \<Rightarrow> frames_of i \<noteq> {} \<and> frames_of i \<subseteq> free s \<and> free s' = free s - frames_of i \<and> accepts i s'"
    using take_law [OF s(1), of q] by blast
  show thesis using i s by (intro that [of i s']) (auto simp: splits_def)
qed

lemma give_splits:
  assumes "splits inv_ok free U s H" "accepts i s" "frames_of i \<subseteq> H"
  obtains s' where "give_back i s = Some s'" "splits inv_ok free U s' (H - frames_of i)"
proof -
  have s: "inv_ok s" "free s \<inter> H = {}" "free s \<union> H = U" using assms(1) by (simp_all add: splits_def)
  have "frames_of i \<inter> free s = {}" using s(2) assms(3) by blast
  then obtain s' where "give_back i s = Some s'" "inv_ok s'" "free s' = free s \<union> frames_of i"
    using give_law [OF s(1) assms(2)] by blast
  then show thesis using s assms(3) by (intro that [of s']) (auto simp: splits_def)
qed

end

section \<open>The state of the runtime allocator\<close>

lemma page_power [simp]: "is_power_of_two PAGE_SIZE" by code_simp

lemma page_pos [simp]: "0 < PAGE_SIZE" "PAGE_SIZE \<noteq> 0" by (simp_all add: PAGE_SIZE_def)

lemma page_mask [simp]: "p AND (PAGE_SIZE - Suc 0) = 0 \<longleftrightarrow> PAGE_SIZE dvd p"
  using mask_dvd [OF page_power, of p] by simp

definition usable_frames :: "addr_range list \<Rightarrow> usize set" where
  "usable_frames us = (\<Union>u\<in>set us. frame_set PAGE_SIZE u)"

text \<open>The frames on the free list, in list order.\<close>

definition mem_free :: "memory_state \<Rightarrow> usize list \<Rightarrow> bool" where
  "mem_free s xs \<longleftrightarrow> frees PAGE_SIZE (mem_allocator s, mem_links s) xs"

definition free_frames_of :: "memory_state \<Rightarrow> usize set" where
  "free_frames_of s = (\<Union>xs \<in> {xs. mem_free s xs}. set xs)"

definition mem_inv :: "memory_state \<Rightarrow> bool" where
  "mem_inv s \<longleftrightarrow> mem_initialized s \<and> frames_ok (usable_ranges s) \<and> list_all (\<lambda>u. range_end u \<le> usize_max) (usable_ranges s) \<and>
     (\<exists>xs. mem_free s xs \<and> set xs \<subseteq> usable_frames (usable_ranges s))"

lemma mem_free_frames: "mem_free s xs \<Longrightarrow> free_frames_of s = set xs"
proof -
  assume xs: "mem_free s xs"
  then have "ys = xs" if "mem_free s ys" for ys
    using that unfolding mem_free_def frees_def by (auto dest: seg_unique)
  then have "{ys. mem_free s ys} = {xs}" using xs by blast
  then show ?thesis by (simp add: free_frames_of_def)
qed

lemma mem_inv_set:
  assumes "mem_inv s" "frees PAGE_SIZE st ys" "set ys \<subseteq> usable_frames (usable_ranges s)"
  shows "mem_inv (set_allocator st s)" "free_frames_of (set_allocator st s) = set ys"
    "usable_ranges (set_allocator st s) = usable_ranges s"
proof -
  show u: "usable_ranges (set_allocator st s) = usable_ranges s" by (simp add: usable_ranges_def set_allocator_def)
  have m: "mem_free (set_allocator st s) ys" using assms(2) by (simp add: mem_free_def set_allocator_def)
  then show "free_frames_of (set_allocator st s) = set ys" by (rule mem_free_frames)
  show "mem_inv (set_allocator st s)" using m u assms(1,3) by (auto simp: mem_inv_def) (simp_all add: set_allocator_def)
qed

lemma separated_apart:
  "separated us \<Longrightarrow> u \<in> set us \<Longrightarrow> v \<in> set us \<Longrightarrow> u \<noteq> v \<Longrightarrow> range_end u < range_start v \<or> range_end v < range_start u"
  by (induction us) (auto simp: separated_def)

text \<open>A run of usable frames lies in one usable range, for two of them never touch.\<close>

lemma run_in_one_range:
  assumes us: "frames_ok us" and run: "set (block PAGE_SIZE s (Suc n)) \<subseteq> usable_frames us"
  obtains u where "u \<in> set us" "range_start u \<le> s" "s + Suc n * PAGE_SIZE \<le> range_end u"
proof -
  have "\<exists>u\<in>set us. range_start u \<le> s \<and> s + Suc n * PAGE_SIZE \<le> range_end u"
    using run
  proof (induction n)
    case 0
    then obtain u where "u \<in> set us" "s \<in> frame_set PAGE_SIZE u" by (auto simp: block_def usable_frames_def)
    moreover then have "PAGE_SIZE dvd range_end u" using us by (auto simp: frames_ok_def list_all_iff)
    ultimately show ?case using dvd_le_add [of PAGE_SIZE s "range_end u"] by (auto simp: frame_set_def)
  next
    case (Suc n)
    let ?f = "s + Suc n * PAGE_SIZE"
    obtain u where u: "u \<in> set us" "range_start u \<le> s" "?f \<le> range_end u" using Suc by (auto simp: block_Suc)
    obtain v where v: "v \<in> set us" "?f \<in> frame_set PAGE_SIZE v" using Suc.prems by (auto simp: block_Suc usable_frames_def)
    then have f: "range_start v \<le> ?f" "?f < range_end v" "?f + PAGE_SIZE \<le> range_end v"
      using us dvd_le_add [of PAGE_SIZE ?f "range_end v"] by (auto simp: frame_set_def frames_ok_def list_all_iff)
    have "u = v"
    proof (rule ccontr)
      assume "u \<noteq> v"
      then have "range_end u < range_start v \<or> range_end v < range_start u"
        using us u(1) v(1) separated_apart by (auto simp: frames_ok_def)
      then show False using u(2,3) f by auto
    qed
    then show ?case using u f(3) by auto
  qed
  then show thesis using that by blast
qed

section \<open>The operations keep the contract\<close>

definition accepts_frame :: "usize \<Rightarrow> memory_state \<Rightarrow> bool" where
  "accepts_frame f s \<longleftrightarrow> is_valid_usable_frame (usable_ranges s) f"

definition accepts_range :: "addr_range \<Rightarrow> memory_state \<Rightarrow> bool" where
  "accepts_range r s \<longleftrightarrow> is_valid_usable_frame_range (usable_ranges s) r"

lemma usable_frame_iff: "is_valid_usable_frame us f \<longleftrightarrow> f \<in> usable_frames us"
  by (auto simp: is_valid_usable_frame_def usable_frames_def frame_set_def list_ex_iff)

lemma accepted_range:
  assumes "mem_inv s" "accepts_range r s"
  shows "aligned_range PAGE_SIZE r" "frame_set PAGE_SIZE r \<subseteq> usable_frames (usable_ranges s)"
proof -
  obtain u where u: "u \<in> set (usable_ranges s)" "range_start u \<le> range_start r" "range_end r \<le> range_end u"
    using assms(2) by (auto simp: accepts_range_def is_valid_usable_frame_range_def list_ex_iff)
  then have "range_end r \<le> usize_max" using assms(1) by (auto simp: mem_inv_def list_all_iff)
  then show "aligned_range PAGE_SIZE r" using assms(2) by (auto simp: aligned_range_def accepts_range_def is_valid_usable_frame_range_def)
  show "frame_set PAGE_SIZE r \<subseteq> usable_frames (usable_ranges s)" using u by (auto simp: usable_frames_def frame_set_def)
qed

lemma usable_run_accepted:
  assumes "frames_ok us" "aligned_range PAGE_SIZE r" "frame_set PAGE_SIZE r \<subseteq> usable_frames us"
  shows "is_valid_usable_frame_range us r"
proof -
  obtain n where n: "0 < n" "range_end r = range_start r + n * PAGE_SIZE" "frame_set PAGE_SIZE r = set (block PAGE_SIZE (range_start r) n)"
    by (rule aligned_rangeE [OF assms(2)]) blast
  obtain m where m: "n = Suc m" using n(1) by (cases n) auto
  have "set (block PAGE_SIZE (range_start r) (Suc m)) \<subseteq> usable_frames us" using n(3) assms(3) m by simp
  then obtain u where "u \<in> set us" "range_start u \<le> range_start r" "range_end r \<le> range_end u"
    using run_in_one_range [OF assms(1)] n(2) m by metis
  then show ?thesis using assms(2) by (auto simp: is_valid_usable_frame_range_def aligned_range_def list_ex_iff)
qed

lemma alloc_range_law:
  assumes "mem_inv s"
  shows "\<exists>i s'. alloc_contiguous_frames_aligned n al s = Some (i, s') \<and> mem_inv s' \<and> usable_ranges s' = usable_ranges s \<and>
      (case i of None \<Rightarrow> s' = s
       | Some r \<Rightarrow> frame_set PAGE_SIZE r \<noteq> {} \<and> frame_set PAGE_SIZE r \<subseteq> free_frames_of s \<and>
           free_frames_of s' = free_frames_of s - frame_set PAGE_SIZE r \<and> accepts_range r s')"
proof -
  obtain xs where xs: "mem_initialized s" "frees PAGE_SIZE (mem_allocator s, mem_links s) xs" "set xs \<subseteq> usable_frames (usable_ranges s)"
    "frames_ok (usable_ranges s)" "free_frames_of s = set xs"
    using assms mem_free_frames by (auto simp: mem_inv_def mem_free_def)
  have same: "set_allocator (mem_allocator s, mem_links s) s = s" by (simp add: set_allocator_def)
  consider (refused) "alloc_contiguous_aligned n PAGE_SIZE al (mem_allocator s, mem_links s) = Some (None, mem_allocator s, mem_links s)"
    | (found) r st' ys where "alloc_contiguous_aligned n PAGE_SIZE al (mem_allocator s, mem_links s) = Some (Some r, st')"
      "frees PAGE_SIZE st' ys" "aligned_range PAGE_SIZE r" "frame_set PAGE_SIZE r \<subseteq> set xs" "set ys = set xs - frame_set PAGE_SIZE r"
    using alloc_contiguous_aligned_ok [OF xs(2), of al n] alloc_contiguous_refused
    by (cases "is_power_of_two al \<and> PAGE_SIZE \<le> al \<and> 0 < n") blast+
  then show ?thesis
  proof cases
    case refused
    then show ?thesis using assms xs(1) same by (simp add: alloc_contiguous_frames_aligned_def)
  next
    case found
    have sub: "set ys \<subseteq> usable_frames (usable_ranges s)" using found(5) xs(3) by blast
    note m = mem_inv_set [OF assms found(2) sub]
    have "frame_set PAGE_SIZE r \<noteq> {}" using found(3) by (auto simp: frame_set_def aligned_range_def)
    moreover have "accepts_range r (set_allocator st' s)"
      using usable_run_accepted [OF xs(4) found(3)] found(4) xs(3) m(3) by (auto simp: accepts_range_def)
    moreover have "alloc_contiguous_frames_aligned n al s = Some (Some r, set_allocator st' s)"
      using found(1) xs(1) by (simp add: alloc_contiguous_frames_aligned_def)
    ultimately show ?thesis using m found(4,5) xs(5) by auto
  qed
qed

lemma free_range_law:
  assumes "mem_inv s" "accepts_range r s" "frame_set PAGE_SIZE r \<inter> free_frames_of s = {}"
  shows "\<exists>s'. free_contiguous_frames r s = Some s' \<and> mem_inv s' \<and> usable_ranges s' = usable_ranges s \<and>
    free_frames_of s' = free_frames_of s \<union> frame_set PAGE_SIZE r"
proof -
  obtain xs where xs: "mem_initialized s" "frees PAGE_SIZE (mem_allocator s, mem_links s) xs" "set xs \<subseteq> usable_frames (usable_ranges s)"
    "free_frames_of s = set xs"
    using assms mem_free_frames by (auto simp: mem_inv_def mem_free_def)
  obtain st' ys where f: "free_contiguous r PAGE_SIZE (mem_allocator s, mem_links s) = Some st'" "frees PAGE_SIZE st' ys"
    "set ys = set xs \<union> frame_set PAGE_SIZE r"
    using free_contiguous_ok [OF xs(2) accepted_range(1) [OF assms(1,2)]] assms(3) xs(4) by auto
  have "set ys \<subseteq> usable_frames (usable_ranges s)" using f(3) xs(3) accepted_range(2) [OF assms(1,2)] by simp
  then show ?thesis using mem_inv_set [OF assms(1) f(2)] f assms(2) xs(1,4) by (simp add: free_contiguous_frames_def accepts_range_def)
qed

lemma alloc_frame_law:
  assumes "mem_inv s"
  shows "\<exists>i s'. memory_alloc_frame s = (i, s') \<and> mem_inv s' \<and> usable_ranges s' = usable_ranges s \<and>
      (case i of None \<Rightarrow> s' = s \<and> free_frames_of s = {}
       | Some f \<Rightarrow> f \<in> free_frames_of s \<and> (\<forall>x\<in>free_frames_of s. f \<le> x) \<and> free_frames_of s' = free_frames_of s - {f} \<and> accepts_frame f s')"
proof -
  obtain xs where xs: "mem_initialized s" "frees PAGE_SIZE (mem_allocator s, mem_links s) xs" "set xs \<subseteq> usable_frames (usable_ranges s)"
    "free_frames_of s = set xs"
    using assms mem_free_frames by (auto simp: mem_inv_def mem_free_def)
  show ?thesis
  proof (cases xs)
    case Nil
    then show ?thesis using alloc_frame_ok(1) [OF xs(2)] xs(1,4) assms by (simp add: memory_alloc_frame_def set_allocator_def)
  next
    case (Cons x ys)
    then obtain st' where st: "alloc_frame (mem_allocator s, mem_links s) = (Some x, st')" "frees PAGE_SIZE st' ys"
      using alloc_frame_ok(2) [OF xs(2)] by blast
    have ys: "set ys \<subseteq> usable_frames (usable_ranges s)" "set ys = set xs - {x}" "\<forall>y\<in>set xs. x \<le> y"
      using xs(2,3) Cons by (auto simp: frees_def)
    note m = mem_inv_set [OF assms st(2) ys(1)]
    have "memory_alloc_frame s = (Some x, set_allocator st' s)" using st(1) xs(1) by (simp add: memory_alloc_frame_def)
    moreover have "x \<in> set xs" using Cons by simp
    moreover then have "accepts_frame x (set_allocator st' s)" using xs(3) m(3) by (auto simp: accepts_frame_def usable_frame_iff)
    ultimately show ?thesis using m ys(2,3) unfolding xs(4) by simp
  qed
qed

lemma free_frame_law:
  assumes "mem_inv s" "accepts_frame f s" "f \<notin> free_frames_of s"
  shows "\<exists>s'. memory_free_frame f s = Some s' \<and> mem_inv s' \<and> usable_ranges s' = usable_ranges s \<and> free_frames_of s' = free_frames_of s \<union> {f}"
proof -
  obtain xs where xs: "mem_initialized s" "frees PAGE_SIZE (mem_allocator s, mem_links s) xs" "set xs \<subseteq> usable_frames (usable_ranges s)"
    "free_frames_of s = set xs"
    using assms mem_free_frames by (auto simp: mem_inv_def mem_free_def)
  obtain u where u: "u \<in> set (usable_ranges s)" "PAGE_SIZE dvd f" "f < range_end u" "PAGE_SIZE dvd range_end u" "range_end u \<le> usize_max"
    using assms(1,2) unfolding accepts_frame_def usable_frame_iff usable_frames_def frame_set_def mem_inv_def frames_ok_def list_all_iff by blast
  have fo: "frame_ok PAGE_SIZE f" using dvd_le_add [OF u(2,4,3)] u(2,5) by (simp add: frame_ok_def)
  obtain st' ys where f: "free_frame f (mem_allocator s, mem_links s) = Some st'" "frees PAGE_SIZE st' ys" "set ys = insert f (set xs)"
    using free_frame_ok [OF xs(2) fo] assms(3) xs(4) by auto
  have "set ys \<subseteq> usable_frames (usable_ranges s)" using f(3) xs(3) assms(2) by (simp add: accepts_frame_def usable_frame_iff)
  then show ?thesis using mem_inv_set [OF assms(1) f(2)] f assms(2) xs(1,4) by (simp add: memory_free_frame_def accepts_frame_def)
qed

interpretation ranges: frame_pool mem_inv free_frames_of "\<lambda>(n, al). alloc_contiguous_frames_aligned n al"
  free_contiguous_frames "frame_set PAGE_SIZE" accepts_range
proof (unfold_locales)
  fix s :: memory_state and q :: "usize \<times> usize"
  assume s: "mem_inv s"
  obtain n al where q: "q = (n, al)" by (cases q)
  obtain i s' where i: "alloc_contiguous_frames_aligned n al s = Some (i, s')" "mem_inv s'"
    "case i of None \<Rightarrow> s' = s | Some r \<Rightarrow> frame_set PAGE_SIZE r \<noteq> {} \<and> frame_set PAGE_SIZE r \<subseteq> free_frames_of s \<and>
       free_frames_of s' = free_frames_of s - frame_set PAGE_SIZE r \<and> accepts_range r s'"
    using alloc_range_law [OF s, of n al] by blast
  show "\<exists>i s'. (case q of (n, al) \<Rightarrow> alloc_contiguous_frames_aligned n al) s = Some (i, s') \<and> mem_inv s' \<and>
      (case i of None \<Rightarrow> free_frames_of s' = free_frames_of s
       | Some i \<Rightarrow> frame_set PAGE_SIZE i \<noteq> {} \<and> frame_set PAGE_SIZE i \<subseteq> free_frames_of s \<and>
           free_frames_of s' = free_frames_of s - frame_set PAGE_SIZE i \<and> accepts_range i s')"
    using i q by (cases i) simp_all
qed (use free_range_law in blast)

interpretation singles: frame_pool mem_inv free_frames_of "\<lambda>(u :: unit) s. Some (memory_alloc_frame s)"
  memory_free_frame "\<lambda>f. {f}" accepts_frame
proof (unfold_locales)
  fix s :: memory_state and q :: unit
  assume s: "mem_inv s"
  obtain i s' where i: "memory_alloc_frame s = (i, s')" "mem_inv s'" "case i of None \<Rightarrow> s' = s \<and> free_frames_of s = {}
       | Some f \<Rightarrow> f \<in> free_frames_of s \<and> (\<forall>x\<in>free_frames_of s. f \<le> x) \<and> free_frames_of s' = free_frames_of s - {f} \<and> accepts_frame f s'"
    using alloc_frame_law [OF s] by blast
  show "\<exists>i s'. Some (memory_alloc_frame s) = Some (i, s') \<and> mem_inv s' \<and>
      (case i of None \<Rightarrow> free_frames_of s' = free_frames_of s
       | Some i \<Rightarrow> {i} \<noteq> {} \<and> {i} \<subseteq> free_frames_of s \<and> free_frames_of s' = free_frames_of s - {i} \<and> accepts_frame i s')"
    using i by (cases i) simp_all
qed (use free_frame_law in blast)

end
