(* ===== verification/Memory_Boot.thy ===== *)
theory Memory_Boot
  imports Memory_Pool
begin

text \<open>
  Memory initialisation: the frames a successful boot leaves in the pool and in the heap are
  exactly the whole pages of RAM that no reserved range touches, and from there on the pool never
  fails an owner and never hands out a frame twice.
\<close>

section \<open>The ranges of the boot environment\<close>

text \<open>The address ranges of the boot map's entries of one kind; empty entries are skipped.\<close>

definition ranges_of :: "memory_region_kind \<Rightarrow> memory_region list \<Rightarrow> addr_range list" where
  "ranges_of k ms = map (\<lambda>m. span (unat (mr_start m)) (unat (mr_start m) + unat (mr_size m))) (filter (\<lambda>m. mr_kind m = k \<and> mr_size m \<noteq> 0) ms)"

definition boot_reserved :: "boot_env \<Rightarrow> addr_range list" where
  "boot_reserved env = ranges_of BootReserved (env_memory_map env) @ [env_kernel_image env, env_boot_stack env] @
     (if env_dtb_size env = 0 then [] else [span (unat (env_dtb_pa env)) (unat (env_dtb_pa env) + unat (env_dtb_size env))]) @
     [initramfs_load_range env]"

text \<open>The image, its stack and the initramfs area are not empty and RAM ends below the last page of the address space.\<close>

definition boot_env_ok :: "boot_env \<Rightarrow> bool" where
  "boot_env_ok env \<longleftrightarrow> list_all (\<lambda>r. range_start r < range_end r) [env_kernel_image env, env_boot_stack env, initramfs_load_range env] \<and>
     list_all (\<lambda>r. range_end r + (PAGE_SIZE - 1) \<le> usize_max) (ranges_of BootUsable (env_memory_map env))"

lemma phys_range_cases:
  assumes "phys_range_from_u64 start bytes = Inr r"
  shows "r = (if bytes = 0 then None else Some (span (unat start) (unat start + unat bytes)))"
    "unat bytes = 0 \<longleftrightarrow> bytes = 0"
  using assms by (auto simp: phys_range_from_u64_def from_start_size_def checked_add_usize_def unat_eq_zero split: if_splits option.splits)

lemma collect_boot_ranges_eq:
  "collect_boot_ranges k u ms (ram, res) = Inr (ram', res') \<Longrightarrow> ram' = ram @ ranges_of BootUsable ms \<and> res' = res @ ranges_of BootReserved ms"
proof (induction ms arbitrary: ram res)
  case Nil
  then show ?case by (simp add: ranges_of_def)
next
  case (Cons m ms)
  obtain r where r: "phys_range_from_u64 (mr_start m) (mr_size m) = Inr r" using Cons.prems by (auto simp: and_then_eq_Inr)
  note r' = phys_range_cases(1) [OF r]
  show ?case
  proof (cases "mr_size m = 0 \<or> mr_kind m = BootMmio")
    case True
    then show ?thesis using Cons.prems Cons.IH [of ram res] r r' by (cases "mr_size m = 0") (simp_all add: ranges_of_def)
  next
    case False
    let ?s = "span (unat (mr_start m)) (unat (mr_start m) + unat (mr_size m))"
    consider "mr_kind m = BootUsable" "collect_boot_ranges k u ms (ram @ [?s], res) = Inr (ram', res')"
      | "mr_kind m = BootReserved" "collect_boot_ranges k u ms (ram, res @ [?s]) = Inr (ram', res')"
      using Cons.prems r r' False by (cases "mr_kind m") (auto simp: and_then_eq_Inr push_range_def split: if_splits)
    then show ?thesis using Cons.IH False by cases (fastforce simp: ranges_of_def)+
  qed
qed

lemma add_reserved_eq: "add_reserved_range k r out = Inr out' \<longleftrightarrow> out' = out @ [r] \<and> length out < k"
  by (auto simp: add_reserved_range_def push_range_def)

lemma collect_ranges_eq:
  assumes "collect_ranges env = Inr (ram, reserved)"
  shows "ram = ranges_of BootUsable (env_memory_map env)" "reserved = boot_reserved env"
proof -
  obtain res0 dtb where c: "collect_boot_ranges MAX_RAM_RANGES MAX_RESERVED_RANGES (env_memory_map env) ([], []) = Inr (ram, res0)"
    "dtb_range env = Inr dtb"
    "reserved = res0 @ [env_kernel_image env, env_boot_stack env] @ (case dtb of None \<Rightarrow> [] | Some r \<Rightarrow> [r]) @ [initramfs_load_range env]"
    using assms by (auto simp: collect_ranges_def and_then_eq_Inr add_reserved_eq split: option.splits)
  have "dtb = (if env_dtb_size env = 0 then None else Some (span (unat (env_dtb_pa env)) (unat (env_dtb_pa env) + unat (env_dtb_size env))))"
    using phys_range_cases(1) [of "env_dtb_pa env" "env_dtb_size env" dtb] c(2) by (simp add: dtb_range_def)
  then show "ram = ranges_of BootUsable (env_memory_map env)" "reserved = boot_reserved env"
    using collect_boot_ranges_eq [OF c(1)] c(3) by (auto simp: boot_reserved_def)
qed

lemma ranges_of_nonempty: "r \<in> set (ranges_of k ms) \<Longrightarrow> range_start r < range_end r"
  by (auto simp: ranges_of_def unat_gt_0)

lemma boot_reserved_nonempty: "boot_env_ok env \<Longrightarrow> list_all (\<lambda>r. range_start r < range_end r) (boot_reserved env)"
  by (auto simp: boot_reserved_def boot_env_ok_def list_all_iff unat_gt_0 dest: ranges_of_nonempty)

section \<open>The map and the free list\<close>

lemma separated_sorted: "separated rs \<Longrightarrow> sorted (map range_start rs)"
  by (induction rs) (auto simp: separated_def intro: less_imp_le order.strict_trans)

lemma sort_ranges_props [simp]: "sorted (map range_start (sort_ranges rs))" "set (sort_ranges rs) = set rs" "length (sort_ranges rs) = length rs"
  by (simp_all add: sort_ranges_eq)

lemma merged_ok:
  assumes "boot_env_ok env" "merge_ranges (sort_ranges (boot_reserved env)) = (merged, n)"
  shows "sorted (map range_start (take n merged))" "cover (take n merged) = cover (boot_reserved env)" "length (take n merged) \<le> length (boot_reserved env)"
proof -
  have c: "cover (sort_ranges (boot_reserved env)) = cover (boot_reserved env)" "list_all (\<lambda>r. range_start r < range_end r) (sort_ranges (boot_reserved env))"
    using boot_reserved_nonempty [OF assms(1)] by (simp_all add: cover_def list_all_iff)
  have m: "separated (take n merged) \<and> cover (take n merged) = cover (boot_reserved env)" "n \<le> length (boot_reserved env)"
    using merge_sorted [OF sort_ranges_props(1) c(2), of "[]"] merge_ranges_eq [OF assms(2)] c(1) by (simp_all add: separated_def)
  then show "sorted (map range_start (take n merged))" "cover (take n merged) = cover (boot_reserved env)" "length (take n merged) \<le> length (boot_reserved env)"
    using separated_sorted by auto
qed

lemma boot_ram_ok:
  "boot_env_ok env \<Longrightarrow> \<forall>ram\<in>set (sort_ranges (ranges_of BootUsable (env_memory_map env))). range_start ram < range_end ram \<and> range_end ram + (PAGE_SIZE - 1) \<le> usize_max"
  using ranges_of_nonempty by (auto simp: boot_env_ok_def list_all_iff)

lemma maps_free_cong: "cover res = cover res' \<Longrightarrow> set xs = set xs' \<Longrightarrow> maps_free res xs us \<longleftrightarrow> maps_free res' xs' us"
  by (simp add: maps_free_def cover_def)

text \<open>The usable ranges that initialisation works with.\<close>

lemma boot_map_ok:
  assumes env: "boot_env_ok env" and m: "merge_ranges (sort_ranges (boot_reserved env)) = (merged, n)"
    and b: "build_memory_map k u (sort_ranges (ranges_of BootUsable (env_memory_map env))) (take n merged) ([], []) = Inr (regions, us)"
  shows "maps_free (boot_reserved env) (ranges_of BootUsable (env_memory_map env)) us"
proof -
  let ?ram = "ranges_of BootUsable (env_memory_map env)"
  have "map_ram_ranges k u (take n merged) (sort_ranges ?ram) ([], []) = Inr (regions, us)"
    using b by (auto simp: build_memory_map_def and_then_eq_Inr split: if_splits)
  then have "maps_free (take n merged) (sort_ranges ?ram) us"
    using map_ram_ranges_sound [OF merged_ok(1) [OF env m] sort_ranges_props(1) boot_ram_ok [OF env]] by blast
  then show ?thesis using maps_free_cong [OF merged_ok(2) [OF env m] sort_ranges_props(2), of ?ram us] by blast
qed

lemma frames_apart:
  assumes "frames_ok us"
  shows "sorted_wrt (\<lambda>q r. frame_set PAGE_SIZE q \<inter> frame_set PAGE_SIZE r = {}) us"
proof (rule sorted_wrt_mono_rel)
  show "sorted_wrt (\<lambda>a b. range_end a < range_start b) us" using assms by (simp add: frames_ok_def separated_def)
  show "frame_set PAGE_SIZE q \<inter> frame_set PAGE_SIZE r = {}" if "range_end q < range_start r" for q r
    using that by (auto simp: frame_set_def)
qed

text \<open>The self-check needs three frames and returns them.\<close>

lemma self_check_ok:
  assumes st: "frees pg st xs"
  shows "\<exists>r st' ys. run_allocator_self_check st = Some (r, st') \<and> frees pg st' ys \<and> (r = Inr () \<longrightarrow> set ys = set xs) \<and>
    (3 \<le> length xs \<longrightarrow> r = Inr ())"
proof -
  have ok: "frame_ok pg x" if "x \<in> set xs" for x using st that by (simp add: frees_def)
  consider (zero) "xs = []" | (one) x where "xs = [x]" | (two) x y where "xs = [x, y]" | (more) x y z zs where "xs = x # y # z # zs"
    by (metis list.exhaust)
  then show ?thesis
  proof cases
    case zero
    then show ?thesis using alloc_frame_ok(1) [OF st] st by (auto simp: run_allocator_self_check_def)
  next
    case one
    then obtain st1 where s1: "alloc_frame st = (Some x, st1)" "frees pg st1 []" using alloc_frame_ok(2) [OF st] by blast
    then show ?thesis using alloc_frame_ok(1) [OF s1(2)] one by (auto simp: run_allocator_self_check_def)
  next
    case two
    then obtain st1 where s1: "alloc_frame st = (Some x, st1)" "frees pg st1 [y]" using alloc_frame_ok(2) [OF st] by blast
    then obtain st2 where s2: "alloc_frame st1 = (Some y, st2)" "frees pg st2 []" using alloc_frame_ok(2) by blast
    then show ?thesis using alloc_frame_ok(1) [OF s2(2)] s1 two by (auto simp: run_allocator_self_check_def)
  next
    case more
    have d: "distinct (x # y # z # zs)" using st more by (simp add: frees_def)
    obtain st1 where s1: "alloc_frame st = (Some x, st1)" "frees pg st1 (y # z # zs)" using alloc_frame_ok(2) [OF st] more by blast
    obtain st2 where s2: "alloc_frame st1 = (Some y, st2)" "frees pg st2 (z # zs)" using alloc_frame_ok(2) [OF s1(2)] by blast
    obtain st3 where s3: "alloc_frame st2 = (Some z, st3)" "frees pg st3 zs" using alloc_frame_ok(2) [OF s2(2)] by blast
    obtain st4 ys4 where s4: "free_frame z st3 = Some st4" "frees pg st4 ys4" "set ys4 = insert z (set zs)"
      using free_frame_ok [OF s3(2), of z] ok d more by auto
    obtain st5 ys5 where s5: "free_frame y st4 = Some st5" "frees pg st5 ys5" "set ys5 = insert y (insert z (set zs))"
      using free_frame_ok [OF s4(2), of y] ok d more s4(3) by auto
    obtain st6 ys6 where s6: "free_frame x st5 = Some st6" "frees pg st6 ys6" "set ys6 = insert x (insert y (insert z (set zs)))"
      using free_frame_ok [OF s5(2), of x] ok d more s5(3) by auto
    show ?thesis using s1(1) s2(1) s3(1) s4(1) s5(1) s6 more by (auto simp: run_allocator_self_check_def)
  qed
qed

lemma init_frames_ok:
  assumes us: "frames_ok us" "list_all (\<lambda>u. range_end u \<le> usize_max) us"
  obtains r s' where "init_frames us s = Some (r, s')" "mem_metadata s' = mem_metadata s" "mem_heap s' = mem_heap s"
    "\<And>heap. r = Inr heap \<Longrightarrow> mem_initialized s' \<and> aligned_range PAGE_SIZE heap \<and> range_end heap = range_start heap + KERNEL_HEAP_BOOTSTRAP_SIZE \<and>
      frame_set PAGE_SIZE heap \<subseteq> usable_frames us \<and> (\<exists>xs. mem_free s' xs \<and> set xs = usable_frames us - frame_set PAGE_SIZE heap)"
    "\<And>p. PAGE_SIZE dvd p \<Longrightarrow> set (block PAGE_SIZE p (KERNEL_HEAP_BOOTSTRAP_SIZE div PAGE_SIZE + 3)) \<subseteq> usable_frames us \<Longrightarrow> \<exists>heap. r = Inr heap"
proof -
  let ?n = "KERNEL_HEAP_BOOTSTRAP_SIZE div PAGE_SIZE"
  have n: "0 < ?n" "?n * PAGE_SIZE = KERNEL_HEAP_BOOTSTRAP_SIZE" by (simp_all add: KERNEL_HEAP_BOOTSTRAP_SIZE_def PAGE_SIZE_def)
  have "\<forall>u\<in>set us. aligned_range PAGE_SIZE u" using us by (auto simp: aligned_range_def frames_ok_def separated_def list_all_iff)
  then obtain a l xs where st: "init_from_ranges us PAGE_SIZE (fa_new, mem_links s) = Some (a, l)" "frees PAGE_SIZE (a, l) xs" "set xs = usable_frames us"
    using init_from_ranges_ok [OF page_pos(1) _ frames_apart [OF us(1)], of "(fa_new, mem_links s)"] by (auto simp: usable_frames_def)
  from alloc_contiguous_aligned_ok [OF st(2) page_power order_refl n(1)]
  consider (none) "alloc_contiguous ?n PAGE_SIZE (a, l) = Some (None, a, l)" "\<forall>p. PAGE_SIZE dvd p \<longrightarrow> \<not> set (block PAGE_SIZE p ?n) \<subseteq> set xs"
    | (found) heap a' l' ys where "alloc_contiguous ?n PAGE_SIZE (a, l) = Some (Some heap, a', l')" "frees PAGE_SIZE (a', l') ys" "aligned_range PAGE_SIZE heap"
      "range_end heap = range_start heap + ?n * PAGE_SIZE" "frame_set PAGE_SIZE heap \<subseteq> set xs" "set ys = set xs - frame_set PAGE_SIZE heap"
    unfolding alloc_contiguous_def by (metis prod.collapse)
  then show thesis
  proof cases
    case none
    have "set (block PAGE_SIZE p ?n) \<subseteq> set (block PAGE_SIZE p (?n + 3))" for p by (auto simp: block_def)
    then have "\<not> set (block PAGE_SIZE p (?n + 3)) \<subseteq> usable_frames us" if "PAGE_SIZE dvd p" for p
      using that none(2) st(3) by blast
    then show thesis
      using st(1) none(1) by (intro that [of "Inl NoBootstrapHeapRange" "s\<lparr>mem_initialized := False, mem_allocator := a, mem_links := l\<rparr>"]) (simp_all add: init_frames_def)
  next
    case found
    obtain r a'' l'' zs where c: "run_allocator_self_check (a', l') = Some (r, a'', l'')" "frees PAGE_SIZE (a'', l'') zs" "r = Inr () \<longrightarrow> set zs = set ys"
      "3 \<le> length ys \<longrightarrow> r = Inr ()"
      using self_check_ok [OF found(2)] by auto
    have long: "3 \<le> length ys" if "set (block PAGE_SIZE p (?n + 3)) \<subseteq> usable_frames us" for p
    proof -
      have "card (set (block PAGE_SIZE p (?n + 3))) \<le> card (set xs)" using that unfolding st(3) [symmetric] by (intro card_mono) simp_all
      moreover have "card (set (block PAGE_SIZE p (?n + 3))) = ?n + 3" using sorted_block [OF page_pos(1)] by (metis distinct_card length_block)
      moreover have "card (set ys) = card (set xs) - card (frame_set PAGE_SIZE heap)" unfolding found(6)
        using found(5) by (intro card_Diff_subset) (auto intro: finite_subset)
      moreover have "card (frame_set PAGE_SIZE heap) = ?n" by (rule aligned_rangeE [OF found(3)]) (use found(4) in simp)
      moreover have "card (set ys) = length ys" using found(2) by (simp add: frees_def distinct_card)
      ultimately show ?thesis by linarith
    qed
    show thesis
    proof (cases r)
      case (Inl e)
      then show thesis using c(1,4) found(1) st(1) long
        by (intro that [of "Inl e" "s\<lparr>mem_initialized := False, mem_allocator := a'', mem_links := l''\<rparr>"]) (simp_all add: init_frames_def)
    next
      case (Inr u)
      then show thesis using c found st n(2)
        by (intro that [of "Inr heap" "s\<lparr>mem_initialized := True, mem_allocator := a'', mem_links := l''\<rparr>"]) (auto simp: init_frames_def mem_free_def)
    qed
  qed
qed

section \<open>Boot\<close>

text \<open>The frames that initialisation leaves: those of the pool and those of the heap.\<close>

definition boot_frames :: "memory_state \<Rightarrow> usize set" where
  "boot_frames s = free_frames_of s \<union> (case heap_range s of None \<Rightarrow> {} | Some heap \<Rightarrow> frame_set PAGE_SIZE heap)"

lemma maps_free_bounded:
  assumes "boot_env_ok env" "maps_free res (ranges_of BootUsable (env_memory_map env)) us"
  shows "list_all (\<lambda>u. range_end u \<le> usize_max) us"
proof -
  have "range_end u \<le> usize_max" if u: "u \<in> set us" for u
  proof -
    have "range_start u < range_end u" using maps_freeD(1) [OF assms(2)] u by (auto simp: frames_ok_def separated_def list_all_iff)
    then have "range_end u - 1 \<in> range_set u" by (simp add: range_set_def)
    then have "range_end u - 1 \<in> cover us" using u by (auto simp: cover_def)
    then obtain r where r: "r \<in> set (ranges_of BootUsable (env_memory_map env))" "range_end u - 1 \<in> range_set r"
      using maps_freeD(2) [OF assms(2)] by (auto simp: cover_def)
    then have "range_end r \<le> usize_max" using assms(1) unfolding boot_env_ok_def list_all_iff by (meson add_leD1)
    then show ?thesis using r(2) unfolding range_set_def by auto
  qed
  then show ?thesis by (simp add: list_all_iff)
qed

lemma frame_page: "PAGE_SIZE dvd range_end u \<Longrightarrow> p \<in> frame_set PAGE_SIZE u \<Longrightarrow> page p \<subseteq> range_set u"
  using dvd_le_add [of PAGE_SIZE p "range_end u"] unfolding range_set_def frame_set_def by (simp add: page_subset)

lemma usable_frames_page:
  assumes "frames_ok us" "PAGE_SIZE dvd p"
  shows "p \<in> usable_frames us \<longleftrightarrow> page p \<subseteq> cover us"
proof
  assume "p \<in> usable_frames us"
  then obtain u where "u \<in> set us" "p \<in> frame_set PAGE_SIZE u" by (auto simp: usable_frames_def)
  moreover then have "PAGE_SIZE dvd range_end u" using assms(1) by (simp add: frames_ok_def list_all_iff)
  ultimately show "page p \<subseteq> cover us" using frame_page by (fastforce simp: cover_def)
next
  assume "page p \<subseteq> cover us"
  moreover have "p \<in> page p" by (simp add: page_def)
  ultimately obtain u where "u \<in> set us" "p \<in> range_set u" by (auto simp: cover_def)
  then show "p \<in> usable_frames us" using assms(2) by (auto simp: usable_frames_def frame_set_def range_set_def)
qed

text \<open>
  An environment that fits: the ranges fit the tables, addresses stay in the address space, some RAM
  range has room for the heap and three more frames beside the reserved ranges, and the direct map and the
  heap do their work.
\<close>

definition boot_env_fits :: "boot_env \<Rightarrow> bool" where
  "boot_env_fits env \<longleftrightarrow>
     (let ram = ranges_of BootUsable (env_memory_map env); res = boot_reserved env in
      list_all (\<lambda>m. unat (mr_start m) + unat (mr_size m) \<le> usize_max) (env_memory_map env) \<and>
      unat (env_dtb_pa env) + unat (env_dtb_size env) \<le> usize_max \<and>
      length ram \<le> MAX_RAM_RANGES \<and> length res \<le> MAX_RESERVED_RANGES \<and>
      length ram * (2 * length res + 1) \<le> MAX_PHYS_REGIONS \<and> length ram * (length res + 1) \<le> MAX_USABLE_RANGES \<and>
      (\<exists>r\<in>set ram. \<exists>p. PAGE_SIZE dvd p \<and> {p..<p + KERNEL_HEAP_BOOTSTRAP_SIZE + 3 * PAGE_SIZE} \<subseteq> range_set r - cover res) \<and>
      (\<forall>p. PAGE_SIZE dvd p \<longrightarrow> PAGE_SIZE dvd env_phys_to_virt env p) \<and> env_heap_smoke env = Inr ())"

lemma phys_range_fits: "unat start + unat bytes \<le> usize_max \<Longrightarrow>
    phys_range_from_u64 start bytes = Inr (if bytes = 0 then None else Some (span (unat start) (unat start + unat bytes)))"
  by (auto simp: phys_range_from_u64_def from_start_size_def checked_add_usize_def unat_eq_zero)

lemma collect_boot_ranges_fits:
  "list_all (\<lambda>m. unat (mr_start m) + unat (mr_size m) \<le> usize_max) ms \<Longrightarrow> length ram + length (ranges_of BootUsable ms) \<le> k \<Longrightarrow>
   length res + length (ranges_of BootReserved ms) \<le> u \<Longrightarrow> \<not> isl (collect_boot_ranges k u ms (ram, res))"
proof (induction ms arbitrary: ram res)
  case (Cons m ms)
  then show ?case by (cases "mr_kind m") (auto simp: phys_range_fits push_range_def ranges_of_def split: if_splits)
qed simp

lemma collect_ranges_fits:
  assumes "boot_env_fits env"
  shows "collect_ranges env = Inr (ranges_of BootUsable (env_memory_map env), boot_reserved env)"
proof -
  have len: "length (boot_reserved env) = length (ranges_of BootReserved (env_memory_map env)) + (if env_dtb_size env = 0 then 3 else 4)"
    by (simp add: boot_reserved_def)
  have fit: "list_all (\<lambda>m. unat (mr_start m) + unat (mr_size m) \<le> usize_max) (env_memory_map env)"
    "unat (env_dtb_pa env) + unat (env_dtb_size env) \<le> usize_max"
    "length (ranges_of BootUsable (env_memory_map env)) \<le> MAX_RAM_RANGES" "length (boot_reserved env) \<le> MAX_RESERVED_RANGES"
    using assms by (simp_all add: boot_env_fits_def Let_def)
  obtain ram res where r: "collect_boot_ranges MAX_RAM_RANGES MAX_RESERVED_RANGES (env_memory_map env) ([], []) = Inr (ram, res)"
    using collect_boot_ranges_fits [OF fit(1), of "[]" MAX_RAM_RANGES "[]" MAX_RESERVED_RANGES] fit(3,4) len
    by (cases "collect_boot_ranges MAX_RAM_RANGES MAX_RESERVED_RANGES (env_memory_map env) ([], [])") auto
  have "res = ranges_of BootReserved (env_memory_map env)" using collect_boot_ranges_eq [OF r] by simp
  then have "\<exists>out. collect_ranges env = Inr (ram, out)"
    using fit(4) len r unfolding collect_ranges_def dtb_range_def phys_range_fits [OF fit(2)]
    by (simp add: add_reserved_range_def push_range_def split: if_splits)
  then show ?thesis using collect_ranges_eq by blast
qed

text \<open>The run of pages that the environment leaves is usable.\<close>

lemma fits_run:
  assumes "boot_env_fits env" "maps_free (boot_reserved env) (ranges_of BootUsable (env_memory_map env)) us"
  obtains p where "PAGE_SIZE dvd p" "set (block PAGE_SIZE p (KERNEL_HEAP_BOOTSTRAP_SIZE div PAGE_SIZE + 3)) \<subseteq> usable_frames us"
proof -
  let ?n = "KERNEL_HEAP_BOOTSTRAP_SIZE div PAGE_SIZE + 3"
  have n: "?n * PAGE_SIZE = KERNEL_HEAP_BOOTSTRAP_SIZE + 3 * PAGE_SIZE" by (simp add: KERNEL_HEAP_BOOTSTRAP_SIZE_def PAGE_SIZE_def)
  obtain r p where r: "r \<in> set (ranges_of BootUsable (env_memory_map env))" "PAGE_SIZE dvd p" "{p..<p + ?n * PAGE_SIZE} \<subseteq> range_set r - cover (boot_reserved env)"
    using assms(1) unfolding boot_env_fits_def Let_def n by (auto simp: add.assoc)
  have "x \<in> usable_frames us" if x: "x \<in> set (block PAGE_SIZE p ?n)" for x
  proof -
    have xp: "PAGE_SIZE dvd x" "p \<le> x" "x < p + ?n * PAGE_SIZE" using x set_block [OF page_pos(1) r(2), of ?n] by auto
    have "x + PAGE_SIZE \<le> p + ?n * PAGE_SIZE" by (rule dvd_le_add [OF xp(1) _ xp(3)]) (use r(2) in simp)
    then have "page x \<subseteq> {p..<p + ?n * PAGE_SIZE}" using xp(2) by (simp only: page_subset)
    then have "page x \<subseteq> cover us" using maps_freeD(4) [OF assms(2) r(1) xp(1)] r(3) by blast
    then show ?thesis using usable_frames_page [OF maps_freeD(1) [OF assms(2)] xp(1)] by blast
  qed
  then show thesis using that r(2) by blast
qed

lemma boot_map_fits:
  assumes env: "boot_env_ok env" "boot_env_fits env" and m: "merge_ranges (sort_ranges (boot_reserved env)) = (merged, n)"
  shows "\<not> isl (build_memory_map MAX_PHYS_REGIONS MAX_USABLE_RANGES (sort_ranges (ranges_of BootUsable (env_memory_map env))) (take n merged) ([], []))"
proof -
  let ?ram = "ranges_of BootUsable (env_memory_map env)" and ?res = "take n merged"
  have "length ?ram * (2 * length (boot_reserved env) + 1) \<le> MAX_PHYS_REGIONS" "length ?ram * (length (boot_reserved env) + 1) \<le> MAX_USABLE_RANGES"
    using env(2) by (simp_all add: boot_env_fits_def Let_def)
  moreover have "length ?ram * (2 * length ?res + 1) \<le> length ?ram * (2 * length (boot_reserved env) + 1)"
    "length ?ram * (length ?res + 1) \<le> length ?ram * (length (boot_reserved env) + 1)"
    using merged_ok(3) [OF env(1) m] by (intro mult_le_mono2; linarith)+
  ultimately have len: "length ?ram * (2 * length ?res + 1) \<le> MAX_PHYS_REGIONS" "length ?ram * (length ?res + 1) \<le> MAX_USABLE_RANGES"
    by (meson order_trans)+
  have "maps_free ?res [] []" by (simp add: maps_free_def frames_ok_def separated_def)
  then obtain regions us where r: "map_ram_ranges MAX_PHYS_REGIONS MAX_USABLE_RANGES ?res (sort_ranges ?ram) ([], []) = Inr (regions, us)"
    "maps_free ?res (sort_ranges ?ram) us"
    using map_ram_ranges_ok [of ?res "[]" "sort_ranges ?ram" "([], [])" MAX_PHYS_REGIONS MAX_USABLE_RANGES] merged_ok(1) [OF env(1) m] boot_ram_ok [OF env(1)] len by auto
  have "maps_free (boot_reserved env) ?ram us" using r(2) maps_free_cong [OF merged_ok(2) [OF env(1) m] sort_ranges_props(2), of ?ram us] by blast
  then obtain p where "set (block PAGE_SIZE p (KERNEL_HEAP_BOOTSTRAP_SIZE div PAGE_SIZE + 3)) \<subseteq> usable_frames us" by (rule fits_run [OF env(2)])
  then have "us \<noteq> []" by (auto simp: usable_frames_def block_def)
  then show ?thesis using r(1) by (simp add: build_memory_map_def)
qed

lemma init_heap_fits:
  assumes "boot_env_fits env" "aligned_range PAGE_SIZE heap" "mem_heap s = None"
  shows "\<not> isl (fst (init_heap (env_phys_to_virt env (range_start heap)) (range_end heap - range_start heap) s))"
  using assms by (auto simp: init_heap_def aligned_range_def boot_env_fits_def Let_def dvd_diff_nat)

text \<open>Initialisation panics only if it already succeeded before.\<close>

lemma memory_init_cases:
  assumes env: "boot_env_ok env" and fresh: "mem_metadata s = None"
  obtains (refused) e s' where "memory_init env s = Some (Inl e, s')" "mem_metadata s' = None" "boot_env_fits env \<Longrightarrow> mem_heap s \<noteq> None"
    | (booted) s' us heap regions where "memory_init env s = Some (Inr (), s')" "mem_metadata s' = Some \<lparr>md_phys_regions = regions, md_usable_ranges = us, md_heap_range = Some heap\<rparr>"
      "maps_free (boot_reserved env) (ranges_of BootUsable (env_memory_map env)) us" "mem_initialized s'" "aligned_range PAGE_SIZE heap"
      "range_end heap = range_start heap + KERNEL_HEAP_BOOTSTRAP_SIZE" "frame_set PAGE_SIZE heap \<subseteq> usable_frames us"
      "\<exists>xs. mem_free s' xs \<and> set xs = usable_frames us - frame_set PAGE_SIZE heap"
proof (cases "collect_ranges env")
  case (Inl e)
  then show thesis using fresh collect_ranges_fits [of env] by (intro refused [of e s]) (auto simp: memory_init_def)
next
  case (Inr rr)
  then have c: "collect_ranges env = Inr (ranges_of BootUsable (env_memory_map env), boot_reserved env)"
    using collect_ranges_eq [of env] by (metis prod.exhaust)
  obtain merged n where m: "merge_ranges (sort_ranges (boot_reserved env)) = (merged, n)" by (rule prod.exhaust)
  let ?map = "build_memory_map MAX_PHYS_REGIONS MAX_USABLE_RANGES (sort_ranges (ranges_of BootUsable (env_memory_map env))) (take n merged) ([], [])"
  show thesis
  proof (cases ?map)
    case (Inl e)
    then show thesis using c m fresh boot_map_fits [OF env _ m] by (intro refused [of e s]) (auto simp: memory_init_def Let_def)
  next
    case (Inr ru)
    obtain regions us where b: "?map = Inr (regions, us)" using Inr by (cases ru) simp
    note mf = boot_map_ok [OF env m b]
    have ne: "us \<noteq> []" using b by (auto simp: build_memory_map_def and_then_eq_Inr split: if_splits)
    obtain r s1 where i: "init_frames us s = Some (r, s1)" "mem_metadata s1 = mem_metadata s" "mem_heap s1 = mem_heap s"
      "\<And>heap. r = Inr heap \<Longrightarrow> mem_initialized s1 \<and> aligned_range PAGE_SIZE heap \<and> range_end heap = range_start heap + KERNEL_HEAP_BOOTSTRAP_SIZE \<and>
        frame_set PAGE_SIZE heap \<subseteq> usable_frames us \<and> (\<exists>xs. mem_free s1 xs \<and> set xs = usable_frames us - frame_set PAGE_SIZE heap)"
      "\<And>p. PAGE_SIZE dvd p \<Longrightarrow> set (block PAGE_SIZE p (KERNEL_HEAP_BOOTSTRAP_SIZE div PAGE_SIZE + 3)) \<subseteq> usable_frames us \<Longrightarrow> \<exists>heap. r = Inr heap"
      by (rule init_frames_ok [OF maps_freeD(1) [OF mf] maps_free_bounded [OF env mf], of s]) blast
    show thesis
    proof (cases r)
      case (Inl e)
      have "\<not> boot_env_fits env" using fits_run [OF _ mf] i(5) Inl by (metis sum.distinct(1))
      then show thesis using Inl c m b ne i(1,2) fresh by (intro refused [of e s1]) (simp_all add: memory_init_def Let_def)
    next
      case (Inr heap)
      obtain h s2 where h: "init_heap (env_phys_to_virt env (range_start heap)) (range_end heap - range_start heap) s1 = (h, s2)" by (rule prod.exhaust)
      obtain h2 where s2: "s2 = s1\<lparr>mem_heap := h2\<rparr>"
        using h unfolding init_heap_def by (metis (no_types) memory_state.surjective memory_state.update_convs(5) prod.inject)
      show thesis
      proof (cases "isl h \<or> isl (env_heap_smoke env)")
        case True
        then obtain e where "memory_init env s = Some (Inl e, s2)"
          using c m b ne i(1) Inr h by (cases h; cases "env_heap_smoke env") (simp_all add: memory_init_def Let_def)
        moreover have "mem_heap s \<noteq> None" if f: "boot_env_fits env"
        proof
          assume "mem_heap s = None"
          then have "\<not> isl h" using init_heap_fits [OF f, of heap s1] i(4) [OF Inr] i(3) h by simp
          moreover have "\<not> isl (env_heap_smoke env)" using f by (auto simp: boot_env_fits_def Let_def)
          ultimately show False using True by blast
        qed
        ultimately show thesis using s2 i(2) fresh by (intro refused [of e s2]) simp_all
      next
        case False
        let ?s = "s2\<lparr>mem_metadata := Some \<lparr>md_phys_regions = regions, md_usable_ranges = us, md_heap_range = Some heap\<rparr>\<rparr>"
        have "memory_init env s = Some (Inr (), ?s)"
          using c m b ne i(1,2) Inr h s2 fresh False by (cases h; cases "env_heap_smoke env") (simp_all add: memory_init_def Let_def)
        then show thesis using i(4) [OF Inr] s2 mf by (intro booted [of ?s regions us heap]) (simp_all add: mem_free_def)
      qed
    qed
  qed
qed

lemma memory_init_booted:
  assumes "boot_env_ok env" "mem_metadata s = None" "memory_init env s = Some (Inr (), s')"
  obtains us heap where "mem_inv s'" "usable_ranges s' = us" "maps_free (boot_reserved env) (ranges_of BootUsable (env_memory_map env)) us"
    "heap_range s' = Some heap" "range_end heap = range_start heap + KERNEL_HEAP_BOOTSTRAP_SIZE"
    "free_frames_of s' = usable_frames us - frame_set PAGE_SIZE heap" "boot_frames s' = usable_frames us"
proof -
  let ?ram = "ranges_of BootUsable (env_memory_map env)" and ?res = "boot_reserved env"
  obtain us heap regions xs where b: "mem_metadata s' = Some \<lparr>md_phys_regions = regions, md_usable_ranges = us, md_heap_range = Some heap\<rparr>"
      "maps_free ?res ?ram us" "mem_initialized s'" "range_end heap = range_start heap + KERNEL_HEAP_BOOTSTRAP_SIZE"
      "frame_set PAGE_SIZE heap \<subseteq> usable_frames us" "mem_free s' xs" "set xs = usable_frames us - frame_set PAGE_SIZE heap"
    by (rule memory_init_cases [OF assms(1,2)]) (use assms(3) in auto)
  have u: "usable_ranges s' = us" "heap_range s' = Some heap" using b(1) by (simp_all add: usable_ranges_def heap_range_def)
  have free: "free_frames_of s' = usable_frames us - frame_set PAGE_SIZE heap" using mem_free_frames [OF b(6)] b(7) by simp
  then have "boot_frames s' = usable_frames us" using u(2) b(5) by (auto simp: boot_frames_def)
  moreover have "mem_inv s'" using b(3,6,7) maps_freeD(1) [OF b(2)] maps_free_bounded [OF assms(1) b(2)] u(1) by (auto simp: mem_inv_def)
  ultimately show thesis using that b(2,4) u free by blast
qed

text \<open>
  C25. Boot partitions memory. Initialisation never panics on a fresh state, and it succeeds when the
  environment fits. If it succeeds, the frame pool and the heap range together hold every whole page of RAM
  that no reserved range touches and nothing else: neither the kernel image, the boot stack, the device
  tree, the initramfs area nor a range the firmware reserved. The heap has its fixed size and shares no
  frame with the pool.
\<close>

theorem memory_init_partition:
  assumes "boot_env_ok env" "mem_metadata s = None"
  shows "\<exists>r s'. memory_init env s = Some (r, s') \<and> (boot_env_fits env \<and> mem_heap s = None \<longrightarrow> r = Inr ()) \<and>
    (r = Inr () \<longrightarrow>
      (\<exists>heap. heap_range s' = Some heap \<and> range_end heap = range_start heap + KERNEL_HEAP_BOOTSTRAP_SIZE \<and> frame_set PAGE_SIZE heap \<inter> free_frames_of s' = {}) \<and>
      (\<forall>p\<in>boot_frames s'. PAGE_SIZE dvd p \<and> page p \<subseteq> cover (ranges_of BootUsable (env_memory_map env)) - cover (boot_reserved env)) \<and>
      (\<forall>ram\<in>set (ranges_of BootUsable (env_memory_map env)). \<forall>p. PAGE_SIZE dvd p \<longrightarrow> page p \<subseteq> range_set ram - cover (boot_reserved env) \<longrightarrow>
        p \<in> boot_frames s'))"
proof (rule memory_init_cases [OF assms])
  fix e s'
  assume "memory_init env s = Some (Inl e, s')" "boot_env_fits env \<Longrightarrow> mem_heap s \<noteq> None"
  then show ?thesis by auto
next
  let ?ram = "ranges_of BootUsable (env_memory_map env)" and ?res = "boot_reserved env"
  fix s'
  assume i: "memory_init env s = Some (Inr (), s')"
  obtain us heap where b: "maps_free ?res ?ram us" "heap_range s' = Some heap" "range_end heap = range_start heap + KERNEL_HEAP_BOOTSTRAP_SIZE"
    "free_frames_of s' = usable_frames us - frame_set PAGE_SIZE heap" "boot_frames s' = usable_frames us"
    by (rule memory_init_booted [OF assms i])
  note d = maps_freeD [OF b(1)]
  have "PAGE_SIZE dvd p \<and> page p \<subseteq> cover ?ram - cover ?res" if "p \<in> boot_frames s'" for p
  proof -
    have dv: "PAGE_SIZE dvd p" using that b(5) by (auto simp: usable_frames_def frame_set_def)
    then show ?thesis using usable_frames_page [OF d(1) dv] that [unfolded b(5)] d(2,3) by blast
  qed
  moreover have "p \<in> boot_frames s'" if "ram \<in> set ?ram" "PAGE_SIZE dvd p" "page p \<subseteq> range_set ram - cover ?res" for ram p
    unfolding b(5) using usable_frames_page [OF d(1) that(2)] d(4) [OF that(1,2)] that(3) by blast
  moreover have "\<exists>heap. heap_range s' = Some heap \<and> range_end heap = range_start heap + KERNEL_HEAP_BOOTSTRAP_SIZE \<and> frame_set PAGE_SIZE heap \<inter> free_frames_of s' = {}"
    using b(2-4) by (intro exI [of _ heap]) auto
  ultimately show ?thesis using i by (intro exI [of _ "Inr ()"] exI [of _ s']) (intro conjI impI ballI allI, blast+)
qed

text \<open>A board with 128 MiB of RAM.\<close>

definition sample_env :: boot_env where
  "sample_env = \<lparr>env_memory_map = [\<lparr>mr_start = 0x40000000, mr_size = 0x8000000, mr_kind = BootUsable\<rparr>, \<lparr>mr_start = 0x9000000, mr_size = 0x1000, mr_kind = BootMmio\<rparr>],
     env_dtb_pa = 0x48000000, env_dtb_size = 0x10000, env_kernel_image = span 0x40080000 0x40200000, env_boot_stack = span 0x40200000 0x40210000,
     env_initramfs_load_pa = 0x44000000, env_initramfs_reserved_size = 0x1000000, env_phys_to_virt = (\<lambda>p. p + 0xffff000000000000), env_heap_smoke = Inr ()\<rparr>"

definition sample_memory :: memory_state where
  "sample_memory = \<lparr>mem_metadata = None, mem_initialized = False, mem_allocator = fa_new, mem_links = (\<lambda>_. 0), mem_heap = None\<rparr>"

lemma sample_env_ranges:
  "ranges_of BootUsable (env_memory_map sample_env) = [span 0x40000000 0x48000000]"
  "boot_reserved sample_env = [span 0x40080000 0x40200000, span 0x40200000 0x40210000, span 0x48000000 0x48010000, span 0x44000000 0x45000000]"
  by code_simp+

lemma sample_env_ok: "boot_env_ok sample_env"
  by code_simp

lemma sample_env_fits: "boot_env_fits sample_env"
proof -
  have "PAGE_SIZE dvd 0x41000000" "{0x41000000..<0x41000000 + KERNEL_HEAP_BOOTSTRAP_SIZE + 3 * PAGE_SIZE} \<subseteq>
      range_set (span 0x40000000 0x48000000) - cover (boot_reserved sample_env)"
    unfolding sample_env_ranges by (auto simp: PAGE_SIZE_def KERNEL_HEAP_BOOTSTRAP_SIZE_def)
  moreover have "PAGE_SIZE dvd env_phys_to_virt sample_env p" if "PAGE_SIZE dvd p" for p
    using that by (simp add: sample_env_def PAGE_SIZE_def)
  ultimately show ?thesis
    unfolding boot_env_fits_def Let_def sample_env_ranges
    by (auto simp: sample_env_def usize_max_def MAX_RAM_RANGES_def MAX_RESERVED_RANGES_def MAX_PHYS_REGIONS_def MAX_USABLE_RANGES_def)
qed

theorem memory_init_partition_witness:
  "\<exists>s'. memory_init sample_env sample_memory = Some (Inr (), s') \<and> 0x46000000 \<in> boot_frames s' \<and> 0x44000000 \<notin> boot_frames s'"
proof -
  have m: "mem_metadata sample_memory = None" "mem_heap sample_memory = None" by (simp_all add: sample_memory_def)
  obtain s' where s': "memory_init sample_env sample_memory = Some (Inr (), s')"
    "\<forall>p\<in>boot_frames s'. PAGE_SIZE dvd p \<and> page p \<subseteq> cover (ranges_of BootUsable (env_memory_map sample_env)) - cover (boot_reserved sample_env)"
    "\<forall>ram\<in>set (ranges_of BootUsable (env_memory_map sample_env)). \<forall>p. PAGE_SIZE dvd p \<longrightarrow> page p \<subseteq> range_set ram - cover (boot_reserved sample_env) \<longrightarrow>
      p \<in> boot_frames s'"
    using memory_init_partition [OF sample_env_ok m(1)] sample_env_fits m(2) by blast
  have "PAGE_SIZE dvd 0x46000000" "page 0x46000000 \<subseteq> range_set (span 0x40000000 0x48000000) - cover (boot_reserved sample_env)"
    unfolding sample_env_ranges by (auto simp: PAGE_SIZE_def page_def)
  then have "0x46000000 \<in> boot_frames s'" using s'(3) unfolding sample_env_ranges(1) by simp
  moreover have "0x44000000 \<in> page 0x44000000" "0x44000000 \<in> cover (boot_reserved sample_env)"
    unfolding sample_env_ranges by (simp_all add: page_def PAGE_SIZE_def)
  ultimately show ?thesis using s'(1,2) unfolding sample_env_ranges(1) by blast
qed

section \<open>Owners of frames\<close>

text \<open>
  What owners do with a booted system: \<open>H\<close> are the frames they hold. They give back only what they
  hold, a frame at a time or a range that lies in one usable range.
\<close>

inductive owners :: "memory_state \<Rightarrow> memory_state \<Rightarrow> usize set \<Rightarrow> bool" for s0 where
  start: "owners s0 s0 {}"
| take_frame: "owners s0 s H \<Longrightarrow> memory_alloc_frame s = (Some f, s') \<Longrightarrow> owners s0 s' (H \<union> {f})"
| take_range: "owners s0 s H \<Longrightarrow> alloc_contiguous_frames_aligned n al s = Some (Some r, s') \<Longrightarrow> owners s0 s' (H \<union> frame_set PAGE_SIZE r)"
| give_frame: "owners s0 s H \<Longrightarrow> f \<in> H \<Longrightarrow> memory_free_frame f s = Some s' \<Longrightarrow> owners s0 s' (H - {f})"
| give_range: "owners s0 s H \<Longrightarrow> is_valid_usable_frame_range (usable_ranges s) r \<Longrightarrow> frame_set PAGE_SIZE r \<subseteq> H \<Longrightarrow>
    free_contiguous_frames r s = Some s' \<Longrightarrow> owners s0 s' (H - frame_set PAGE_SIZE r)"

lemma usable_set [simp]: "usable_ranges (set_allocator st s) = usable_ranges s"
  by (simp add: usable_ranges_def set_allocator_def)

lemma owners_usable: "owners s0 s H \<Longrightarrow> usable_ranges s = usable_ranges s0"
  by (induction rule: owners.induct)
    (auto simp: memory_alloc_frame_def alloc_contiguous_frames_aligned_def memory_free_frame_def free_contiguous_frames_def bind_eq_Some_conv
      split: if_splits prod.splits)

lemma free_usable: "mem_inv s \<Longrightarrow> free_frames_of s \<subseteq> usable_frames (usable_ranges s)"
  using mem_free_frames by (auto simp: mem_inv_def)

lemma owners_split:
  assumes "owners s0 s H" "mem_inv s0"
  shows "splits mem_inv free_frames_of (free_frames_of s0) s H"
  using assms
proof (induction rule: owners.induct)
  case start
  then show ?case by (simp add: splits_def)
next
  case (take_frame s H f s')
  show ?case by (rule singles.take_splits [OF take_frame.IH [OF take_frame.prems]]) (use take_frame.hyps in auto)
next
  case (take_range s H n al r s')
  show ?case by (rule ranges.take_splits [OF take_range.IH [OF take_range.prems], where q = "(n, al)"]) (use take_range.hyps in auto)
next
  case (give_frame s H f s')
  note sp = give_frame.IH [OF give_frame.prems]
  have "accepts_frame f s" using owners_usable [OF give_frame.hyps(1)] free_usable [OF give_frame.prems] sp give_frame.hyps(2)
    by (auto simp: accepts_frame_def usable_frame_iff splits_def)
  then show ?case by (rule singles.give_splits [OF sp]) (use give_frame.hyps in auto)
next
  case (give_range s H r s')
  then have "accepts_range r s" by (simp add: accepts_range_def)
  then show ?case by (rule ranges.give_splits [OF give_range.IH [OF give_range.prems]]) (use give_range.hyps in auto)
qed


lemma sample_memory_boots:
  obtains s0 where "memory_init sample_env sample_memory = Some (Inr (), s0)" "mem_inv s0" "free_frames_of s0 \<noteq> {}"
proof -
  have m: "mem_metadata sample_memory = None" "mem_heap sample_memory = None" by (simp_all add: sample_memory_def)
  obtain s0 where s0: "memory_init sample_env sample_memory = Some (Inr (), s0)"
    by (rule memory_init_cases [OF sample_env_ok m(1)]) (use sample_env_fits m(2) in auto)
  obtain us heap where b: "mem_inv s0" "maps_free (boot_reserved sample_env) [span 0x40000000 0x48000000] us"
      "range_end heap = range_start heap + KERNEL_HEAP_BOOTSTRAP_SIZE" "free_frames_of s0 = usable_frames us - frame_set PAGE_SIZE heap"
    by (rule memory_init_booted [OF sample_env_ok m(1) s0]) (simp add: sample_env_ranges(1))
  have "p \<in> usable_frames us" if "PAGE_SIZE dvd p" "page p \<subseteq> range_set (span 0x40000000 0x48000000) - cover (boot_reserved sample_env)" for p
    using usable_frames_page [OF maps_freeD(1) [OF b(2)] that(1)] maps_freeD(4) [OF b(2) _ that(1), of "span 0x40000000 0x48000000"] that(2) by auto
  moreover have "PAGE_SIZE dvd 0x46000000" "page 0x46000000 \<subseteq> range_set (span 0x40000000 0x48000000) - cover (boot_reserved sample_env)"
    "PAGE_SIZE dvd 0x43000000" "page 0x43000000 \<subseteq> range_set (span 0x40000000 0x48000000) - cover (boot_reserved sample_env)"
    unfolding sample_env_ranges by (auto simp: PAGE_SIZE_def page_def)
  ultimately have "0x46000000 \<in> usable_frames us" "0x43000000 \<in> usable_frames us" by blast+
  moreover have "\<not> (0x46000000 \<in> frame_set PAGE_SIZE heap \<and> 0x43000000 \<in> frame_set PAGE_SIZE heap)"
    using b(3) by (auto simp: frame_set_def KERNEL_HEAP_BOOTSTRAP_SIZE_def)
  ultimately show thesis using that [OF s0 b(1)] b(4) by blast
qed


end
