(* ===== verification/Memory_Props.thy ===== *)
theory Memory_Props
  imports Memory_Boot
begin

text \<open>
  What clients of the frame allocator rely on beyond ownership: its traversals end, a contiguous
  request is refused only if no fitting run of free frames exists, and giving memory back restores the
  free list.
\<close>

text \<open>
  C29. The allocator's loops end. On a well-formed free list every operation returns: inserting a
  frame, searching and unlinking a run of any length and alignment, and splicing a block back. A
  free list built from separate page-aligned ranges is well-formed.
\<close>

theorem allocator_traversals_end:
  assumes "0 < pg" "\<forall>u\<in>set us. aligned_range pg u" "sorted_wrt (\<lambda>q r. frame_set pg q \<inter> frame_set pg r = {}) us"
  shows "(\<exists>st xs. init_from_ranges us pg (fa_new, l) = Some st \<and> frees pg st xs \<and> set xs = (\<Union>u\<in>set us. frame_set pg u) \<and>
      fa_total_frames (fst st) = length xs) \<and>
    (\<forall>st xs. frees pg st xs \<longrightarrow>
      (\<forall>f. frame_ok pg f \<longrightarrow> f \<notin> set xs \<longrightarrow> insert_frame_sorted f st \<noteq> None \<and> free_frame f st \<noteq> None) \<and>
      (\<forall>n al. alloc_contiguous_aligned n pg al st \<noteq> None) \<and>
      (\<forall>r. aligned_range pg r \<longrightarrow> frame_set pg r \<inter> set xs = {} \<longrightarrow> free_contiguous r pg st \<noteq> None))"
proof -
  have ins: "insert_frame_sorted f st \<noteq> None \<and> free_frame f st \<noteq> None" if "frees pg st xs" "frame_ok pg f" "f \<notin> set xs" for st xs f
    using insert_frame_ok [OF that] free_frame_ok [OF that] by auto
  have run: "alloc_contiguous_aligned n pg al st \<noteq> None" if "frees pg st xs" for st xs n al
    using alloc_contiguous_aligned_ok [OF that, of al n] alloc_contiguous_refused [of al pg n st]
    by (cases "is_power_of_two al \<and> pg \<le> al \<and> 0 < n") auto
  have rel: "free_contiguous r pg st \<noteq> None" if "frees pg st xs" "aligned_range pg r" "frame_set pg r \<inter> set xs = {}" for st xs r
    using free_contiguous_ok [OF that] by auto
  show ?thesis
    by (intro conjI allI impI) (rule init_from_ranges_ok [OF assms], use ins in blast, use ins in blast, rule run, assumption, rule rel)
qed

theorem allocator_traversals_end_witness:
  "\<exists>st. init_from_ranges [span 4096 12288, span 16384 20480] 4096 (fa_new, \<lambda>_. 0) = Some st \<and> alloc_contiguous_aligned 2 4096 8192 st \<noteq> None"
proof -
  have "frame_set 4096 (span 4096 12288) \<inter> frame_set 4096 (span 16384 20480) = {}" by (auto simp: frame_set_def)
  then have "\<forall>u\<in>set [span 4096 12288, span 16384 20480]. aligned_range 4096 u"
    "sorted_wrt (\<lambda>q r. frame_set 4096 q \<inter> frame_set 4096 r = {}) [span 4096 12288, span 16384 20480]"
    by (simp_all add: aligned_range_def usize_max_def)
  from allocator_traversals_end [OF _ this, of "\<lambda>_. 0"] show ?thesis by (metis zero_less_numeral)
qed

text \<open>
  C27. A contiguous request is refused only if no fitting run is free. For every request for at least
  one frame with a power-of-two alignment of at least a page, the allocator returns an aligned range of exactly
  that many free frames, or there is no such range and nothing changes.
\<close>

theorem contiguous_request_exact:
  assumes "boot_env_ok env" "mem_metadata s00 = None" "memory_init env s00 = Some (Inr (), s0)" "owners s0 s H"
    and "is_power_of_two al" "PAGE_SIZE \<le> al" "0 < n"
  shows "(alloc_contiguous_frames_aligned n al s = Some (None, s) \<and>
      \<not> (\<exists>p. al dvd p \<and> frame_set PAGE_SIZE (span p (p + n * PAGE_SIZE)) \<subseteq> free_frames_of s)) \<or>
    (\<exists>p s'. alloc_contiguous_frames_aligned n al s = Some (Some (span p (p + n * PAGE_SIZE)), s') \<and> al dvd p \<and>
      frame_set PAGE_SIZE (span p (p + n * PAGE_SIZE)) \<subseteq> free_frames_of s)"
proof -
  have inv: "mem_inv s" using owners_split [OF assms(4)] memory_init_booted [OF assms(1-3)] by (metis splits_def)
  then obtain xs where xs: "mem_initialized s" "frees PAGE_SIZE (mem_allocator s, mem_links s) xs" "free_frames_of s = set xs"
    using mem_free_frames by (auto simp: mem_inv_def mem_free_def)
  have al: "PAGE_SIZE dvd al"
  proof -
    obtain k where k: "al = 2 ^ k" using power_of_two [OF assms(5)] by blast
    then have "(2 :: nat) ^ 12 \<le> 2 ^ k" using assms(6) by (simp add: PAGE_SIZE_def)
    then have "12 \<le> k" by (rule power_le_imp_le_exp [rotated]) simp
    then have "(2 :: nat) ^ 12 dvd 2 ^ k" by (rule le_imp_power_dvd)
    then show ?thesis unfolding k by (simp add: PAGE_SIZE_def)
  qed
  have fs: "frame_set PAGE_SIZE (span p (p + n * PAGE_SIZE)) = set (block PAGE_SIZE p n)" if "al dvd p" for p
    using set_block [OF page_pos(1) dvd_trans [OF al that], of n] by (simp add: frame_set_def)
  have same: "set_allocator (mem_allocator s, mem_links s) s = s" by (simp add: set_allocator_def)
  from alloc_contiguous_aligned_ok [OF xs(2) assms(5-7)] consider
      "alloc_contiguous_aligned n PAGE_SIZE al (mem_allocator s, mem_links s) = Some (None, mem_allocator s, mem_links s)"
      "\<forall>p. al dvd p \<longrightarrow> PAGE_SIZE dvd p \<longrightarrow> \<not> set (block PAGE_SIZE p n) \<subseteq> set xs"
    | r st' where "alloc_contiguous_aligned n PAGE_SIZE al (mem_allocator s, mem_links s) = Some (Some r, st')" "al dvd range_start r"
      "range_end r = range_start r + n * PAGE_SIZE" "frame_set PAGE_SIZE r \<subseteq> set xs" by blast
  then show ?thesis
  proof cases
    case 1
    then have "\<not> (\<exists>p. al dvd p \<and> frame_set PAGE_SIZE (span p (p + n * PAGE_SIZE)) \<subseteq> free_frames_of s)"
      using fs xs(3) dvd_trans [OF al] by metis
    then show ?thesis using 1(1) xs(1) same by (simp add: alloc_contiguous_frames_aligned_def)
  next
    case 2
    have r: "r = span (range_start r) (range_start r + n * PAGE_SIZE)" using 2(3) by simp
    have "alloc_contiguous_frames_aligned n al s = Some (Some r, set_allocator st' s)"
      using 2(1) xs(1) by (simp add: alloc_contiguous_frames_aligned_def)
    then show ?thesis using r 2(2,4) xs(3) by metis
  qed
qed

theorem contiguous_request_exact_witness:
  "\<exists>s. \<exists>p s'. alloc_contiguous_frames_aligned 1 PAGE_SIZE s = Some (Some (span p (p + PAGE_SIZE)), s') \<and> p \<in> free_frames_of s"
proof -
  have m: "mem_metadata sample_memory = None" by (simp add: sample_memory_def)
  obtain s0 where s0: "memory_init sample_env sample_memory = Some (Inr (), s0)" "mem_inv s0" "free_frames_of s0 \<noteq> {}" by (rule sample_memory_boots)
  then obtain f where f: "f \<in> free_frames_of s0" by blast
  have dv: "PAGE_SIZE dvd p" if "p \<in> free_frames_of s0" for p using that free_usable [OF s0(2)] by (auto simp: usable_frames_def frame_set_def)
  have one: "frame_set PAGE_SIZE (span p (p + PAGE_SIZE)) = {p}" if "PAGE_SIZE dvd p" for p
    using set_block [OF page_pos(1) that, of 1] by (simp add: frame_set_def block_def)
  have "\<exists>p s'. alloc_contiguous_frames_aligned 1 PAGE_SIZE s0 = Some (Some (span p (p + 1 * PAGE_SIZE)), s') \<and> PAGE_SIZE dvd p \<and>
      frame_set PAGE_SIZE (span p (p + 1 * PAGE_SIZE)) \<subseteq> free_frames_of s0"
    using contiguous_request_exact [OF sample_env_ok m s0(1) owners.start page_power order_refl, of 1] f dv [OF f] one [OF dv [OF f]] by auto
  then show ?thesis using one by (intro exI [of _ s0]) auto
qed

text \<open>
  C28. Allocation and release are inverse. A range that was just allocated can be given back, and
  then the free list and the number of free frames are what they were before.
\<close>

theorem alloc_free_roundtrip:
  assumes "mem_inv s" "alloc_contiguous_frames_aligned n al s = Some (Some r, s')"
  shows "\<exists>s'' xs. free_contiguous_frames r s' = Some s'' \<and> mem_free s xs \<and> mem_free s'' xs \<and> free_frame_count s'' = free_frame_count s"
proof -
  obtain xs where xs: "mem_free s xs" "mem_initialized s" using assms(1) by (auto simp: mem_inv_def)
  have a: "mem_inv s'" "frame_set PAGE_SIZE r \<subseteq> free_frames_of s" "free_frames_of s' = free_frames_of s - frame_set PAGE_SIZE r" "accepts_range r s'"
    using alloc_range_law [OF assms(1), of n al] assms(2) by auto
  obtain s'' where f: "free_contiguous_frames r s' = Some s''" "mem_inv s''" "free_frames_of s'' = free_frames_of s' \<union> frame_set PAGE_SIZE r"
    using free_range_law [OF a(1,4)] a(3) by blast
  obtain ys where ys: "mem_free s'' ys" "mem_initialized s''" using f(2) by (auto simp: mem_inv_def)
  have "set ys = set xs" using mem_free_frames [OF ys(1)] mem_free_frames [OF xs(1)] f(3) a(2,3) by auto
  then have eq: "ys = xs" using ys(1) xs(1) by (intro sorted_distinct_set_unique) (simp_all add: mem_free_def frees_def)
  then have "fa_free_frames (mem_allocator s'') = fa_free_frames (mem_allocator s)" using ys(1) xs(1) by (simp add: mem_free_def frees_def)
  then show ?thesis using f(1) xs ys eq by (auto simp: free_frame_count_def)
qed

text \<open>A pool of two frames.\<close>

definition sample_pool :: memory_state where
  "sample_pool = sample_memory\<lparr>mem_metadata := Some \<lparr>md_phys_regions = [], md_usable_ranges = [span 4096 12288], md_heap_range = None\<rparr>,
     mem_initialized := True, mem_allocator := \<lparr>fa_head = Some 4096, fa_page_size = 4096, fa_total_frames = 2, fa_free_frames = 2\<rparr>,
     mem_links := (\<lambda>f. if f = 4096 then 8192 else free_list_end)\<rparr>"

theorem alloc_free_roundtrip_witness:
  "\<exists>r s' s''. alloc_contiguous_frames_aligned 2 4096 sample_pool = Some (Some r, s') \<and> free_contiguous_frames r s' = Some s'' \<and> free_frame_count s'' = Some 2"
proof -
  have "frees PAGE_SIZE (mem_allocator sample_pool, mem_links sample_pool) [4096, 8192]"
    by (simp add: frees_def sample_pool_def PAGE_SIZE_def frame_ok_def usize_max_def next_free_def read_next_free_frame_def free_list_end_def)
  moreover have "[4096, 8192 :: usize] \<noteq> []" "{4096, 8192} \<subseteq> usable_frames (usable_ranges sample_pool)"
    by (auto simp: usable_frames_def usable_ranges_def sample_pool_def frame_set_def PAGE_SIZE_def)
  ultimately have inv: "mem_inv sample_pool"
    unfolding mem_inv_def mem_free_def
    by (intro conjI exI [of _ "[4096, 8192]"]) (simp_all add: sample_pool_def usable_ranges_def frames_ok_def separated_def PAGE_SIZE_def usize_max_def)
  have "case alloc_contiguous_frames_aligned 2 4096 sample_pool of Some (Some r, s') \<Rightarrow> True | _ \<Rightarrow> False" by code_simp
  then obtain r s' where a: "alloc_contiguous_frames_aligned 2 4096 sample_pool = Some (Some r, s')"
    by (auto split: option.splits)
  have "free_frame_count sample_pool = Some 2" by (simp add: free_frame_count_def sample_pool_def)
  then show ?thesis using alloc_free_roundtrip [OF inv a] a by auto
qed

end
