(* ===== verification/Spec2Isabelle.thy ===== *)
theory Spec2Isabelle
  imports Sched_Lifecycle Ipc_Wake Sched_Call Memory_Props
begin

text \<open>
  A verification development for the genrt hard real-time kernel.
\<close>

end
